(* ===== verification/Sponge_Prelude.thy ===== *)
theory Sponge_Prelude
  imports Main "HOL-Library.Word"
begin

text \<open>
  Shared vocabulary of the development: the C++ machine types (bytes, \<open>size_t\<close>, \<open>int\<close>
  and the conversions between them), the exceptions the library throws, the effect type
  of member functions that may both change an object and throw, and the generic lemmas
  on words and lists that the component theories use.

  The target is the LP64 model the library is built for (64-bit Linux): \<open>size_t\<close> is 64
  bits wide, \<open>int\<close> and \<open>unsigned\<close> 32 bits, and an out-of-range conversion to \<open>int\<close> keeps
  the low 32 bits (two's complement).
\<close>

unbundle bit_operations_syntax

section \<open>Machine types\<close>

type_synonym byte = "8 word"
type_synonym size_t = "64 word"
type_synonym uint16 = "16 word"
type_synonym uint32 = "32 word"
type_synonym uint64 = "64 word"

text \<open>A C \<open>int\<close> is an \<open>int\<close> of HOL whose range is kept by the conversions below.\<close>

definition INT_MAX :: int where
  "INT_MAX = 2147483647"

definition int_of_size :: "size_t \<Rightarrow> int" where
  "int_of_size n = sint (ucast n :: 32 word)"

definition size_of_int :: "int \<Rightarrow> size_t" where
  "size_of_int i = word_of_int i"

definition narrow_int :: "int \<Rightarrow> int" where
  "narrow_int i = signed_take_bit 31 i"

text \<open>\<open>size()\<close> of a string, a view or a container.\<close>

definition size_of :: "'a list \<Rightarrow> size_t" where
  "size_of xs = of_nat (length xs)"

text \<open>Every string or container in memory is shorter than \<open>size_t\<close> can count.\<close>

definition fits :: "'a list \<Rightarrow> bool" where
  "fits xs \<longleftrightarrow> length xs < 2 ^ 64"

section \<open>Exceptions and effects\<close>

datatype error_category = System_category | Gai_category

datatype exn =
    Out_of_range string
  | Runtime_error string
  | Tagged_error error_category string int
  | Invalid_argument string
  | Length_error string
  | Bad_array_new_length
  | Undefined_behaviour string

type_synonym 'a result = "exn + 'a"

text \<open>
  A member function of an object in state \<open>'s\<close> that returns an \<open>'a\<close> or throws. The state
  is returned in both cases: what a call changed before it threw stays changed.
\<close>

type_synonym ('s, 'a) em = "'s \<Rightarrow> 'a result \<times> 's"

definition returnM :: "'a \<Rightarrow> ('s, 'a) em" where
  "returnM x = (\<lambda>s. (Inr x, s))"

definition throwM :: "exn \<Rightarrow> ('s, 'a) em" where
  "throwM e = (\<lambda>s. (Inl e, s))"

definition bindM :: "('s, 'a) em \<Rightarrow> ('a \<Rightarrow> ('s, 'b) em) \<Rightarrow> ('s, 'b) em" where
  "bindM m f = (\<lambda>s. case m s of (Inl e, s') \<Rightarrow> (Inl e, s') | (Inr x, s') \<Rightarrow> f x s')"

definition seqM :: "('s, 'a) em \<Rightarrow> ('s, 'b) em \<Rightarrow> ('s, 'b) em" where
  "seqM m k = bindM m (\<lambda>_. k)"

definition catchM :: "('s, 'a) em \<Rightarrow> (exn \<Rightarrow> ('s, 'a) em) \<Rightarrow> ('s, 'a) em" where
  "catchM m h = (\<lambda>s. case m s of (Inl e, s') \<Rightarrow> h e s' | (Inr x, s') \<Rightarrow> (Inr x, s'))"

definition getsM :: "('s \<Rightarrow> 'a) \<Rightarrow> ('s, 'a) em" where
  "getsM f = (\<lambda>s. (Inr (f s), s))"

definition modifyM :: "('s \<Rightarrow> 's) \<Rightarrow> ('s, unit) em" where
  "modifyM f = (\<lambda>s. (Inr (), f s))"

definition liftR :: "'a result \<Rightarrow> ('s, 'a) em" where
  "liftR r = (\<lambda>s. (r, s))"

definition whenM :: "bool \<Rightarrow> ('s, unit) em \<Rightarrow> ('s, unit) em" where
  "whenM b m = (if b then m else returnM ())"

text \<open>The use of a variable outside its lifetime, or a second object of its name.\<close>

definition lifetime_error :: "('s, 'a) em" where
  "lifetime_error = throwM (Undefined_behaviour ''object lifetime'')"

text \<open>Calls issued one after the other, stopping at the first exception.\<close>

fun run_ops :: "('op \<Rightarrow> ('s, 'r) em) \<Rightarrow> 'op list \<Rightarrow> ('s, 'r list) em" where
  "run_ops exec [] = returnM []"
| "run_ops exec (x # xs) = bindM (exec x) (\<lambda>r. bindM (run_ops exec xs) (\<lambda>rs. returnM (r # rs)))"

text \<open>\<open>catch (const exception &)\<close> catches every exception, but undefined behaviour is none.\<close>

definition is_exception :: "exn \<Rightarrow> bool" where
  "is_exception e = (case e of Undefined_behaviour _ \<Rightarrow> False | _ \<Rightarrow> True)"

definition is_error :: "'a result \<Rightarrow> bool" where
  "is_error r = (case r of Inl _ \<Rightarrow> True | Inr _ \<Rightarrow> False)"

named_theorems em_simps \<open>evaluation of the effect combinators on a state\<close>

lemma returnM_apply [em_simps]: "returnM x s = (Inr x, s)"
  by (simp add: returnM_def)

lemma throwM_apply [em_simps]: "throwM e s = (Inl e, s)"
  by (simp add: throwM_def)

lemma bindM_apply [em_simps]:
  "bindM m f s = (case m s of (Inl e, s') \<Rightarrow> (Inl e, s') | (Inr x, s') \<Rightarrow> f x s')"
  by (simp add: bindM_def)

lemma seqM_apply [em_simps]:
  "seqM m k s = (case m s of (Inl e, s') \<Rightarrow> (Inl e, s') | (Inr x, s') \<Rightarrow> k s')"
  by (simp add: seqM_def bindM_def)

lemma catchM_apply [em_simps]:
  "catchM m h s = (case m s of (Inl e, s') \<Rightarrow> h e s' | (Inr x, s') \<Rightarrow> (Inr x, s'))"
  by (simp add: catchM_def)

lemma getsM_apply [em_simps]: "getsM f s = (Inr (f s), s)"
  by (simp add: getsM_def)

lemma modifyM_apply [em_simps]: "modifyM f s = (Inr (), f s)"
  by (simp add: modifyM_def)

lemma liftR_apply [em_simps]: "liftR r s = (r, s)"
  by (simp add: liftR_def)

lemma whenM_apply [em_simps]: "whenM b m s = (if b then m s else (Inr (), s))"
  by (simp add: whenM_def returnM_def)

lemma is_error_simps [simp]: "is_error (Inl e)" "\<not> is_error (Inr x)"
  by (simp_all add: is_error_def)

text \<open>The monad laws, which let a proof regroup a sequence of calls.\<close>

lemma bindM_returnM [simp]: "bindM (returnM x) f = f x" "bindM m returnM = m"
  by (auto simp: bindM_def returnM_def fun_eq_iff split: sum.splits prod.splits)

lemma bindM_assoc: "bindM (bindM m f) g = bindM m (\<lambda>x. bindM (f x) g)"
  by (auto simp: bindM_def fun_eq_iff split: sum.splits prod.splits)

lemma bindM_throwM [simp]: "bindM (throwM e) f = throwM e"
  by (simp add: bindM_def throwM_def)

text \<open>A state predicate that a computation keeps, whether it returns or throws.\<close>

definition keeps :: "('s \<Rightarrow> bool) \<Rightarrow> ('s, 'a) em \<Rightarrow> bool" where
  "keeps P m \<longleftrightarrow> (\<forall>s. P s \<longrightarrow> P (snd (m s)))"

named_theorems keeps_intro \<open>computations that keep a state predicate\<close>

lemma keepsD: "keeps P m \<Longrightarrow> P s \<Longrightarrow> m s = (r, s') \<Longrightarrow> P s'"
  by (metis keeps_def snd_conv)

lemma keeps_returnM [keeps_intro]: "keeps P (returnM x)"
  and keeps_throwM [keeps_intro]: "keeps P (throwM e)"
  and keeps_getsM [keeps_intro]: "keeps P (getsM f)"
  and keeps_liftR [keeps_intro]: "keeps P (liftR r)"
  by (simp_all add: keeps_def returnM_def throwM_def getsM_def liftR_def)

lemma keeps_modifyM: "(\<And>s. P s \<Longrightarrow> P (f s)) \<Longrightarrow> keeps P (modifyM f)"
  by (simp add: keeps_def modifyM_def)

lemma keeps_bindM [keeps_intro]:
  "keeps P m \<Longrightarrow> (\<And>x. keeps P (f x)) \<Longrightarrow> keeps P (bindM m f)"
  by (fastforce simp: keeps_def bindM_def split: prod.splits sum.splits)

lemma keeps_seqM [keeps_intro]: "keeps P m \<Longrightarrow> keeps P k \<Longrightarrow> keeps P (seqM m k)"
  by (simp add: seqM_def keeps_bindM)

lemma keeps_catchM [keeps_intro]:
  "keeps P m \<Longrightarrow> (\<And>e. keeps P (h e)) \<Longrightarrow> keeps P (catchM m h)"
  by (fastforce simp: keeps_def catchM_def split: prod.splits sum.splits)

lemma keeps_whenM [keeps_intro]: "keeps P m \<Longrightarrow> keeps P (whenM b m)"
  by (simp add: whenM_def keeps_returnM)

lemma keeps_if [keeps_intro]: "keeps P m \<Longrightarrow> keeps P k \<Longrightarrow> keeps P (if b then m else k)"
  by simp

section \<open>Objects under sequences of calls\<close>

text \<open>
  The contract of a class whose every operation keeps an invariant, and the stronger one of
  a class whose operations moreover never throw on an object that satisfies it. Clients that
  issue any sequence of calls get the same guarantees for the whole sequence.
\<close>

locale op_system =
  fixes exec :: "'op \<Rightarrow> ('s, 'r) em"
    and invar :: "'s \<Rightarrow> bool"
  assumes exec_keeps: "keeps invar (exec x)"
begin

lemma run_keeps: "keeps invar (run_ops exec xs)"
  by (induction xs) (auto intro!: keeps_intro exec_keeps)

lemma run_invar: "invar s \<Longrightarrow> run_ops exec xs s = (r, s') \<Longrightarrow> invar s'"
  using run_keeps keepsD by metis

end

locale total_system =
  fixes exec :: "'op \<Rightarrow> ('s, 'r) em"
    and invar :: "'s \<Rightarrow> bool"
  assumes exec_total: "invar s \<Longrightarrow> \<exists>r s'. exec x s = (Inr r, s') \<and> invar s'"
begin

lemma exec_keeps_invar: "keeps invar (exec x)"
  unfolding keeps_def by (metis exec_total snd_conv)

lemma run_total: "invar s \<Longrightarrow> \<exists>rs s'. run_ops exec xs s = (Inr rs, s') \<and> invar s' \<and> length rs = length xs"
proof (induction xs arbitrary: s)
  case Nil
  then show ?case by (simp add: em_simps)
next
  case (Cons x xs)
  then obtain r s1 where "exec x s = (Inr r, s1)" "invar s1"
    using exec_total by blast
  with Cons.IH [of s1] show ?case by (auto simp: em_simps)
qed

end

sublocale total_system \<subseteq> op_system
  by unfold_locales (rule exec_keeps_invar)

section \<open>Words and lists\<close>

lemma unat_size_of [simp]: "fits xs \<Longrightarrow> unat (size_of xs) = length xs"
  by (simp add: size_of_def fits_def unat_of_nat)

lemma fits_sub [simp]: "fits xs \<Longrightarrow> fits (take n xs)" "fits xs \<Longrightarrow> fits (drop n xs)" "fits []"
  by (simp_all add: fits_def)

lemma fits_appendD: "fits (xs @ ys) \<Longrightarrow> fits xs \<and> fits ys"
  by (simp add: fits_def)

lemma fits_length_le: "fits xs \<Longrightarrow> n \<le> length xs \<Longrightarrow> n < 2 ^ 64"
  by (simp add: fits_def)

lemma unat_add_fits: "unat (m::size_t) + unat n \<le> length xs \<Longrightarrow> fits xs \<Longrightarrow> unat (m + n) = unat m + unat n"
  using fits_length_le [of xs "unat m + unat n"] by (simp add: unat_word_ariths)

lemma less_size_of: "fits xs \<Longrightarrow> n < size_of xs \<longleftrightarrow> unat n < length xs"
  and size_of_less: "fits xs \<Longrightarrow> size_of xs < n \<longleftrightarrow> length xs < unat n"
  and le_size_of: "fits xs \<Longrightarrow> n \<le> size_of xs \<longleftrightarrow> unat n \<le> length xs"
  and eq_size_of: "fits xs \<Longrightarrow> n = size_of xs \<longleftrightarrow> unat n = length xs"
  by (simp_all add: word_less_nat_alt word_le_nat_alt word_unat_eq_iff)

lemma size_of_append: "size_of (xs @ ys) = size_of xs + size_of ys"
  by (simp add: size_of_def)

lemma size_of_Nil [simp]: "size_of [] = 0"
  by (simp add: size_of_def)

lemma int_of_size_small: "unat n < 2 ^ 31 \<Longrightarrow> int_of_size n = int (unat n)"
proof -
  assume small: "unat n < 2 ^ 31"
  then have "uint n < 2 ^ 31"
    by (simp flip: nat_uint_eq)
  then have "uint (ucast n :: 32 word) = uint n"
    by (simp add: unsigned_ucast_eq take_bit_int_eq_self)
  moreover have "- (2 ^ 31) \<le> uint n"
    by (rule order_trans [OF _ uint_ge_0]) simp
  ultimately show ?thesis using \<open>uint n < 2 ^ 31\<close>
    by (simp add: int_of_size_def sint_uint signed_take_bit_int_eq_self)
qed

lemma unat_size_of_int: "0 \<le> i \<Longrightarrow> i < 2 ^ 64 \<Longrightarrow> unat (size_of_int i) = nat i"
  by (simp add: size_of_int_def unat_eq_nat_uint uint_word_of_int_eq take_bit_int_eq_self)

lemma narrow_int_id: "- (2 ^ 31) \<le> i \<Longrightarrow> i < 2 ^ 31 \<Longrightarrow> narrow_int i = i"
  by (simp add: narrow_int_def signed_take_bit_int_eq_self)

lemma narrow_int_range: "- (2 ^ 31) \<le> narrow_int i \<and> narrow_int i < 2 ^ 31"
  using signed_take_bit_int_greater_eq_minus_exp [of 31 i] signed_take_bit_int_less_exp [of 31 i]
  by (simp add: narrow_int_def)

lemma byte_le: "unat (d :: byte) \<le> 255"
  using unsigned_less [of d, where 'a = nat] by simp

lemma int_of_size_word_of_int: "int_of_size (word_of_int k) = narrow_int k"
proof -
  have "(ucast (word_of_int k :: size_t) :: 32 word) = word_of_int k"
    by (rule bit_word_eqI) (simp add: bit_simps)
  then show ?thesis
    by (simp add: int_of_size_def narrow_int_def signed_of_int)
qed

lemma int_of_size_add: "int_of_size (size_of_int i + n) = narrow_int (i + int (unat n))"
proof -
  have "size_of_int i + n = word_of_int (i + int (unat n))"
    by (simp add: size_of_int_def)
  then show ?thesis
    by (simp only: int_of_size_word_of_int)
qed

lemma narrow_int_add: "narrow_int (narrow_int a + b) = narrow_int (a + b)"
  using signed_take_bit_add [of 31 "narrow_int a" b] signed_take_bit_add [of 31 a b]
  by (simp add: narrow_int_def)

lemma size_of_int_zero: "- (2 ^ 31) \<le> i \<Longrightarrow> i < 2 ^ 31 \<Longrightarrow> size_of_int i = 0 \<longleftrightarrow> i = 0"
  using int_of_size_add [of i 0] narrow_int_id [of i] by (auto simp: int_of_size_def size_of_int_def)

end
