(* ===== verification/Byte_Queue.thy ===== *)
theory Byte_Queue
  imports Sponge_Prelude
begin

text \<open>
  The contract shared by the three byte containers of \<open>buffer.hh\<close>: an object stands for a
  string of bytes, reports its size, and discards bytes from the front with
  \<open>remove_prefix\<close>, which throws \<open>out_of_range\<close> when asked for more than there is. The
  clients (\<open>NetParser\<close>, \<open>FileDescriptor::write\<close>) rely on this contract only.
\<close>

locale byte_queue =
  fixes invar :: "'q \<Rightarrow> bool"
    and contents :: "'q \<Rightarrow> byte list"
    and qsize :: "'q \<Rightarrow> size_t"
    and drop_front :: "size_t \<Rightarrow> ('q, unit) em"
  assumes size_law: "invar q \<Longrightarrow> qsize q = size_of (contents q)"
    and drop_ok: "invar q \<Longrightarrow> unat n \<le> length (contents q) \<Longrightarrow>
      \<exists>q'. drop_front n q = (Inr (), q') \<and> invar q' \<and> contents q' = drop (unat n) (contents q)"
    and drop_err: "invar q \<Longrightarrow> length (contents q) < unat n \<Longrightarrow>
      \<exists>msg q'. drop_front n q = (Inl (Out_of_range msg), q') \<and> invar q'"
begin

lemma drop_returns_iff:
  assumes "invar q"
  shows "(\<exists>q'. drop_front n q = (Inr (), q')) \<longleftrightarrow> unat n \<le> length (contents q)"
  using drop_ok [OF assms, of n] drop_err [OF assms, of n] by (cases "unat n \<le> length (contents q)") auto

lemma drop_contents:
  assumes "invar q" and "drop_front n q = (Inr (), q')"
  shows "invar q' \<and> unat n \<le> length (contents q) \<and> contents q' = drop (unat n) (contents q)"
proof -
  have le: "unat n \<le> length (contents q)"
    using drop_returns_iff [OF assms(1)] assms(2) by blast
  show ?thesis
    using drop_ok [OF assms(1) le] assms(2) le by auto
qed

lemma drop_keeps_invar:
  assumes "invar q" and "drop_front n q = (r, q')"
  shows "invar q'"
  using drop_ok [OF assms(1), of n] drop_err [OF assms(1), of n] assms(2)
  by (cases "unat n \<le> length (contents q)") auto

lemma drop_keeps: "keeps invar (drop_front n)"
  by (metis drop_keeps_invar keeps_def prod.collapse)

text \<open>Discarding in two steps is discarding once.\<close>

lemma drop_drop:
  assumes q: "invar q" and le: "unat m + unat n \<le> length (contents q)"
    and fits: "fits (contents q)"
  shows "\<exists>q1 q2 q3. drop_front m q = (Inr (), q1) \<and> drop_front n q1 = (Inr (), q2) \<and>
    drop_front (m + n) q = (Inr (), q3) \<and> contents q2 = contents q3"
proof -
  have sum: "unat (m + n) = unat m + unat n"
    using le fits by (rule unat_add_fits)
  obtain q1 where q1: "drop_front m q = (Inr (), q1)" "invar q1" "contents q1 = drop (unat m) (contents q)"
    using drop_ok [OF q, of m] le by auto
  have "unat n \<le> length (contents q1)"
    using le q1(3) by simp
  then obtain q2 where q2: "drop_front n q1 = (Inr (), q2)" "contents q2 = drop (unat n) (contents q1)"
    using drop_ok [OF q1(2)] by blast
  obtain q3 where q3: "drop_front (m + n) q = (Inr (), q3)" "contents q3 = drop (unat m + unat n) (contents q)"
    using drop_ok [OF q, of "m + n"] le sum by auto
  show ?thesis
    using q1 q2 q3 by (auto simp: add.commute)
qed

lemma drop_all_empties:
  assumes "invar q" and "fits (contents q)"
  shows "\<exists>q'. drop_front (qsize q) q = (Inr (), q') \<and> contents q' = []"
  using drop_ok [OF assms(1), of "qsize q"] size_law [OF assms(1)] assms(2) by auto

lemma drop_conserves:
  assumes "invar q" and "drop_front n q = (Inr (), q')"
  shows "contents q = take (unat n) (contents q) @ contents q'"
  using drop_contents [OF assms] by simp

lemma drop_shortens:
  assumes "invar q" and "drop_front n q = (Inr (), q')" and "n \<noteq> 0"
  shows "length (contents q') < length (contents q)"
proof -
  have "0 < unat n"
    using assms(3) by (simp add: unat_gt_0)
  with drop_contents [OF assms(1,2)] show ?thesis
    by auto
qed

end

end
