(* ===== verification/Buffer.thy ===== *)
theory Buffer
  imports Byte_Queue
begin

text \<open>
  \<open>libsponge/util/buffer.hh\<close> and \<open>buffer.cc\<close>: \<open>Buffer\<close> (a shared read-only string with a
  starting offset), \<open>BufferList\<close> (a deque of them) and \<open>BufferViewList\<close> (a deque of string
  views), one group of definitions per class. The storage of a \<open>Buffer\<close> is never written
  after construction, so sharing it between copies is not observable and the
  \<open>shared_ptr\<close> is an optional string (the theory \<open>Shared_Buffer\<close> models the sharing and proves this). Each class is shown to satisfy \<open>byte_queue\<close>.
\<close>

section \<open>Buffer\<close>

record buffer =
  storage :: "byte list option"
  starting_offset :: size_t

definition buf_default :: buffer where
  "buf_default = \<lparr>storage = None, starting_offset = 0\<rparr>"

definition buf_of_string :: "byte list \<Rightarrow> buffer" where
  "buf_of_string s = \<lparr>storage = Some s, starting_offset = 0\<rparr>"

text \<open>The view of \<open>len\<close> bytes that starts at \<open>off\<close> in \<open>s\<close>.\<close>

definition substring_view :: "byte list \<Rightarrow> size_t \<Rightarrow> size_t \<Rightarrow> byte list" where
  "substring_view s off len = take (unat len) (drop (unat off) s)"

definition buf_str :: "buffer \<Rightarrow> byte list" where
  "buf_str b = (case storage b of
       None \<Rightarrow> []
     | Some s \<Rightarrow> substring_view s (starting_offset b) (size_of s - starting_offset b))"

definition buf_at :: "buffer \<Rightarrow> size_t \<Rightarrow> byte result" where
  "buf_at b n = (if n < size_of (buf_str b) then Inr (buf_str b ! unat n)
     else Inl (Out_of_range ''basic_string_view::at''))"

definition buf_size :: "buffer \<Rightarrow> size_t" where
  "buf_size b = size_of (buf_str b)"

definition buf_copy :: "buffer \<Rightarrow> byte list" where
  "buf_copy b = buf_str b"

definition buf_remove_prefix :: "size_t \<Rightarrow> (buffer, unit) em" where
  "buf_remove_prefix n = (\<lambda>b.
     if n > size_of (buf_str b) then (Inl (Out_of_range ''Buffer::remove_prefix''), b)
     else let b = b\<lparr>starting_offset := starting_offset b + n\<rparr> in
       (case storage b of
          Some s \<Rightarrow> if starting_offset b = size_of s then (Inr (), b\<lparr>storage := None\<rparr>) else (Inr (), b)
        | None \<Rightarrow> (Inr (), b)))"

section \<open>BufferList\<close>

record buffer_list =
  buffers :: "buffer list"

definition bl_empty :: buffer_list where
  "bl_empty = \<lparr>buffers = []\<rparr>"

definition bl_of_buffer :: "buffer \<Rightarrow> buffer_list" where
  "bl_of_buffer b = \<lparr>buffers = [b]\<rparr>"

text \<open>\<open>append\<close>: the loop pushes each buffer of the other list at the back.\<close>

definition bl_append :: "buffer_list \<Rightarrow> buffer_list \<Rightarrow> buffer_list" where
  "bl_append self other =
     fold (\<lambda>buf acc. acc\<lparr>buffers := buffers acc @ [buf]\<rparr>) (buffers other) self"

definition bl_of_string :: "byte list \<Rightarrow> buffer_list" where
  "bl_of_string s = bl_append bl_empty (bl_of_buffer (buf_of_string s))"

text \<open>\<open>operator Buffer\<close>.\<close>

definition bl_to_buffer :: "buffer_list \<Rightarrow> buffer result" where
  "bl_to_buffer bl = (case buffers bl of
       [] \<Rightarrow> Inr buf_default
     | [b] \<Rightarrow> Inr b
     | _ \<Rightarrow> Inl (Runtime_error (''BufferList: please use concatenate() to combine '' @
              ''a multi-Buffer BufferList into one Buffer'')))"

definition bl_concatenate :: "buffer_list \<Rightarrow> byte list" where
  "bl_concatenate bl = fold (\<lambda>buf ret. ret @ buf_str buf) (buffers bl) []"

definition bl_size :: "buffer_list \<Rightarrow> size_t" where
  "bl_size bl = fold (\<lambda>buf ret. ret + buf_size buf) (buffers bl) 0"

fun bl_remove_loop :: "size_t \<Rightarrow> buffer list \<Rightarrow> unit result \<times> buffer list" where
  "bl_remove_loop n [] =
     (if n > 0 then (Inl (Out_of_range ''BufferList::remove_prefix''), []) else (Inr (), []))"
| "bl_remove_loop n (b # bs) =
     (if n > 0 then
        if n < size_of (buf_str b) then
          (case buf_remove_prefix n b of (r, b') \<Rightarrow> (r, b' # bs))
        else bl_remove_loop (n - size_of (buf_str b)) bs
      else (Inr (), b # bs))"

definition bl_remove_prefix :: "size_t \<Rightarrow> (buffer_list, unit) em" where
  "bl_remove_prefix n = (\<lambda>bl. case bl_remove_loop n (buffers bl) of
     (r, bs) \<Rightarrow> (r, bl\<lparr>buffers := bs\<rparr>))"

section \<open>BufferViewList\<close>

record buffer_view_list =
  views :: "byte list list"

record iovec =
  iov_base :: "byte list"
  iov_len :: size_t

definition bvl_of_view :: "byte list \<Rightarrow> buffer_view_list" where
  "bvl_of_view str = \<lparr>views = [str]\<rparr>"

definition bvl_of_string :: "byte list \<Rightarrow> buffer_view_list" where
  "bvl_of_string str = bvl_of_view str"

text \<open>A C string ends before its first zero byte.\<close>

definition bvl_of_c_string :: "byte list \<Rightarrow> buffer_view_list" where
  "bvl_of_c_string s = bvl_of_view (takeWhile (\<lambda>c. c \<noteq> 0) s)"

definition bvl_of_buffer_list :: "buffer_list \<Rightarrow> buffer_view_list" where
  "bvl_of_buffer_list bl =
     fold (\<lambda>x acc. acc\<lparr>views := views acc @ [buf_str x]\<rparr>) (buffers bl) \<lparr>views = []\<rparr>"

fun bvl_remove_loop :: "size_t \<Rightarrow> byte list list \<Rightarrow> unit result \<times> byte list list" where
  "bvl_remove_loop n [] =
     (if n > 0 then (Inl (Out_of_range ''BufferListView::remove_prefix''), []) else (Inr (), []))"
| "bvl_remove_loop n (v # vs) =
     (if n > 0 then
        if n < size_of v then (Inr (), drop (unat n) v # vs)
        else bvl_remove_loop (n - size_of v) vs
      else (Inr (), v # vs))"

definition bvl_remove_prefix :: "size_t \<Rightarrow> (buffer_view_list, unit) em" where
  "bvl_remove_prefix n = (\<lambda>l. case bvl_remove_loop n (views l) of
     (r, vs) \<Rightarrow> (r, l\<lparr>views := vs\<rparr>))"

definition bvl_size :: "buffer_view_list \<Rightarrow> size_t" where
  "bvl_size l = fold (\<lambda>buf ret. ret + size_of buf) (views l) 0"

definition bvl_as_iovecs :: "buffer_view_list \<Rightarrow> iovec list" where
  "bvl_as_iovecs l =
     fold (\<lambda>x ret. ret @ [\<lparr>iov_base = x, iov_len = size_of x\<rparr>]) (views l) []"

section \<open>Well-formedness\<close>

text \<open>
  The offset stays inside the storage, and a string is shorter than \<open>size_t\<close> can count.
\<close>

definition buf_wf :: "buffer \<Rightarrow> bool" where
  "buf_wf b = (case storage b of
       None \<Rightarrow> True
     | Some s \<Rightarrow> unat (starting_offset b) \<le> length s \<and> fits s)"

definition bl_wf :: "buffer_list \<Rightarrow> bool" where
  "bl_wf bl = list_all buf_wf (buffers bl)"

definition bvl_wf :: "buffer_view_list \<Rightarrow> bool" where
  "bvl_wf l = list_all (\<lambda>v. fits v) (views l)"

definition bvl_contents :: "buffer_view_list \<Rightarrow> byte list" where
  "bvl_contents l = concat (views l)"

definition iovecs_bytes :: "iovec list \<Rightarrow> byte list" where
  "iovecs_bytes iov = concat (map (\<lambda>v. take (unat (iov_len v)) (iov_base v)) iov)"

text \<open>The outcome of a removal with the text of its exception replaced.\<close>

definition rename_error :: "unit result \<Rightarrow> unit result" where
  "rename_error r = (case r of
       Inl _ \<Rightarrow> Inl (Out_of_range ''BufferListView::remove_prefix'')
     | Inr u \<Rightarrow> Inr u)"

section \<open>Buffer: lemmas\<close>

lemma size_minus_offset:
  assumes "unat off \<le> length s" and "fits s"
  shows "unat (size_of s - off) = length s - unat off"
  using assms by (simp add: unat_sub le_size_of)

lemma buf_str_Some:
  assumes "buf_wf b" and "storage b = Some s"
  shows "buf_str b = drop (unat (starting_offset b)) s"
  using assms by (simp add: buf_wf_def buf_str_def substring_view_def size_minus_offset)

lemma buf_str_None: "storage b = None \<Longrightarrow> buf_str b = []"
  by (simp add: buf_str_def)

lemma buf_str_fits [simp]: "buf_wf b \<Longrightarrow> fits (buf_str b)"
  by (cases "storage b") (auto simp: buf_str_None buf_str_Some, simp add: buf_wf_def)

lemma buf_size_unat: "buf_wf b \<Longrightarrow> unat (buf_size b) = length (buf_str b)"
  by (simp add: buf_size_def)

lemma buf_of_string_wf [simp]: "fits s \<Longrightarrow> buf_wf (buf_of_string s)"
  by (simp add: buf_of_string_def buf_wf_def)

lemma buf_default_simps [simp]: "buf_wf buf_default" "buf_str buf_default = []"
  by (simp_all add: buf_default_def buf_wf_def buf_str_def)

lemma buf_str_of_string [simp]: "fits s \<Longrightarrow> buf_str (buf_of_string s) = s"
  using buf_str_Some [OF buf_of_string_wf, of s s] by (simp add: buf_of_string_def)

lemma buf_remove_prefix_err:
  "buf_wf b \<Longrightarrow> length (buf_str b) < unat n \<Longrightarrow>
     buf_remove_prefix n b = (Inl (Out_of_range ''Buffer::remove_prefix''), b)"
  by (simp add: buf_remove_prefix_def size_of_less)

lemma buf_remove_prefix_ok:
  assumes wf: "buf_wf b" and le: "unat n \<le> length (buf_str b)"
  shows "\<exists>b'. buf_remove_prefix n b = (Inr (), b') \<and> buf_wf b' \<and> buf_str b' = drop (unat n) (buf_str b)"
proof (cases "storage b")
  case None
  with le have "n = 0"
    by (simp add: buf_str_None word_unat_eq_iff)
  with None show ?thesis
    by (simp add: buf_remove_prefix_def buf_str_def buf_wf_def)
next
  case (Some s)
  let ?off = "starting_offset b"
  have bounds: "unat ?off \<le> length s" "fits s"
    using wf Some by (simp_all add: buf_wf_def)
  have str: "buf_str b = drop (unat ?off) s"
    using wf Some by (rule buf_str_Some)
  have le': "unat ?off + unat n \<le> length s"
    using le bounds(1) str by simp
  note off' = unat_add_fits [OF le' bounds(2)]
  have guard: "\<not> n > size_of (buf_str b)"
    using le wf by (simp add: size_of_less)
  have full: "?off + n = size_of s \<longleftrightarrow> unat ?off + unat n = length s"
    using off' bounds by (simp add: eq_size_of)
  show ?thesis
  proof (cases "unat ?off + unat n = length s")
    case True
    with Some guard full show ?thesis
      by (simp add: buf_remove_prefix_def str add.commute) (simp add: buf_str_def buf_wf_def)
  next
    case False
    let ?b' = "b\<lparr>starting_offset := ?off + n\<rparr>"
    have wf': "buf_wf ?b'"
      using Some bounds le' off' by (simp add: buf_wf_def)
    have "buf_str ?b' = drop (unat n) (buf_str b)"
      using buf_str_Some [OF wf', of s] Some off' str by (simp add: add.commute)
    with False Some guard full wf' show ?thesis
      by (simp add: buf_remove_prefix_def)
  qed
qed

interpretation buf: byte_queue buf_wf buf_str buf_size buf_remove_prefix
  by unfold_locales (auto simp: buf_size_def buf_remove_prefix_err intro: buf_remove_prefix_ok)

lemma buf_remove_prefix_releases:
  assumes "buf_wf b" and "buf_remove_prefix n b = (Inr (), b')"
  shows "storage b' = None \<longleftrightarrow> buf_str b' = []"
proof -
  note c = buf.drop_contents [OF assms]
  show ?thesis
  proof (cases "storage b'")
    case None
    then show ?thesis by (simp add: buf_str_None)
  next
    case (Some s)
    then have "storage b = Some s" and "starting_offset b' = starting_offset b + n"
      and "starting_offset b + n \<noteq> size_of s"
      using assms(2)
      by (auto simp: buf_remove_prefix_def Let_def split: if_splits option.splits)
    with c Some have "unat (starting_offset b') \<noteq> length s" "unat (starting_offset b') \<le> length s"
      by (auto simp: eq_size_of buf_wf_def)
    with Some c show ?thesis
      using buf_str_Some [of b' s] by auto
  qed
qed

section \<open>BufferList and BufferViewList: lemmas\<close>

lemma fold_push_buffers:
  "fold (\<lambda>buf acc. acc\<lparr>buffers := buffers acc @ [buf]\<rparr>) bs bl = bl\<lparr>buffers := buffers bl @ bs\<rparr>"
  by (induction bs arbitrary: bl) auto

lemma buffers_append [simp]: "buffers (bl_append a b) = buffers a @ buffers b"
  by (simp add: bl_append_def fold_push_buffers)

lemma fold_push_views:
  "fold (\<lambda>x acc. acc\<lparr>views := views acc @ [f x]\<rparr>) xs l = l\<lparr>views := views l @ map f xs\<rparr>"
  by (induction xs arbitrary: l) auto

lemma views_of_buffer_list [simp]: "views (bvl_of_buffer_list bl) = map buf_str (buffers bl)"
  by (simp add: bvl_of_buffer_list_def fold_push_views)

lemma fold_append_concat: "fold (\<lambda>x ret. ret @ f x) xs acc = acc @ concat (map f xs)"
  by (induction xs arbitrary: acc) auto

lemma fold_plus_size: "fold (\<lambda>x ret. ret + size_of (f x)) xs acc = acc + size_of (concat (map f xs))"
  by (induction xs arbitrary: acc) (auto simp: size_of_append)

lemma bl_concatenate_eq: "bl_concatenate bl = concat (map buf_str (buffers bl))"
  by (simp add: bl_concatenate_def fold_append_concat)

lemma bl_size_eq: "bl_size bl = size_of (bl_concatenate bl)"
  by (simp add: bl_size_def bl_concatenate_eq buf_size_def fold_plus_size)

lemma bvl_size_eq: "bvl_size l = size_of (bvl_contents l)"
  using fold_plus_size [of "\<lambda>x. x" "views l" 0] by (simp add: bvl_size_def bvl_contents_def)

lemma bvl_as_iovecs_eq: "bvl_as_iovecs l = map (\<lambda>x. \<lparr>iov_base = x, iov_len = size_of x\<rparr>) (views l)"
  using fold_append_concat [of "\<lambda>x. [\<lparr>iov_base = x, iov_len = size_of x\<rparr>]" "views l" "[]"]
  by (simp add: bvl_as_iovecs_def concat_map_singleton)

lemma unat_sub_size_of:
  "fits xs \<Longrightarrow> \<not> n < size_of xs \<Longrightarrow> unat (n - size_of xs) = unat n - length xs \<and> length xs \<le> unat n"
  by (simp add: unat_sub le_size_of not_less word_le_nat_alt)

lemma bvl_remove_loop_ok:
  assumes "list_all fits vs" and "unat n \<le> length (concat vs)"
  shows "\<exists>vs'. bvl_remove_loop n vs = (Inr (), vs') \<and> list_all fits vs' \<and>
    concat vs' = drop (unat n) (concat vs)"
  using assms
proof (induction vs arbitrary: n)
  case Nil
  then show ?case by (simp add: unat_0_iff)
next
  case (Cons v vs)
  consider "n = 0" | "n > 0" "n < size_of v" | "n > 0" "\<not> n < size_of v"
    using word_neq_0_conv [of n] by blast
  then show ?case
  proof cases
    case 1
    with Cons.prems show ?thesis by simp
  next
    case 2
    with Cons.prems show ?thesis by (simp add: less_size_of)
  next
    case 3
    with Cons.prems have "unat (n - size_of v) = unat n - length v" "length v \<le> unat n"
      by (simp_all add: unat_sub_size_of)
    with 3 Cons.prems Cons.IH [of "n - size_of v"] show ?thesis
      by simp
  qed
qed

lemma bvl_remove_loop_err:
  assumes "list_all fits vs" and "length (concat vs) < unat n"
  shows "bvl_remove_loop n vs = (Inl (Out_of_range ''BufferListView::remove_prefix''), [])"
  using assms
proof (induction vs arbitrary: n)
  case Nil
  then show ?case by (simp add: word_less_nat_alt)
next
  case (Cons v vs)
  then have "n > 0" and ge: "\<not> n < size_of v"
    by (simp_all add: word_less_nat_alt)
  have "unat (n - size_of v) = unat n - length v"
    using Cons.prems ge by (simp add: unat_sub_size_of)
  with Cons.prems Cons.IH [of "n - size_of v"] \<open>n > 0\<close> ge show ?case
    by simp
qed

interpretation bvl: byte_queue bvl_wf bvl_contents bvl_size bvl_remove_prefix
proof unfold_locales
  fix l :: buffer_view_list and n :: size_t
  assume wf: "bvl_wf l"
  show "bvl_size l = size_of (bvl_contents l)"
    by (rule bvl_size_eq)
  show "\<exists>l'. bvl_remove_prefix n l = (Inr (), l') \<and> bvl_wf l' \<and> bvl_contents l' = drop (unat n) (bvl_contents l)"
    if "unat n \<le> length (bvl_contents l)"
    using bvl_remove_loop_ok [of "views l" n] wf that
    by (auto simp: bvl_remove_prefix_def bvl_wf_def bvl_contents_def)
  show "\<exists>msg l'. bvl_remove_prefix n l = (Inl (Out_of_range msg), l') \<and> bvl_wf l'"
    if "length (bvl_contents l) < unat n"
    using bvl_remove_loop_err [of "views l" n] wf that
    by (auto simp: bvl_remove_prefix_def bvl_wf_def bvl_contents_def)
qed

text \<open>
  \<open>BufferList::remove_prefix\<close> is the same walk as \<open>BufferViewList::remove_prefix\<close> on the
  views of its buffers; only the text of the exception differs.
\<close>

lemma bl_remove_loop_sim:
  assumes "list_all buf_wf bs" and "bl_remove_loop n bs = (r, bs')"
  shows "list_all buf_wf bs' \<and> bvl_remove_loop n (map buf_str bs) = (rename_error r, map buf_str bs')
    \<and> (is_error r \<longrightarrow> r = Inl (Out_of_range ''BufferList::remove_prefix'') \<and> bs' = [])"
  using assms
proof (induction n bs rule: bl_remove_loop.induct)
  case (1 n)
  then show ?case by (auto simp: rename_error_def split: if_splits)
next
  case (2 n b bs)
  then have wf: "buf_wf b" and wfs: "list_all buf_wf bs" by simp_all
  show ?case
  proof (cases "n > 0 \<and> n < size_of (buf_str b)")
    case True
    then obtain b' where b': "buf_remove_prefix n b = (Inr (), b')" "buf_wf b'"
        "buf_str b' = drop (unat n) (buf_str b)"
      using buf_remove_prefix_ok [OF wf, of n] wf by (auto simp: less_size_of)
    with True wfs "2.prems" show ?thesis
      by (auto simp: rename_error_def)
  next
    case False
    with "2.prems" "2.IH" wf wfs show ?thesis
      by (auto simp: rename_error_def split: if_splits)
  qed
qed

lemma bl_wf_views: "bl_wf bl \<Longrightarrow> bvl_wf (bvl_of_buffer_list bl)"
  by (auto simp: bl_wf_def bvl_wf_def list_all_iff)

lemma contents_of_buffer_list: "bvl_contents (bvl_of_buffer_list bl) = bl_concatenate bl"
  by (simp add: bvl_contents_def bl_concatenate_eq)

lemma bl_remove_prefix_sim:
  assumes "bl_wf bl" and "bl_remove_prefix n bl = (r, bl')"
  shows "bl_wf bl'"
    and "bvl_remove_prefix n (bvl_of_buffer_list bl) = (rename_error r, bvl_of_buffer_list bl')"
    and "is_error r \<Longrightarrow> r = Inl (Out_of_range ''BufferList::remove_prefix'') \<and> buffers bl' = []"
  using assms bl_remove_loop_sim [of "buffers bl" n]
  by (auto simp: bl_wf_def bl_remove_prefix_def bvl_remove_prefix_def
      buffer_view_list.equality split: prod.splits)

interpretation blq: byte_queue bl_wf bl_concatenate bl_size bl_remove_prefix
proof unfold_locales
  fix bl :: buffer_list and n :: size_t
  assume wf: "bl_wf bl"
  obtain r bl' where run: "bl_remove_prefix n bl = (r, bl')" by force
  note sim = bl_remove_prefix_sim [OF wf run]
  note bvl_law = bvl.drop_contents [OF bl_wf_views [OF wf], of n "bvl_of_buffer_list bl'"]
    bvl.drop_ok [OF bl_wf_views [OF wf], of n] bvl.drop_err [OF bl_wf_views [OF wf], of n]
  show "bl_size bl = size_of (bl_concatenate bl)"
    by (rule bl_size_eq)
  show "\<exists>bl'. bl_remove_prefix n bl = (Inr (), bl') \<and> bl_wf bl' \<and> bl_concatenate bl' = drop (unat n) (bl_concatenate bl)"
    if "unat n \<le> length (bl_concatenate bl)"
    using run sim bvl_law that
    by (cases r) (auto simp: contents_of_buffer_list rename_error_def)
  show "\<exists>msg bl'. bl_remove_prefix n bl = (Inl (Out_of_range msg), bl') \<and> bl_wf bl'"
    if "length (bl_concatenate bl) < unat n"
    using run sim bvl_law that
    by (cases r) (auto simp: contents_of_buffer_list rename_error_def)
qed

lemma iovecs_of_views: "bvl_wf buf \<Longrightarrow> iovecs_bytes (bvl_as_iovecs buf) = bvl_contents buf"
proof -
  assume "bvl_wf buf"
  moreover have "concat (map (\<lambda>x. take (unat (size_of x)) x) vs) = concat vs" if "list_all fits vs" for vs :: "byte list list"
    using that by (induction vs) auto
  ultimately show ?thesis
    by (simp add: bvl_as_iovecs_eq iovecs_bytes_def bvl_contents_def bvl_wf_def comp_def)
qed

section \<open>Properties\<close>

text \<open>\<open>Buffer::remove_prefix(n)\<close>: when the buffer holds at least \<open>n\<close> bytes it discards
  exactly the first \<open>n\<close>, keeps the offset inside the storage, and releases the storage
  exactly when nothing is left; otherwise it throws \<open>out_of_range\<close> and the buffer is
  unchanged.\<close>

lemma buffer_remove_prefix_correct:
  assumes "buf_wf b"
  shows "case buf_remove_prefix n b of
      (Inl e, b') \<Rightarrow> length (buf_str b) < unat n \<and> e = Out_of_range ''Buffer::remove_prefix'' \<and> b' = b
    | (Inr _, b') \<Rightarrow> unat n \<le> length (buf_str b) \<and> buf_wf b' \<and>
        buf_str b' = drop (unat n) (buf_str b) \<and> (storage b' = None \<longleftrightarrow> buf_str b' = [])"
proof (cases "unat n \<le> length (buf_str b)")
  case True
  then obtain b' where "buf_remove_prefix n b = (Inr (), b')" "buf_wf b'" "buf_str b' = drop (unat n) (buf_str b)"
    using buf.drop_ok [OF assms] by blast
  with True buf_remove_prefix_releases [OF assms, of n b'] show ?thesis by simp
next
  case False
  then show ?thesis by (simp add: buf_remove_prefix_err [OF assms])
qed

text \<open>C18. \<open>BufferList::remove_prefix(n)\<close> discards exactly the first \<open>n\<close> bytes of the
  concatenated contents, across as many buffers as that takes; asked for more than the
  list holds it throws \<open>out_of_range\<close>, and by then every buffer has been popped.\<close>

theorem buffer_list_remove_prefix_correct:
  assumes "bl_wf bl"
  shows "case bl_remove_prefix n bl of
      (Inl e, bl') \<Rightarrow> length (bl_concatenate bl) < unat n \<and>
        e = Out_of_range ''BufferList::remove_prefix'' \<and> buffers bl' = []
    | (Inr _, bl') \<Rightarrow> unat n \<le> length (bl_concatenate bl) \<and> bl_wf bl' \<and>
        bl_concatenate bl' = drop (unat n) (bl_concatenate bl)"
proof (cases "unat n \<le> length (bl_concatenate bl)")
  case True
  then show ?thesis using blq.drop_ok [OF assms, of n] by auto
next
  case False
  then obtain msg bl' where "bl_remove_prefix n bl = (Inl (Out_of_range msg), bl')"
    using blq.drop_err [OF assms, of n] by auto
  with False bl_remove_prefix_sim(3) [OF assms this] show ?thesis by simp
qed

theorem buffer_list_remove_prefix_correct_witness:
  "bl_wf (bl_append (bl_of_string [1, 2]) (bl_of_string [3, 4])) \<and>
   (case bl_remove_prefix 3 (bl_append (bl_of_string [1, 2]) (bl_of_string [3, 4])) of
      (Inl e, bl') \<Rightarrow> False
    | (Inr _, bl') \<Rightarrow> bl_concatenate bl' = [4])"
proof -
  let ?bl = "bl_append (bl_of_string [1, 2]) (bl_of_string [3, 4])"
  have f: "fits [1, 2 :: byte]" "fits [3, 4 :: byte]" by (simp_all add: fits_def)
  have wf: "bl_wf ?bl" and c: "bl_concatenate ?bl = [1, 2, 3, 4]"
    using f by (simp_all add: bl_wf_def bl_of_string_def bl_empty_def bl_of_buffer_def bl_concatenate_eq)
  show ?thesis using wf buffer_list_remove_prefix_correct [OF wf, of 3]
    by (simp add: c split: prod.splits sum.splits)
qed

text \<open>C33. Taking the views of a \<open>BufferList\<close> commutes with \<open>remove_prefix\<close>: removing from the
  view list and removing from the buffer list give the same outcome (up to the text of
  the exception) and views of the same remaining buffers, so \<open>BufferViewList\<close> implements
  \<open>BufferList\<close>'s contract.\<close>

theorem buffer_view_list_simulates:
  assumes "bl_wf bl"
  shows "bvl_remove_prefix n (bvl_of_buffer_list bl) =
    (rename_error (fst (bl_remove_prefix n bl)), bvl_of_buffer_list (snd (bl_remove_prefix n bl)))"
  using bl_remove_prefix_sim(2) [OF assms, of n] by (metis prod.collapse)

theorem buffer_view_list_simulates_witness:
  "bl_wf (bl_of_string [5, 6]) \<and>
   bvl_remove_prefix 1 (bvl_of_buffer_list (bl_of_string [5, 6])) =
    (rename_error (fst (bl_remove_prefix 1 (bl_of_string [5, 6]))),
     bvl_of_buffer_list (snd (bl_remove_prefix 1 (bl_of_string [5, 6]))))"
proof -
  have wf: "bl_wf (bl_of_string [5, 6])"
    by (simp add: bl_wf_def bl_of_string_def bl_empty_def bl_of_buffer_def buf_of_string_wf fits_def)
  show ?thesis using wf buffer_view_list_simulates [OF wf, of 1] by simp
qed

text \<open>The scatter/gather list of \<open>as_iovecs\<close> describes exactly the bytes of the view list, in
  order, and the lengths it announces add up to \<open>size()\<close>.\<close>

lemma iovecs_cover_contents:
  assumes "bvl_wf l"
  shows "iovecs_bytes (bvl_as_iovecs l) = bvl_contents l \<and>
    sum_list (map iov_len (bvl_as_iovecs l)) = bvl_size l \<and>
    length (bvl_as_iovecs l) = length (views l)"
proof -
  have "sum_list (map size_of vs) = size_of (concat vs)" for vs :: "byte list list"
    by (induction vs) (auto simp: size_of_append)
  then have "sum_list (map iov_len (bvl_as_iovecs l)) = bvl_size l"
    by (simp add: bvl_as_iovecs_eq bvl_contents_def bvl_size_eq comp_def)
  then show ?thesis
    using iovecs_of_views [OF assms] by (simp add: bvl_as_iovecs_eq)
qed

text \<open>\<open>operator Buffer\<close> of a \<open>BufferList\<close> throws exactly when the list holds two or more
  buffers (even empty ones), and otherwise yields a buffer with the list's contents.\<close>

lemma buffer_list_to_buffer:
  "case bl_to_buffer bl of
     Inl _ \<Rightarrow> 2 \<le> length (buffers bl)
   | Inr b \<Rightarrow> length (buffers bl) \<le> 1 \<and> buf_str b = bl_concatenate bl"
  by (auto simp: bl_to_buffer_def bl_concatenate_eq split: list.splits)

text \<open>\<open>append\<close> appends the contents, and \<open>size()\<close> of the result is the sum of the sizes
  reduced modulo 2 to the 64.\<close>

lemma buffer_list_append:
  "bl_concatenate (bl_append a b) = bl_concatenate a @ bl_concatenate b \<and>
   unat (bl_size (bl_append a b)) = (unat (bl_size a) + unat (bl_size b)) mod 2 ^ 64 \<and>
   unat (bl_size a) = length (bl_concatenate a) mod 2 ^ 64"
  by (simp add: bl_size_eq bl_concatenate_eq size_of_append unat_word_ariths)
    (simp add: size_of_def unat_of_nat)

end
