(* ===== verification/Shared_Buffer.thy ===== *)
theory Shared_Buffer
  imports Buffer
begin

text \<open>
  The storage behind \<open>Buffer\<close> (\<open>libsponge/util/buffer.hh\<close>, \<open>buffer.cc\<close>). A \<open>Buffer\<close> object is a
  \<open>shared_ptr<string>\<close> and an offset; its copies share the string, and the string is freed with its last
  owner. Here the strings live in a store with their use counts, and the objects are
  variables that are constructed, copied, moved, assigned, shortened and destroyed. No program
  can tell these objects from the plain values of the theory \<open>Buffer\<close>, and a string is
  freed when all its copies have been discarded or destroyed, not before and not later.
\<close>

section \<open>Objects and storage\<close>

record shared_string =
  str_text :: "byte list"
  str_uses :: nat

record shared_buffer =
  sb_ptr :: "nat option"
  sb_offset :: size_t

record buf_world =
  sb_heap :: "nat \<rightharpoonup> shared_string"
  sb_next :: nat
  sb_vars :: "nat \<rightharpoonup> shared_buffer"

definition sb_start :: buf_world where
  "sb_start = \<lparr>sb_heap = Map.empty, sb_next = 0, sb_vars = Map.empty\<rparr>"

text \<open>Copying a \<open>shared_ptr\<close>, and resetting or destroying one.\<close>

definition sb_acquire :: "nat option \<Rightarrow> buf_world \<Rightarrow> buf_world" where
  "sb_acquire q s = (case q of
       None \<Rightarrow> s
     | Some p \<Rightarrow> s\<lparr>sb_heap := (sb_heap s)(p := map_option (\<lambda>c. c\<lparr>str_uses := Suc (str_uses c)\<rparr>) (sb_heap s p))\<rparr>)"

definition sb_release :: "nat option \<Rightarrow> buf_world \<Rightarrow> buf_world" where
  "sb_release q s = (case q of
       None \<Rightarrow> s
     | Some p \<Rightarrow> s\<lparr>sb_heap := (sb_heap s)(p := Option.bind (sb_heap s p)
         (\<lambda>c. if str_uses c > 1 then Some (c\<lparr>str_uses := str_uses c - 1\<rparr>) else None))\<rparr>)"

definition sb_object :: "nat \<Rightarrow> (buf_world, shared_buffer) em" where
  "sb_object x = (\<lambda>s. case sb_vars s x of None \<Rightarrow> lifetime_error s | Some b \<Rightarrow> (Inr b, s))"

text \<open>The string a \<open>shared_ptr\<close> points at; it must still be there.\<close>

definition sb_load :: "shared_buffer \<Rightarrow> (buf_world, byte list option) em" where
  "sb_load b = (\<lambda>s. case sb_ptr b of
       None \<Rightarrow> (Inr None, s)
     | Some p \<Rightarrow> (case sb_heap s p of
           None \<Rightarrow> throwM (Undefined_behaviour ''dangling pointer'') s
         | Some c \<Rightarrow> (Inr (Some (str_text c)), s)))"

section \<open>Members\<close>

definition sb_declare :: "nat \<Rightarrow> (buf_world \<Rightarrow> shared_buffer \<times> buf_world) \<Rightarrow> (buf_world, unit) em" where
  "sb_declare y mk = (\<lambda>s. if sb_vars s y \<noteq> None then lifetime_error s
     else case mk s of (b, s') \<Rightarrow> (Inr (), s'\<lparr>sb_vars := (sb_vars s')(y \<mapsto> b)\<rparr>))"

text \<open>\<open>Buffer y\<close>, \<open>Buffer y(std::move(str))\<close>.\<close>

definition sb_default :: "nat \<Rightarrow> (buf_world, unit) em" where
  "sb_default y = sb_declare y (\<lambda>s. (\<lparr>sb_ptr = None, sb_offset = 0\<rparr>, s))"

definition sb_of_string :: "nat \<Rightarrow> byte list \<Rightarrow> (buf_world, unit) em" where
  "sb_of_string y str = sb_declare y (\<lambda>s. (\<lparr>sb_ptr = Some (sb_next s), sb_offset = 0\<rparr>,
     s\<lparr>sb_heap := (sb_heap s)(sb_next s \<mapsto> \<lparr>str_text = str, str_uses = 1\<rparr>), sb_next := Suc (sb_next s)\<rparr>))"

text \<open>The implicit members: copy and move construction, copy and move assignment, the destructor. A move takes
  the pointer and copies the offset; what the target held goes last.\<close>

definition sb_copy :: "nat \<Rightarrow> nat \<Rightarrow> (buf_world, unit) em" where
  "sb_copy y x = bindM (sb_object x) (\<lambda>b. sb_declare y (\<lambda>s. (b, sb_acquire (sb_ptr b) s)))"

definition sb_move :: "nat \<Rightarrow> nat \<Rightarrow> (buf_world, unit) em" where
  "sb_move y x = bindM (sb_object x) (\<lambda>b. sb_declare y (\<lambda>s. (b, s\<lparr>sb_vars := (sb_vars s)(x \<mapsto> b\<lparr>sb_ptr := None\<rparr>)\<rparr>)))"

definition sb_copy_assign :: "nat \<Rightarrow> nat \<Rightarrow> (buf_world, unit) em" where
  "sb_copy_assign y x = bindM (sb_object x) (\<lambda>b. bindM (sb_object y) (\<lambda>old. modifyM (\<lambda>s.
     sb_release (sb_ptr old) ((sb_acquire (sb_ptr b) s)\<lparr>sb_vars := (sb_vars s)(y \<mapsto> b)\<rparr>))))"

definition sb_move_assign :: "nat \<Rightarrow> nat \<Rightarrow> (buf_world, unit) em" where
  "sb_move_assign y x = bindM (sb_object x) (\<lambda>b. bindM (sb_object y) (\<lambda>_. modifyM (\<lambda>s.
     let V = (sb_vars s)(x \<mapsto> b\<lparr>sb_ptr := None\<rparr>) in
     sb_release (Option.bind (V y) sb_ptr) (s\<lparr>sb_vars := V(y \<mapsto> b)\<rparr>))))"

definition sb_destroy :: "nat \<Rightarrow> (buf_world, unit) em" where
  "sb_destroy x = bindM (sb_object x) (\<lambda>b. modifyM (\<lambda>s. sb_release (sb_ptr b) (s\<lparr>sb_vars := (sb_vars s)(x := None)\<rparr>)))"

definition sb_str :: "nat \<Rightarrow> (buf_world, byte list) em" where
  "sb_str x = bindM (sb_object x) (\<lambda>b. bindM (sb_load b) (\<lambda>t. returnM (case t of
       None \<Rightarrow> []
     | Some s \<Rightarrow> substring_view s (sb_offset b) (size_of s - sb_offset b))))"

definition sb_remove_prefix :: "nat \<Rightarrow> size_t \<Rightarrow> (buf_world, unit) em" where
  "sb_remove_prefix x n = bindM (sb_str x) (\<lambda>str.
     if n > size_of str then throwM (Out_of_range ''Buffer::remove_prefix'')
     else bindM (sb_object x) (\<lambda>b. let b = b\<lparr>sb_offset := sb_offset b + n\<rparr> in
       seqM (modifyM (\<lambda>s. s\<lparr>sb_vars := (sb_vars s)(x \<mapsto> b)\<rparr>))
         (bindM (sb_load b) (\<lambda>t. whenM (t \<noteq> None \<and> sb_offset b = size_of (the t))
           (modifyM (\<lambda>s. sb_release (sb_ptr b) (s\<lparr>sb_vars := (sb_vars s)(x \<mapsto> b\<lparr>sb_ptr := None\<rparr>)\<rparr>)))))))"

section \<open>Programs\<close>

datatype buf_op =
    Buf_default nat
  | Buf_string nat "byte list"
  | Buf_copy nat nat
  | Buf_move nat nat
  | Buf_copy_assign nat nat
  | Buf_move_assign nat nat
  | Buf_destroy nat
  | Buf_remove nat size_t
  | Buf_str nat

fun sb_exec :: "buf_op \<Rightarrow> (buf_world, byte list) em" where
  "sb_exec (Buf_default y) = seqM (sb_default y) (returnM [])"
| "sb_exec (Buf_string y str) = seqM (sb_of_string y str) (returnM [])"
| "sb_exec (Buf_copy y x) = seqM (sb_copy y x) (returnM [])"
| "sb_exec (Buf_move y x) = seqM (sb_move y x) (returnM [])"
| "sb_exec (Buf_copy_assign y x) = seqM (sb_copy_assign y x) (returnM [])"
| "sb_exec (Buf_move_assign y x) = seqM (sb_move_assign y x) (returnM [])"
| "sb_exec (Buf_destroy x) = seqM (sb_destroy x) (returnM [])"
| "sb_exec (Buf_remove x n) = seqM (sb_remove_prefix x n) (returnM [])"
| "sb_exec (Buf_str x) = sb_str x"

text \<open>The same program over plain values, where a copy is a copy.\<close>

type_synonym buf_vals = "nat \<rightharpoonup> buffer"

definition val_object :: "nat \<Rightarrow> (buf_vals, buffer) em" where
  "val_object x = (\<lambda>V. case V x of None \<Rightarrow> lifetime_error V | Some b \<Rightarrow> (Inr b, V))"

definition val_declare :: "nat \<Rightarrow> buffer \<Rightarrow> (buf_vals, unit) em" where
  "val_declare y b = (\<lambda>V. if V y \<noteq> None then lifetime_error V else (Inr (), V(y \<mapsto> b)))"

fun val_exec :: "buf_op \<Rightarrow> (buf_vals, byte list) em" where
  "val_exec (Buf_default y) = seqM (val_declare y buf_default) (returnM [])"
| "val_exec (Buf_string y str) = seqM (val_declare y (buf_of_string str)) (returnM [])"
| "val_exec (Buf_copy y x) = bindM (val_object x) (\<lambda>b. seqM (val_declare y b) (returnM []))"
| "val_exec (Buf_move y x) = bindM (val_object x) (\<lambda>b. seqM (val_declare y b)
     (seqM (modifyM (\<lambda>V. V(x \<mapsto> b\<lparr>storage := None\<rparr>))) (returnM [])))"
| "val_exec (Buf_copy_assign y x) = bindM (val_object x) (\<lambda>b. seqM (val_object y) (seqM (modifyM (\<lambda>V. V(y \<mapsto> b))) (returnM [])))"
| "val_exec (Buf_move_assign y x) = bindM (val_object x) (\<lambda>b. seqM (val_object y)
     (seqM (modifyM (\<lambda>V. V(x \<mapsto> b\<lparr>storage := None\<rparr>, y \<mapsto> b))) (returnM [])))"
| "val_exec (Buf_destroy x) = seqM (val_object x) (seqM (modifyM (\<lambda>V. V(x := None))) (returnM []))"
| "val_exec (Buf_remove x n) = bindM (val_object x) (\<lambda>b V. case buf_remove_prefix n b of
       (Inl e, b') \<Rightarrow> (Inl e, V(x \<mapsto> b'))
     | (Inr _, b') \<Rightarrow> (Inr [], V(x \<mapsto> b')))"
| "val_exec (Buf_str x) = bindM (val_object x) (\<lambda>b. returnM (buf_str b))"

text \<open>A program that catches what its calls throw and goes on, with the outcome of every call.\<close>

fun attempts :: "('op \<Rightarrow> ('s, 'r) em) \<Rightarrow> 'op list \<Rightarrow> 's \<Rightarrow> 'r result list \<times> 's" where
  "attempts exec [] s = ([], s)"
| "attempts exec (op # ops) s = (case exec op s of (r, s1) \<Rightarrow> case attempts exec ops s1 of (rs, s') \<Rightarrow> (r # rs, s'))"

text \<open>An object whose every operation does to the state, seen through \<open>view\<close>, what an abstract operation does, with the
  same outcome, is the abstract object for every program.\<close>

locale viewed_system =
  fixes exec :: "'op \<Rightarrow> ('s, 'r) em"
    and spec :: "'op \<Rightarrow> ('t, 'r) em"
    and invar :: "'s \<Rightarrow> bool"
    and view :: "'s \<Rightarrow> 't"
  assumes exec_viewed: "invar s \<Longrightarrow> exec op s = (r, s') \<Longrightarrow> invar s' \<and> spec op (view s) = (r, view s')"
begin

lemma attempts_viewed: "invar s \<Longrightarrow> attempts exec ops s = (rs, s') \<Longrightarrow> invar s' \<and> attempts spec ops (view s) = (rs, view s')"
proof (induction ops arbitrary: s rs)
  case (Cons op ops)
  obtain r s1 where r: "exec op s = (r, s1)" by fastforce
  obtain qs s2 where qs: "attempts exec ops s1 = (qs, s2)" by fastforce
  have "invar s1" "spec op (view s) = (r, view s1)" using exec_viewed [OF Cons.prems(1) r] by simp_all
  moreover have "rs = r # qs" "s' = s2" using Cons.prems(2) r qs by simp_all
  ultimately show ?case using Cons.IH [of s1 qs] qs by simp
qed simp

end

section \<open>Counting owners\<close>

definition points :: "nat option \<Rightarrow> nat \<Rightarrow> nat" where
  "points q p = (if q = Some p then 1 else 0)"

definition holds :: "shared_buffer option \<Rightarrow> nat \<Rightarrow> nat" where
  "holds v = points (Option.bind v sb_ptr)"

definition sb_owners :: "(nat \<rightharpoonup> shared_buffer) \<Rightarrow> nat \<Rightarrow> nat" where
  "sb_owners V p = card {x. holds (V x) p = 1}"

definition sb_uses :: "buf_world \<Rightarrow> nat \<Rightarrow> nat" where
  "sb_uses s p = (case sb_heap s p of None \<Rightarrow> 0 | Some c \<Rightarrow> str_uses c)"

text \<open>The strings of the store, all with owners; \<open>U\<close> gives their numbers.\<close>

definition counted :: "(nat \<Rightarrow> nat) \<Rightarrow> buf_world \<Rightarrow> bool" where
  "counted U s \<longleftrightarrow> sb_uses s = U \<and> (\<forall>p c. sb_heap s p = Some c \<longrightarrow> 0 < str_uses c \<and> p < sb_next s)"

definition sb_inv :: "buf_world \<Rightarrow> bool" where
  "sb_inv s \<longleftrightarrow> finite (dom (sb_vars s)) \<and> counted (sb_owners (sb_vars s)) s"

lemma sb_invD: "sb_inv s \<Longrightarrow> finite (dom (sb_vars s))" "sb_inv s \<Longrightarrow> counted (sb_owners (sb_vars s)) s"
  by (simp_all add: sb_inv_def)

lemma points_simps [simp]: "points None p = 0" "points (Some p) p = 1" "q \<noteq> p \<Longrightarrow> points (Some q) p = 0"
  by (simp_all add: points_def)

lemma holds_simps [simp]: "holds None p = 0" "holds (Some b) p = points (sb_ptr b) p"
  by (simp_all add: holds_def)

lemma finite_owners: "finite (dom V) \<Longrightarrow> finite {x. holds (V x) p = 1}"
  by (rule finite_subset [of _ "dom V"]) (auto simp: holds_def points_def bind_eq_Some_conv split: if_splits)

lemma sb_owners_upd:
  assumes "finite (dom V)"
  shows "sb_owners (V(x := v)) p + holds (V x) p = sb_owners V p + holds v p"
proof -
  let ?S = "{y. y \<noteq> x \<and> holds (V y) p = 1}"
  have fin: "finite ?S" using finite_owners [OF assms, of p] by (rule rev_finite_subset) auto
  have count: "card {y. holds (W y) p = 1} = card ?S + holds (W x) p" if "\<forall>y. y \<noteq> x \<longrightarrow> W y = V y" for W
  proof (cases "holds (W x) p = 1")
    case True
    then have "{y. holds (W y) p = 1} = insert x ?S" using that by auto
    with True fin show ?thesis by simp
  next
    case False
    then have "{y. holds (W y) p = 1} = ?S" "holds (W x) p = 0"
      using that by (auto simp: holds_def points_def split: if_splits)
    then show ?thesis by simp
  qed
  show ?thesis
    using count [of V] count [of "V(x := v)"] by (simp add: sb_owners_def)
qed

lemma sb_owners_live: "finite (dom V) \<Longrightarrow> 0 < sb_owners V p \<longleftrightarrow> (\<exists>x b. V x = Some b \<and> sb_ptr b = Some p)"
  unfolding sb_owners_def using finite_owners [of V p]
  by (auto simp: card_gt_0_iff holds_def points_def bind_eq_Some_conv split: if_splits)

lemma counted_live: "counted U s \<Longrightarrow> sb_heap s p \<noteq> None \<longleftrightarrow> 0 < U p"
  by (auto simp: counted_def sb_uses_def fun_eq_iff split: option.splits)

lemma counted_acquire:
  "counted U s \<Longrightarrow> (\<And>p. q = Some p \<Longrightarrow> 0 < U p) \<Longrightarrow> counted (\<lambda>p. U p + points q p) (sb_acquire q s)"
  by (cases q) (auto simp: counted_def sb_acquire_def sb_uses_def points_def fun_eq_iff split: option.splits)

lemma counted_release:
  assumes "counted U s"
  shows "counted (\<lambda>p. U p - points q p) (sb_release q s)"
proof (cases q)
  case None
  with assms show ?thesis by (simp add: sb_release_def)
next
  case (Some a)
  have U: "U p = (case sb_heap s p of None \<Rightarrow> 0 | Some c \<Rightarrow> str_uses c)" for p
    using assms by (auto simp: counted_def sb_uses_def)
  show ?thesis
    using assms Some by (cases "sb_heap s a") (auto simp: counted_def sb_release_def sb_uses_def points_def fun_eq_iff U split: if_splits)
qed

lemma counted_vars [simp]: "counted U (s\<lparr>sb_vars := V\<rparr>) \<longleftrightarrow> counted U s"
  by (simp add: counted_def sb_uses_def fun_eq_iff)

lemma sb_heap_vars [simp]:
  "sb_vars (sb_acquire q s) = sb_vars s" "sb_vars (sb_release q s) = sb_vars s"
  by (simp_all add: sb_acquire_def sb_release_def split: option.splits)

lemma sb_inv_live: "sb_inv s \<Longrightarrow> sb_vars s x = Some b \<Longrightarrow> sb_ptr b = Some p \<Longrightarrow> 0 < sb_owners (sb_vars s) p \<and> (\<exists>c. sb_heap s p = Some c)"
  unfolding sb_inv_def using sb_owners_live counted_live by blast

section \<open>Refinement\<close>

definition sb_view :: "(nat \<rightharpoonup> shared_string) \<Rightarrow> shared_buffer \<Rightarrow> buffer" where
  "sb_view H b = \<lparr>storage = Option.bind (sb_ptr b) (\<lambda>p. map_option str_text (H p)), starting_offset = sb_offset b\<rparr>"

definition sb_abs :: "buf_world \<Rightarrow> buf_vals" where
  "sb_abs s = (\<lambda>x. map_option (sb_view (sb_heap s)) (sb_vars s x))"

text \<open>What is left of the store has the texts it had.\<close>

definition same_text :: "(nat \<rightharpoonup> shared_string) \<Rightarrow> (nat \<rightharpoonup> shared_string) \<Rightarrow> bool" where
  "same_text H H' \<longleftrightarrow> (\<forall>p c'. H' p = Some c' \<longrightarrow> map_option str_text (H p) = Some (str_text c'))"

lemma same_text_simps [simp]:
  "same_text H H" "same_text H (sb_heap s) \<Longrightarrow> same_text H (sb_heap (sb_acquire q s))"
  "same_text H (sb_heap s) \<Longrightarrow> same_text H (sb_heap (sb_release q s))"
  by (auto simp: same_text_def sb_acquire_def sb_release_def bind_eq_Some_conv split: option.splits if_splits)

lemma sb_abs_same:
  assumes "sb_inv s'" and "same_text H (sb_heap s')"
  shows "sb_abs s' = (\<lambda>x. map_option (sb_view H) (sb_vars s' x))"
proof
  fix x
  have texts: "map_option str_text (sb_heap s' p) = map_option str_text (H p)" if "sb_heap s' p = Some c" for p c
    using assms(2) that unfolding same_text_def by fastforce
  have "sb_view (sb_heap s') b = sb_view H b" if "sb_vars s' x = Some b" for b
    using sb_inv_live [OF assms(1) that] texts by (cases "sb_ptr b") (auto simp: sb_view_def)
  then show "sb_abs s' x = map_option (sb_view H) (sb_vars s' x)"
    by (cases "sb_vars s' x") (simp_all add: sb_abs_def)
qed

definition refined :: "buf_op \<Rightarrow> bool" where
  "refined op \<longleftrightarrow> (\<forall>s. sb_inv s \<longrightarrow> (case sb_exec op s of (r, s') \<Rightarrow> sb_inv s' \<and> val_exec op (sb_abs s) = (r, sb_abs s')))"

lemma refinedI:
  "(\<And>s. sb_inv s \<Longrightarrow> \<exists>r s'. sb_exec op s = (r, s') \<and> sb_inv s' \<and> val_exec op (sb_abs s) = (r, sb_abs s')) \<Longrightarrow> refined op"
  unfolding refined_def by fastforce

lemmas sb_simps = em_simps lifetime_error_def sb_declare_def sb_object_def val_object_def val_declare_def

lemma sb_abs_eq [simp]: "sb_abs s x = None \<longleftrightarrow> sb_vars s x = None"
  by (simp add: sb_abs_def)

lemma sb_abs_None: "sb_vars s x = None \<Longrightarrow> sb_abs s x = None"
  by simp

lemma sb_abs_Some: "sb_vars s x = Some b \<Longrightarrow> sb_abs s x = Some (sb_view (sb_heap s) b)"
  by (simp add: sb_abs_def)

lemma sb_view_offset [simp]: "starting_offset (sb_view H b) = sb_offset b"
  "storage (sb_view H (b\<lparr>sb_offset := off\<rparr>)) = storage (sb_view H b)"
  by (simp_all add: sb_view_def)

lemma sb_view_null: "sb_view H (b\<lparr>sb_ptr := None\<rparr>) = (sb_view H b)\<lparr>storage := None\<rparr>"
  by (simp add: sb_view_def)

text \<open>A step that gives variables new values, takes owners and gives up others.\<close>

lemma sb_step:
  assumes "counted (sb_owners V) s'" and "finite (dom V)" and "sb_vars s' = V" and "same_text (sb_heap s) (sb_heap s')"
  shows "sb_inv s'" and "sb_abs s' = (\<lambda>x. map_option (sb_view (sb_heap s)) (V x))"
proof -
  show inv: "sb_inv s'" using assms by (simp add: sb_inv_def)
  show "sb_abs s' = (\<lambda>x. map_option (sb_view (sb_heap s)) (V x))"
    using sb_abs_same [OF inv assms(4)] assms(3) by simp
qed

lemma sb_give_up:
  assumes inv: "sb_inv s" and b: "sb_vars s x = Some b" and v: "\<And>b'. v = Some b' \<Longrightarrow> sb_ptr b' = None"
  shows "sb_inv (sb_release (sb_ptr b) (s\<lparr>sb_vars := (sb_vars s)(x := v)\<rparr>))"
    and "sb_abs (sb_release (sb_ptr b) (s\<lparr>sb_vars := (sb_vars s)(x := v)\<rparr>)) =
      (\<lambda>y. map_option (sb_view (sb_heap s)) (((sb_vars s)(x := v)) y))"
proof -
  let ?V = "(sb_vars s)(x := v)"
  note fin = sb_invD(1) [OF inv] and count = sb_invD(2) [OF inv]
  have "holds v p = 0" for p using v by (cases v) auto
  then have "sb_owners ?V p = sb_owners (sb_vars s) p - points (sb_ptr b) p" for p
    using sb_owners_upd [OF fin, of x v p] b by simp
  then have "sb_owners ?V = (\<lambda>p. sb_owners (sb_vars s) p - points (sb_ptr b) p)" by (rule ext)
  then have "counted (sb_owners ?V) (sb_release (sb_ptr b) (s\<lparr>sb_vars := ?V\<rparr>))"
    using counted_release [of "sb_owners (sb_vars s)" "s\<lparr>sb_vars := ?V\<rparr>" "sb_ptr b"] count by simp
  note step = sb_step [OF this, of s]
  show "sb_inv (sb_release (sb_ptr b) (s\<lparr>sb_vars := ?V\<rparr>))" using step(1) fin by simp
  show "sb_abs (sb_release (sb_ptr b) (s\<lparr>sb_vars := ?V\<rparr>)) = (\<lambda>y. map_option (sb_view (sb_heap s)) (?V y))"
    using step(2) fin by simp
qed

lemma sb_inv_offset:
  assumes "sb_inv s" and "sb_vars s x = Some b"
  shows "sb_inv (s\<lparr>sb_vars := (sb_vars s)(x \<mapsto> b\<lparr>sb_offset := off\<rparr>)\<rparr>)"
proof -
  have "sb_owners ((sb_vars s)(x \<mapsto> b\<lparr>sb_offset := off\<rparr>)) = sb_owners (sb_vars s)"
    using sb_owners_upd [of "sb_vars s" x "Some (b\<lparr>sb_offset := off\<rparr>)"] assms by (auto simp: sb_inv_def)
  with assms show ?thesis by (simp add: sb_inv_def)
qed

text \<open>No pointer of a live object dangles.\<close>

lemma sb_load_run: "sb_inv s \<Longrightarrow> sb_vars s x = Some b \<Longrightarrow> sb_load b s = (Inr (storage (sb_view (sb_heap s) b)), s)"
  using sb_inv_live [of s x b] by (cases "sb_ptr b") (auto simp: sb_load_def sb_view_def)

lemma sb_str_run: "sb_inv s \<Longrightarrow> sb_vars s x = Some b \<Longrightarrow> sb_str x s = (Inr (buf_str (sb_view (sb_heap s) b)), s)"
  by (simp add: sb_str_def sb_simps sb_load_run buf_str_def cong: option.case_cong)

lemma refined_default: "refined (Buf_default y)"
proof (rule refinedI)
  fix s
  assume inv: "sb_inv s"
  let ?V = "(sb_vars s)(y \<mapsto> \<lparr>sb_ptr = None, sb_offset = 0\<rparr>)"
  have "sb_owners ?V = sb_owners (sb_vars s)" if "sb_vars s y = None"
    using sb_owners_upd [of "sb_vars s" y "Some \<lparr>sb_ptr = None, sb_offset = 0\<rparr>"] inv that by (simp add: sb_inv_def fun_eq_iff)
  then show "\<exists>r s'. sb_exec (Buf_default y) s = (r, s') \<and> sb_inv s' \<and> val_exec (Buf_default y) (sb_abs s) = (r, sb_abs s')"
    using inv by (auto simp: sb_simps sb_default_def sb_inv_def sb_abs_def sb_view_def buf_default_def map_upd_Some_unfold intro!: ext)
qed

lemma refined_string: "refined (Buf_string y str)"
proof (rule refinedI)
  fix s
  assume inv: "sb_inv s"
  let ?p = "sb_next s" and ?b = "\<lparr>sb_ptr = Some (sb_next s), sb_offset = 0\<rparr>"
  let ?V = "(sb_vars s)(y \<mapsto> ?b)" and ?H = "(sb_heap s)(?p \<mapsto> \<lparr>str_text = str, str_uses = 1\<rparr>)"
  let ?s = "s\<lparr>sb_heap := ?H, sb_next := Suc ?p, sb_vars := ?V\<rparr>"
  show "\<exists>r s'. sb_exec (Buf_string y str) s = (r, s') \<and> sb_inv s' \<and> val_exec (Buf_string y str) (sb_abs s) = (r, sb_abs s')"
  proof (cases "sb_vars s y")
    case None
    note fin = sb_invD(1) [OF inv] and count = sb_invD(2) [OF inv]
    have fresh: "sb_heap s ?p = None" using count unfolding counted_def by (metis less_irrefl option.exhaust)
    then have "sb_owners (sb_vars s) ?p = 0" using counted_live [OF count, of ?p] by simp
    then have "sb_owners ?V = (sb_owners (sb_vars s))(?p := 1)"
      using sb_owners_upd [OF fin, of y "Some ?b"] None by (auto simp: fun_eq_iff points_def)
    moreover have "counted ((sb_owners (sb_vars s))(?p := 1)) ?s"
      using count by (auto simp: counted_def sb_uses_def fun_eq_iff less_Suc_eq)
    ultimately have "sb_inv ?s" using fin by (simp add: sb_inv_def)
    moreover have "sb_view ?H b = sb_view (sb_heap s) b" if "sb_vars s x = Some b" for x b
      using sb_inv_live [OF inv that] fresh by (cases "sb_ptr b") (auto simp: sb_view_def)
    then have "sb_abs ?s = (sb_abs s)(y \<mapsto> buf_of_string str)"
      by (auto simp: sb_abs_def fun_eq_iff sb_view_def buf_of_string_def intro: option.map_cong)
    ultimately show ?thesis
      using None by (simp add: sb_simps sb_of_string_def)
  next
    case (Some b)
    then show ?thesis using inv by (simp add: sb_simps sb_of_string_def sb_abs_Some)
  qed
qed

lemma refined_copy: "refined (Buf_copy y x)"
proof (rule refinedI)
  fix s
  assume inv: "sb_inv s"
  show "\<exists>r s'. sb_exec (Buf_copy y x) s = (r, s') \<and> sb_inv s' \<and> val_exec (Buf_copy y x) (sb_abs s) = (r, sb_abs s')"
  proof (cases "sb_vars s x = None \<or> sb_vars s y \<noteq> None")
    case True
    then show ?thesis using inv by (cases "sb_vars s x") (auto simp: sb_simps sb_copy_def sb_abs_def)
  next
    case False
    then obtain b where b: "sb_vars s x = Some b" "sb_vars s y = None" by auto
    let ?V = "(sb_vars s)(y \<mapsto> b)" and ?s = "(sb_acquire (sb_ptr b) s)\<lparr>sb_vars := (sb_vars s)(y \<mapsto> b)\<rparr>"
    note fin = sb_invD(1) [OF inv] and count = sb_invD(2) [OF inv]
    have "sb_owners ?V = (\<lambda>p. sb_owners (sb_vars s) p + points (sb_ptr b) p)"
      using sb_owners_upd [OF fin, of y "Some b"] b(2) by auto
    moreover have "counted (\<lambda>p. sb_owners (sb_vars s) p + points (sb_ptr b) p) ?s"
      using counted_acquire [OF count] sb_inv_live [OF inv b(1)] by simp
    ultimately have "counted (sb_owners ?V) ?s" by simp
    note step = sb_step [OF this, of s]
    have "sb_abs ?s = (sb_abs s)(y \<mapsto> sb_view (sb_heap s) b)"
      using step(2) fin by (auto simp: sb_abs_def)
    with step(1) fin b show ?thesis
      by (simp add: sb_simps sb_copy_def sb_abs_Some)
  qed
qed

lemma refined_move: "refined (Buf_move y x)"
proof (rule refinedI)
  fix s
  assume inv: "sb_inv s"
  show "\<exists>r s'. sb_exec (Buf_move y x) s = (r, s') \<and> sb_inv s' \<and> val_exec (Buf_move y x) (sb_abs s) = (r, sb_abs s')"
  proof (cases "sb_vars s x = None \<or> sb_vars s y \<noteq> None")
    case True
    then show ?thesis using inv by (cases "sb_vars s x") (auto simp: sb_simps sb_move_def sb_abs_def)
  next
    case False
    then obtain b where b: "sb_vars s x = Some b" "sb_vars s y = None" by auto
    then have "x \<noteq> y" by auto
    note b = b this
    let ?W = "(sb_vars s)(x \<mapsto> b\<lparr>sb_ptr := None\<rparr>)"
    let ?V = "?W(y \<mapsto> b)" and ?s = "s\<lparr>sb_vars := ?W(y \<mapsto> b)\<rparr>"
    note fin = sb_invD(1) [OF inv] and count = sb_invD(2) [OF inv]
    have "sb_owners ?V p = sb_owners (sb_vars s) p" for p
      using sb_owners_upd [OF fin, of x "Some (b\<lparr>sb_ptr := None\<rparr>)" p] sb_owners_upd [of ?W y "Some b" p] fin b by simp
    then have "sb_owners ?V = sb_owners (sb_vars s)" by (rule ext)
    then have "counted (sb_owners ?V) ?s" using count by simp
    note step = sb_step [OF this, of s]
    have "sb_abs ?s = (sb_abs s)(y \<mapsto> sb_view (sb_heap s) b, x \<mapsto> (sb_view (sb_heap s) b)\<lparr>storage := None\<rparr>)"
      using step(2) fin b by (auto simp: sb_abs_def sb_view_null)
    with step(1) fin b show ?thesis
      by (simp add: sb_simps sb_move_def sb_abs_Some)
  qed
qed

lemma refined_copy_assign: "refined (Buf_copy_assign y x)"
proof (rule refinedI)
  fix s
  assume inv: "sb_inv s"
  show "\<exists>r s'. sb_exec (Buf_copy_assign y x) s = (r, s') \<and> sb_inv s' \<and> val_exec (Buf_copy_assign y x) (sb_abs s) = (r, sb_abs s')"
  proof (cases "sb_vars s x = None \<or> sb_vars s y = None")
    case True
    then show ?thesis using inv by (cases "sb_vars s x") (auto simp: sb_simps sb_copy_assign_def sb_abs_def)
  next
    case False
    then obtain b old where b: "sb_vars s x = Some b" "sb_vars s y = Some old" by auto
    let ?V = "(sb_vars s)(y \<mapsto> b)"
    let ?s = "sb_release (sb_ptr old) ((sb_acquire (sb_ptr b) s)\<lparr>sb_vars := ?V\<rparr>)"
    note fin = sb_invD(1) [OF inv] and count = sb_invD(2) [OF inv]
    have "sb_owners ?V p = sb_owners (sb_vars s) p + points (sb_ptr b) p - points (sb_ptr old) p" for p
      using sb_owners_upd [OF fin, of y "Some b" p] b(2) by simp
    then have "sb_owners ?V = (\<lambda>p. sb_owners (sb_vars s) p + points (sb_ptr b) p - points (sb_ptr old) p)" by (rule ext)
    moreover have "counted (\<lambda>p. sb_owners (sb_vars s) p + points (sb_ptr b) p) ((sb_acquire (sb_ptr b) s)\<lparr>sb_vars := ?V\<rparr>)"
      using counted_acquire [OF count] sb_inv_live [OF inv b(1)] by simp
    ultimately have "counted (sb_owners ?V) ?s" using counted_release by simp
    note step = sb_step [OF this, of s]
    have "sb_abs ?s = (sb_abs s)(y \<mapsto> sb_view (sb_heap s) b)"
      using step(2) fin by (auto simp: sb_abs_def)
    with step(1) fin b show ?thesis
      by (simp add: sb_simps sb_copy_assign_def sb_abs_Some)
  qed
qed

lemma refined_move_assign: "refined (Buf_move_assign y x)"
proof (rule refinedI)
  fix s
  assume inv: "sb_inv s"
  show "\<exists>r s'. sb_exec (Buf_move_assign y x) s = (r, s') \<and> sb_inv s' \<and> val_exec (Buf_move_assign y x) (sb_abs s) = (r, sb_abs s')"
  proof (cases "sb_vars s x = None \<or> sb_vars s y = None")
    case True
    then show ?thesis using inv by (cases "sb_vars s x") (auto simp: sb_simps sb_move_assign_def sb_abs_def)
  next
    case False
    then obtain b where b: "sb_vars s x = Some b" "sb_vars s y \<noteq> None" by auto
    let ?W = "(sb_vars s)(x \<mapsto> b\<lparr>sb_ptr := None\<rparr>)"
    let ?V = "?W(y \<mapsto> b)" and ?q = "Option.bind (?W y) sb_ptr"
    let ?s = "sb_release ?q (s\<lparr>sb_vars := ?V\<rparr>)"
    note fin = sb_invD(1) [OF inv] and count = sb_invD(2) [OF inv]
    have "holds (?W y) p = points ?q p" for p by (simp add: holds_def)
    then have "sb_owners ?V p = sb_owners (sb_vars s) p - points ?q p" for p
      using sb_owners_upd [OF fin, of x "Some (b\<lparr>sb_ptr := None\<rparr>)" p] sb_owners_upd [of ?W y "Some b" p] fin b(1) by simp
    then have "sb_owners ?V = (\<lambda>p. sb_owners (sb_vars s) p - points ?q p)" by (rule ext)
    then have "counted (sb_owners ?V) ?s"
      using counted_release [of "sb_owners (sb_vars s)" "s\<lparr>sb_vars := ?V\<rparr>" ?q] count by simp
    note step = sb_step [OF this, of s]
    have "sb_abs ?s = (sb_abs s)(x \<mapsto> (sb_view (sb_heap s) b)\<lparr>storage := None\<rparr>, y \<mapsto> sb_view (sb_heap s) b)"
      using step(2) fin by (auto simp: sb_abs_def sb_view_null)
    with step(1) fin b show ?thesis
      by (auto simp: sb_simps sb_move_assign_def sb_abs_Some Let_def)
  qed
qed

lemma refined_destroy: "refined (Buf_destroy x)"
proof (rule refinedI)
  fix s
  assume inv: "sb_inv s"
  show "\<exists>r s'. sb_exec (Buf_destroy x) s = (r, s') \<and> sb_inv s' \<and> val_exec (Buf_destroy x) (sb_abs s) = (r, sb_abs s')"
  proof (cases "sb_vars s x")
    case None
    then show ?thesis using inv by (simp add: sb_simps sb_destroy_def sb_abs_None)
  next
    case (Some b)
    note gone = sb_give_up [OF inv Some, of None]
    have "sb_abs (sb_release (sb_ptr b) (s\<lparr>sb_vars := (sb_vars s)(x := None)\<rparr>)) = (sb_abs s)(x := None)"
      using gone(2) by (auto simp: sb_abs_def)
    with gone(1) Some show ?thesis
      by (simp add: sb_simps sb_destroy_def sb_abs_Some)
  qed
qed

lemma refined_str: "refined (Buf_str x)"
proof (rule refinedI)
  fix s
  assume inv: "sb_inv s"
  show "\<exists>r s'. sb_exec (Buf_str x) s = (r, s') \<and> sb_inv s' \<and> val_exec (Buf_str x) (sb_abs s) = (r, sb_abs s')"
  proof (cases "sb_vars s x")
    case None
    then show ?thesis using inv by (simp add: sb_simps sb_str_def sb_abs_None)
  next
    case (Some b)
    with inv show ?thesis by (simp add: sb_str_run sb_simps sb_abs_Some)
  qed
qed

lemma refined_remove: "refined (Buf_remove x n)"
proof (rule refinedI)
  fix s
  assume inv: "sb_inv s"
  show "\<exists>r s'. sb_exec (Buf_remove x n) s = (r, s') \<and> sb_inv s' \<and> val_exec (Buf_remove x n) (sb_abs s) = (r, sb_abs s')"
  proof (cases "sb_vars s x")
    case None
    then show ?thesis using inv by (simp add: sb_simps sb_remove_prefix_def sb_str_def sb_abs_None)
  next
    case b: (Some b)
    let ?v = "sb_view (sb_heap s) b" and ?b = "b\<lparr>sb_offset := sb_offset b + n\<rparr>"
    let ?s = "s\<lparr>sb_vars := (sb_vars s)(x \<mapsto> ?b)\<rparr>"
    have moved: "sb_inv ?s" "sb_abs ?s = (sb_abs s)(x \<mapsto> ?v\<lparr>starting_offset := sb_offset b + n\<rparr>)"
      using sb_inv_offset [OF inv b, of "sb_offset b + n"] by (auto simp: sb_abs_def sb_view_def)
    show ?thesis
    proof (cases "n > size_of (buf_str ?v)")
      case True
      have "(sb_abs s)(x \<mapsto> ?v) = sb_abs s" using b by (auto simp: sb_abs_def)
      with True b inv show ?thesis
        by (simp add: sb_simps sb_remove_prefix_def sb_str_run sb_abs_Some buf_remove_prefix_def Let_def)
    next
      case False
      show ?thesis
      proof (cases "storage ?v")
        case None
        then show ?thesis
          using False b inv moved sb_load_run [OF moved(1), of x ?b]
          by (simp add: sb_simps sb_remove_prefix_def sb_str_run sb_abs_Some buf_remove_prefix_def Let_def)
      next
        case str: (Some str)
        let ?d = "?b\<lparr>sb_ptr := None\<rparr>"
        note gone = sb_give_up [OF moved(1), of x ?b "Some ?d"]
        have load: "sb_load ?b ?s = (Inr (Some str), ?s)"
          using sb_load_run [OF moved(1), of x ?b] str by (simp add: sb_view_def)
        have "sb_abs (sb_release (sb_ptr b) (s\<lparr>sb_vars := (sb_vars s)(x \<mapsto> ?d)\<rparr>)) =
            (sb_abs s)(x \<mapsto> ?v\<lparr>starting_offset := sb_offset b + n, storage := None\<rparr>)"
          using gone(2) by (auto simp: sb_abs_def sb_view_def)
        with gone(1) load show ?thesis
          using False b inv moved str
          by (cases "sb_offset b + n = size_of str")
            (simp_all add: sb_simps sb_remove_prefix_def sb_str_run sb_abs_Some buf_remove_prefix_def Let_def)
      qed
    qed
  qed
qed

lemmas refined_intro = refined_default refined_string refined_copy refined_move refined_copy_assign refined_move_assign
  refined_destroy refined_remove refined_str

interpretation sb: viewed_system sb_exec val_exec sb_inv sb_abs
proof unfold_locales
  fix op s r s'
  assume "sb_inv s" and "sb_exec op s = (r, s')"
  moreover have "refined op" by (cases op) (simp_all only: refined_intro)
  ultimately show "sb_inv s' \<and> val_exec op (sb_abs s) = (r, sb_abs s')"
    by (fastforce simp: refined_def)
qed

lemma sb_start_inv [simp]: "sb_inv sb_start" "sb_abs sb_start = Map.empty"
  by (auto simp: sb_start_def sb_inv_def counted_def sb_uses_def sb_owners_def sb_abs_def holds_def points_def fun_eq_iff)

text \<open>C16. Sharing is not observable. Whatever \<open>Buffer\<close> objects a program constructs, copies, moves, assigns,
  shortens, reads and destroys, and whatever exceptions it survives, every call has the outcome
  it has when each object owns its string, and the objects end with the same contents.\<close>

theorem buffer_sharing_invisible:
  "(case attempts sb_exec ops sb_start of (rs, s) \<Rightarrow> attempts val_exec ops Map.empty = (rs, sb_abs s))"
proof -
  obtain rs s where run: "attempts sb_exec ops sb_start = (rs, s)" by fastforce
  then show ?thesis using sb.attempts_viewed [OF sb_start_inv(1) run] by simp
qed

section \<open>When a string is freed\<close>

definition string_fits :: "buf_op \<Rightarrow> bool" where
  "string_fits op = (case op of Buf_string y str \<Rightarrow> fits str | _ \<Rightarrow> True)"

text \<open>An object that is done with its string does not hold it.\<close>

definition buf_tidy :: "buffer \<Rightarrow> bool" where
  "buf_tidy b \<longleftrightarrow> buf_wf b \<and> (\<forall>str. storage b = Some str \<longrightarrow> buf_str b = [] \<longrightarrow> str = [])"

definition val_ok :: "buf_vals \<Rightarrow> bool" where
  "val_ok V \<longleftrightarrow> (\<forall>x b. V x = Some b \<longrightarrow> buf_tidy b)"

lemma buf_tidy_simps [simp]: "buf_tidy buf_default" "buf_tidy (b\<lparr>storage := None\<rparr>)" "fits str \<Longrightarrow> buf_tidy (buf_of_string str)"
  by (simp_all add: buf_tidy_def buf_default_def buf_wf_def buf_of_string_def)
    (simp add: buf_str_def substring_view_def)

lemma buf_tidy_remove:
  assumes "buf_tidy b" and "buf_remove_prefix n b = (r, b')"
  shows "buf_tidy b'"
proof (cases "unat n \<le> length (buf_str b)")
  case True
  have wf: "buf_wf b" using assms(1) by (simp add: buf_tidy_def)
  then have "r = Inr ()" "buf_wf b'" using buf_remove_prefix_ok [OF wf True] assms(2) by auto
  then show ?thesis using buf_remove_prefix_releases [OF wf, of n b'] assms(2) by (auto simp: buf_tidy_def)
next
  case False
  then show ?thesis using buf_remove_prefix_err [of b n] assms by (simp add: buf_tidy_def)
qed

lemma val_ok_upd: "val_ok V \<Longrightarrow> (\<And>b. v = Some b \<Longrightarrow> buf_tidy b) \<Longrightarrow> val_ok (V(x := v))"
  by (simp add: val_ok_def)

lemma val_okD: "val_ok V \<Longrightarrow> V x = Some b \<Longrightarrow> buf_tidy b"
  by (simp add: val_ok_def)

lemma val_ok_exec:
  assumes "val_ok V" and "string_fits op" and "val_exec op V = (r, V')"
  shows "val_ok V'"
proof (cases op)
  case (Buf_remove x n)
  then show ?thesis
    using assms(1,3) buf_tidy_remove [OF val_okD [OF assms(1)]]
    by (auto simp: sb_simps split: option.splits prod.splits sum.splits intro!: val_ok_upd)
qed (use assms in \<open>auto simp: sb_simps string_fits_def split: option.splits if_splits intro!: val_ok_upd dest: val_okD\<close>)

lemma val_ok_attempts:
  "val_ok V \<Longrightarrow> \<forall>op \<in> set ops. string_fits op \<Longrightarrow> attempts val_exec ops V = (rs, V') \<Longrightarrow> val_ok V'"
proof (induction ops arbitrary: V rs)
  case (Cons op ops)
  then show ?case by (auto split: prod.splits dest: val_ok_exec)
qed simp

text \<open>C17. A string is freed when all copies have discarded it. After any program, the strings in
  memory are exactly those that some live \<open>Buffer\<close> points at, the use count is the number of these
  objects, and each of them still has bytes of the string to show (unless the string is empty): an
  object that has discarded the whole string no longer keeps it.\<close>

theorem buffer_storage_lifetime:
  assumes "\<forall>op \<in> set ops. string_fits op" and "attempts sb_exec ops sb_start = (rs, s)"
  shows "(\<forall>p. sb_heap s p \<noteq> None \<longleftrightarrow> (\<exists>x b. sb_vars s x = Some b \<and> sb_ptr b = Some p)) \<and>
    (\<forall>p c. sb_heap s p = Some c \<longrightarrow> str_uses c = card {x. \<exists>b. sb_vars s x = Some b \<and> sb_ptr b = Some p} \<and>
       (\<forall>x b. sb_vars s x = Some b \<and> sb_ptr b = Some p \<longrightarrow> fst (sb_str x s) \<noteq> Inr [] \<or> str_text c = []))"
proof (intro conjI allI impI)
  have inv: "sb_inv s" and abs: "attempts val_exec ops Map.empty = (rs, sb_abs s)"
    using sb.attempts_viewed [OF sb_start_inv(1) assms(2)] by simp_all
  note fin = sb_invD(1) [OF inv] and count = sb_invD(2) [OF inv]
  fix p
  show "sb_heap s p \<noteq> None \<longleftrightarrow> (\<exists>x b. sb_vars s x = Some b \<and> sb_ptr b = Some p)"
    using counted_live [OF count] sb_owners_live [OF fin] by simp
  fix c
  assume c: "sb_heap s p = Some c"
  have "{x. holds (sb_vars s x) p = 1} = {x. \<exists>b. sb_vars s x = Some b \<and> sb_ptr b = Some p}"
    by (auto simp: holds_def points_def bind_eq_Some_conv split: if_splits)
  then show "str_uses c = card {x. \<exists>b. sb_vars s x = Some b \<and> sb_ptr b = Some p}"
    using count c by (auto simp: counted_def sb_uses_def sb_owners_def fun_eq_iff dest!: spec [of _ p])
  fix x b
  assume b: "sb_vars s x = Some b \<and> sb_ptr b = Some p"
  have "val_ok (sb_abs s)" by (rule val_ok_attempts [OF _ assms(1) abs]) (simp add: val_ok_def)
  then have "buf_tidy (sb_view (sb_heap s) b)" using b sb_abs_Some by (blast intro: val_okD)
  then show "fst (sb_str x s) \<noteq> Inr [] \<or> str_text c = []"
    using b c sb_str_run [OF inv, of x b] by (auto simp: buf_tidy_def sb_view_def)
qed

text \<open>A copy keeps the string alive when the original has discarded it.\<close>

theorem buffer_storage_lifetime_witness:
  "let ops = [Buf_string 0 [1, 2, 3], Buf_copy 1 0, Buf_remove 0 3, Buf_remove 1 1]; s = snd (attempts sb_exec ops sb_start) in
   sb_vars s 0 = Some \<lparr>sb_ptr = None, sb_offset = 3\<rparr> \<and> sb_vars s 1 = Some \<lparr>sb_ptr = Some 0, sb_offset = 1\<rparr> \<and>
   fst (sb_str 1 s) = Inr [2, 3] \<and> (\<exists>c. sb_heap s 0 = Some c \<and> str_uses c = card {x. \<exists>b. sb_vars s x = Some b \<and> sb_ptr b = Some 0})"
proof -
  let ?ops = "[Buf_string 0 [1, 2, 3], Buf_copy 1 0, Buf_remove 0 3, Buf_remove 1 1]"
  let ?s = "\<lparr>sb_heap = [0 \<mapsto> \<lparr>str_text = [1, 2, 3], str_uses = 1\<rparr>], sb_next = 1,
    sb_vars = [0 \<mapsto> \<lparr>sb_ptr = None, sb_offset = 3\<rparr>, 1 \<mapsto> \<lparr>sb_ptr = Some 0, sb_offset = 1\<rparr>]\<rparr>"
  have run: "attempts sb_exec ?ops sb_start = ([Inr [], Inr [], Inr [], Inr []], ?s)"
    by (simp add: sb_start_def sb_simps sb_of_string_def sb_copy_def sb_acquire_def sb_remove_prefix_def sb_str_def sb_load_def
        sb_release_def substring_view_def size_of_def Let_def fun_upd_twist)
  have str: "fst (sb_str 1 ?s) = Inr [2, 3]"
    by (simp add: sb_simps sb_str_def sb_load_def substring_view_def size_of_def)
  have "\<forall>op \<in> set ?ops. string_fits op" by (simp add: string_fits_def fits_def)
  from buffer_storage_lifetime [OF this run]
  have "\<forall>p c. sb_heap ?s p = Some c \<longrightarrow> str_uses c = card {x. \<exists>b. sb_vars ?s x = Some b \<and> sb_ptr b = Some p}" by blast
  moreover have "sb_heap ?s 0 = Some \<lparr>str_text = [1, 2, 3], str_uses = 1\<rparr>" by simp
  ultimately have alive: "\<exists>c. sb_heap ?s 0 = Some c \<and> str_uses c = card {x. \<exists>b. sb_vars ?s x = Some b \<and> sb_ptr b = Some 0}"
    by blast
  show ?thesis
    unfolding Let_def run snd_conv by (intro conjI str alive) simp_all
qed

end
