(* ===== verification/Net_Parser.thy ===== *)
theory Net_Parser
  imports Buffer
begin

text \<open>
  \<open>libsponge/util/parser.hh\<close> and \<open>parser.cc\<close>: \<open>NetParser\<close>, which reads big-endian integers off
  the front of a \<open>Buffer\<close> and records the first failure in \<open>_error\<close>, and \<open>NetUnparser\<close>,
  which appends them to a string. The templates \<open>_parse_int<T>\<close> and \<open>_unparse_int<T>\<close> are
  polymorphic in the word length; \<open>u8\<close>, \<open>u16\<close> and \<open>u32\<close> are their three instances, and each
  satisfies the codec contract \<open>int_codec\<close>. The example program of
  \<open>doctests/parser_example.cc\<close> is modelled at the end.
\<close>

section \<open>ParseResult\<close>

datatype parse_result =
  NoError | BadChecksum | PacketTooShort | WrongIPVersion | HeaderTooShort | TruncatedPacket

fun parse_result_code :: "parse_result \<Rightarrow> nat" where
  "parse_result_code NoError = 0"
| "parse_result_code BadChecksum = 1"
| "parse_result_code PacketTooShort = 2"
| "parse_result_code WrongIPVersion = 3"
| "parse_result_code HeaderTooShort = 4"
| "parse_result_code TruncatedPacket = 5"

lemma parse_result_code_inject [simp]: "parse_result_code a = parse_result_code b \<longleftrightarrow> a = b"
  by (cases a; cases b) auto

text \<open>An \<open>enum class\<close> is ordered by its underlying values.\<close>

instantiation parse_result :: linorder
begin

definition less_eq_parse_result :: "parse_result \<Rightarrow> parse_result \<Rightarrow> bool" where
  "less_eq_parse_result a b \<longleftrightarrow> parse_result_code a \<le> parse_result_code b"

definition less_parse_result :: "parse_result \<Rightarrow> parse_result \<Rightarrow> bool" where
  "less_parse_result a b \<longleftrightarrow> parse_result_code a < parse_result_code b"

instance
  by standard (auto simp: less_eq_parse_result_def less_parse_result_def)

end

definition parse_result_names :: "string list" where
  "parse_result_names = [''NoError'', ''BadChecksum'', ''PacketTooShort'', ''WrongIPVersion'',
     ''HeaderTooShort'', ''TruncatedPacket'']"

definition as_string :: "parse_result \<Rightarrow> string" where
  "as_string r = parse_result_names ! parse_result_code r"

section \<open>NetParser\<close>

record net_parser =
  np_buffer :: buffer
  np_error :: parse_result

definition np_make :: "buffer \<Rightarrow> net_parser" where
  "np_make b = \<lparr>np_buffer = b, np_error = NoError\<rparr>"

definition np_set_error :: "parse_result \<Rightarrow> net_parser \<Rightarrow> net_parser" where
  "np_set_error res p = p\<lparr>np_error := res\<rparr>"

definition np_has_error :: "net_parser \<Rightarrow> bool" where
  "np_has_error p \<longleftrightarrow> np_error p \<noteq> NoError"

definition check_size :: "size_t \<Rightarrow> net_parser \<Rightarrow> net_parser" where
  "check_size n p = (if n > buf_size (np_buffer p) then np_set_error PacketTooShort p else p)"

text \<open>The loop of \<open>_parse_int\<close> over the indices \<open>i\<close>; \<open>at(i)\<close> may throw.\<close>

fun parse_bytes :: "buffer \<Rightarrow> nat list \<Rightarrow> 'a::len word \<Rightarrow> 'a word result" where
  "parse_bytes b [] ret = Inr ret"
| "parse_bytes b (i # is) ret =
     (case buf_at b (of_nat i) of
        Inl e \<Rightarrow> Inl e
      | Inr c \<Rightarrow> parse_bytes b is (push_bit 8 ret + ucast c))"

definition parse_int :: "(net_parser, 'a::len word) em" where
  "parse_int = (\<lambda>p.
     let len = LENGTH('a) div 8;
         p = check_size (of_nat len) p
     in if np_has_error p then (Inr 0, p)
        else (case parse_bytes (np_buffer p) [0..<len] 0 of
            Inl e \<Rightarrow> (Inl e, p)
          | Inr ret \<Rightarrow> (case buf_remove_prefix (of_nat len) (np_buffer p) of
              (Inl e, b) \<Rightarrow> (Inl e, p\<lparr>np_buffer := b\<rparr>)
            | (Inr _, b) \<Rightarrow> (Inr ret, p\<lparr>np_buffer := b\<rparr>))))"

definition np_u32 :: "(net_parser, uint32) em" where
  "np_u32 = parse_int"

definition np_u16 :: "(net_parser, uint16) em" where
  "np_u16 = parse_int"

definition np_u8 :: "(net_parser, byte) em" where
  "np_u8 = parse_int"

definition np_remove_prefix :: "size_t \<Rightarrow> (net_parser, unit) em" where
  "np_remove_prefix n = (\<lambda>p.
     let p = check_size n p
     in if np_has_error p then (Inr (), p)
        else (case buf_remove_prefix n (np_buffer p) of (r, b) \<Rightarrow> (r, p\<lparr>np_buffer := b\<rparr>)))"

section \<open>NetUnparser\<close>

definition unparse_int :: "byte list \<Rightarrow> 'a::len word \<Rightarrow> byte list" where
  "unparse_int s val =
     (let len = LENGTH('a) div 8
      in fold (\<lambda>i s. s @ [ucast (drop_bit ((len - i - 1) * 8) val AND 0xff)]) [0..<len] s)"

definition nu_u32 :: "byte list \<Rightarrow> uint32 \<Rightarrow> byte list" where
  "nu_u32 = unparse_int"

definition nu_u16 :: "byte list \<Rightarrow> uint16 \<Rightarrow> byte list" where
  "nu_u16 = unparse_int"

definition nu_u8 :: "byte list \<Rightarrow> byte \<Rightarrow> byte list" where
  "nu_u8 = unparse_int"

section \<open>doctests/parser_example.cc\<close>

definition parser_example_buffer :: "byte list" where
  "parser_example_buffer =
     nu_u32 (nu_u8 (nu_u16 (nu_u32 [0x32] 0xdeadbeef) 0xc0c0) 0xff) 0x0c05fefe"

definition parser_example :: "unit result" where
  "parser_example = fst
     (bindM np_u8 (\<lambda>out0. bindM np_u32 (\<lambda>out1. bindM np_u16 (\<lambda>out2. bindM np_u8 (\<lambda>out3.
      bindM np_u32 (\<lambda>out4.
        if out0 \<noteq> 0x32 \<or> out1 \<noteq> 0xdeadbeef \<or> out2 \<noteq> 0xc0c0 \<or> out3 \<noteq> 0xff \<or> out4 \<noteq> 0x0c05fefe
        then throwM (Runtime_error ''bad parse'') else returnM ())))))
      (np_make (buf_of_string parser_example_buffer)))"

text \<open>\<open>main\<close> of \<open>doctests/parser_dt.cc\<close>: every exception becomes \<open>EXIT_FAILURE\<close>.\<close>

definition parser_dt_main :: "int result" where
  "parser_dt_main = (case parser_example of
       Inr _ \<Rightarrow> Inr 0
     | Inl e \<Rightarrow> if is_exception e then Inr 1 else Inl e)"

section \<open>Specification\<close>

definition np_wf :: "net_parser \<Rightarrow> bool" where
  "np_wf p \<longleftrightarrow> buf_wf (np_buffer p)"

abbreviation np_rest :: "net_parser \<Rightarrow> byte list" where
  "np_rest p \<equiv> buf_str (np_buffer p)"

text \<open>The big-endian value of a byte string.\<close>

definition be_value :: "byte list \<Rightarrow> nat" where
  "be_value bs = foldl (\<lambda>acc c. 256 * acc + unat c) 0 bs"

text \<open>A packet layout: a sequence of integer fields, written and read in order.\<close>

datatype field = F8 byte | F16 uint16 | F32 uint32

datatype field_type = T8 | T16 | T32

fun type_of_field :: "field \<Rightarrow> field_type" where
  "type_of_field (F8 _) = T8"
| "type_of_field (F16 _) = T16"
| "type_of_field (F32 _) = T32"

fun write_field :: "byte list \<Rightarrow> field \<Rightarrow> byte list" where
  "write_field s (F8 v) = nu_u8 s v"
| "write_field s (F16 v) = nu_u16 s v"
| "write_field s (F32 v) = nu_u32 s v"

fun read_field :: "field_type \<Rightarrow> (net_parser, field) em" where
  "read_field T8 = bindM np_u8 (\<lambda>v. returnM (F8 v))"
| "read_field T16 = bindM np_u16 (\<lambda>v. returnM (F16 v))"
| "read_field T32 = bindM np_u32 (\<lambda>v. returnM (F32 v))"

fun read_fields :: "field_type list \<Rightarrow> (net_parser, field list) em" where
  "read_fields [] = returnM []"
| "read_fields (t # ts) = bindM (read_field t) (\<lambda>f. bindM (read_fields ts) (\<lambda>fs. returnM (f # fs)))"

text \<open>One call on a parser, as a client may issue them in any order.\<close>

datatype np_op = Read field_type | Skip size_t | Set_error parse_result

fun np_step :: "np_op \<Rightarrow> (net_parser, field option) em" where
  "np_step (Read t) = bindM (read_field t) (\<lambda>f. returnM (Some f))"
| "np_step (Skip n) = bindM (np_remove_prefix n) (\<lambda>_. returnM None)"
| "np_step (Set_error res) = seqM (modifyM (np_set_error res)) (returnM None)"

fun field_is_zero :: "field \<Rightarrow> bool" where
  "field_is_zero (F8 v) = (v = 0)"
| "field_is_zero (F16 v) = (v = 0)"
| "field_is_zero (F32 v) = (v = 0)"

section \<open>The codec contract\<close>

locale int_codec =
  fixes width :: nat
    and put :: "byte list \<Rightarrow> 'v \<Rightarrow> byte list"
    and get :: "(net_parser, 'v) em"
  assumes put_append: "put s v = s @ put [] v"
    and put_length: "length (put [] v) = width"
    and get_put: "np_wf p \<Longrightarrow> np_error p = NoError \<Longrightarrow> np_rest p = put [] v @ rest \<Longrightarrow>
      \<exists>p'. get p = (Inr v, p') \<and> np_wf p' \<and> np_error p' = NoError \<and> np_rest p' = rest"
begin

lemma get_after_put:
  assumes "fits (put [] v @ rest)"
  shows "\<exists>p'. get (np_make (buf_of_string (put [] v @ rest))) = (Inr v, p') \<and>
    np_error p' = NoError \<and> np_rest p' = rest"
  using get_put [of "np_make (buf_of_string (put [] v @ rest))" v rest] assms
  by (auto simp: np_make_def np_wf_def)

lemma put_inject: "put [] v = put [] w \<Longrightarrow> width < 2 ^ 64 \<Longrightarrow> v = w"
proof -
  assume eq: "put [] v = put [] w" and w: "width < 2 ^ 64"
  let ?p = "np_make (buf_of_string (put [] v))"
  have "fits (put [] v)"
    using w put_length [of v] unfolding fits_def by simp
  then have p: "np_wf ?p" "np_error ?p = NoError" "np_rest ?p = put [] v @ []"
    by (simp_all add: np_wf_def np_make_def)
  then have p': "np_rest ?p = put [] w @ []"
    using eq by metis
  show "v = w"
    using get_put [OF p] get_put [OF p(1,2) p'] by (metis Pair_inject sum.inject(2))
qed

end

section \<open>Lemmas\<close>

lemma buf_at_ok: "buf_wf b \<Longrightarrow> i < length (buf_str b) \<Longrightarrow> buf_at b (of_nat i) = Inr (buf_str b ! i)"
proof -
  assume wf: "buf_wf b" and i: "i < length (buf_str b)"
  have "i < 2 ^ 64"
    using fits_length_le [OF buf_str_fits [OF wf], of i] i by simp
  then have "unat (of_nat i :: size_t) = i"
    by (simp add: unat_of_nat)
  with wf i show ?thesis
    by (simp add: buf_at_def less_size_of)
qed

lemma parse_bytes_eq:
  assumes "buf_wf b" and "\<forall>i \<in> set is. i < length (buf_str b)"
  shows "parse_bytes b is ret = Inr (foldl (\<lambda>acc c. push_bit 8 acc + ucast c) ret (map ((!) (buf_str b)) is))"
  using assms(2) by (induction "is" arbitrary: ret) (auto simp: buf_at_ok [OF assms(1)])

lemma word_of_be_bytes:
  "foldl (\<lambda>acc c. push_bit 8 acc + ucast c) (of_nat a :: 'a::len word) (bs :: byte list) =
     of_nat (foldl (\<lambda>acc c. 256 * acc + unat c) a bs)"
proof (induction bs arbitrary: a)
  case (Cons c bs)
  have "push_bit 8 (of_nat a :: 'a word) + ucast c = of_nat (256 * a + unat c)"
    by (simp add: push_bit_eq_mult mult.commute)
  then show ?case
    using Cons.IH [of "256 * a + unat c"] by simp
qed simp

lemma be_value_snoc: "be_value (bs @ [c]) = 256 * be_value bs + unat c"
  by (simp add: be_value_def)

lemma be_value_bound: "be_value bs < 256 ^ length bs"
proof (induction bs rule: rev_induct)
  case Nil
  then show ?case by (simp add: be_value_def)
next
  case (snoc c bs)
  have "unat c < 256"
    using unsigned_less [of c] by simp
  with snoc show ?case
    by (simp add: be_value_snoc)
qed

lemma unat_width: "n < 2 ^ 64 \<Longrightarrow> unat (of_nat n :: size_t) = n"
  by (simp add: unat_of_nat)

lemma check_size_ok:
  "np_wf p \<Longrightarrow> n < 2 ^ 64 \<Longrightarrow> n \<le> length (np_rest p) \<Longrightarrow> check_size (of_nat n) p = p"
  by (simp add: check_size_def np_wf_def buf_size_def size_of_less unat_width)

lemma check_size_short:
  "np_wf p \<Longrightarrow> n < 2 ^ 64 \<Longrightarrow> length (np_rest p) < n \<Longrightarrow>
     check_size (of_nat n) p = np_set_error PacketTooShort p"
  by (simp add: check_size_def np_wf_def buf_size_def size_of_less unat_width)

lemma check_size_simps [simp]:
  "np_buffer (check_size n p) = np_buffer p"
  "np_has_error p \<Longrightarrow> np_has_error (check_size n p)"
  "np_wf (check_size n p) = np_wf p"
  by (auto simp: check_size_def np_set_error_def np_has_error_def np_wf_def)

text \<open>The three outcomes of \<open>_parse_int\<close>: enough bytes, too few, or an earlier error.\<close>

lemma parse_int_ok:
  fixes p :: net_parser
  assumes wf: "np_wf p" and e: "np_error p = NoError" and w: "LENGTH('a::len) div 8 < 2 ^ 64"
    and len: "LENGTH('a) div 8 \<le> length (np_rest p)"
  shows "\<exists>b. (parse_int p :: 'a word result \<times> net_parser) =
      (Inr (of_nat (be_value (take (LENGTH('a) div 8) (np_rest p)))), p\<lparr>np_buffer := b\<rparr>) \<and>
    buf_wf b \<and> buf_str b = drop (LENGTH('a) div 8) (np_rest p)"
proof -
  let ?n = "LENGTH('a) div 8"
  have wfb: "buf_wf (np_buffer p)" using wf by (simp add: np_wf_def)
  obtain b where b: "buf_remove_prefix (of_nat ?n) (np_buffer p) = (Inr (), b)" "buf_wf b"
      "buf_str b = drop ?n (np_rest p)"
    using buf.drop_ok [OF wfb, of "of_nat ?n"] len unat_width [OF w] by auto
  have "map ((!) (np_rest p)) [0..<?n] = take ?n (np_rest p)"
    using len by (simp add: list_eq_iff_nth_eq)
  then have "parse_bytes (np_buffer p) [0..<?n] (0 :: 'a word) =
      Inr (of_nat (be_value (take ?n (np_rest p))))"
    using parse_bytes_eq [OF wfb, of "[0..<?n]" "0 :: 'a word"] len
      word_of_be_bytes [where 'a = 'a and a = 0 and bs = "take ?n (np_rest p)"]
    by (simp add: be_value_def)
  with b show ?thesis
    using wf e w len by (intro exI [of _ b]) (simp add: parse_int_def check_size_ok np_has_error_def)
qed

lemma parse_int_short:
  assumes "np_wf p" and "LENGTH('a::len) div 8 < 2 ^ 64" and "length (np_rest p) < LENGTH('a) div 8"
  shows "(parse_int p :: 'a word result \<times> net_parser) = (Inr 0, np_set_error PacketTooShort p)"
  using check_size_short [OF assms] by (simp add: parse_int_def np_set_error_def np_has_error_def)

lemma parse_int_stuck:
  "np_has_error p \<Longrightarrow> (parse_int p :: 'a::len word result \<times> net_parser) =
     (Inr 0, check_size (of_nat (LENGTH('a) div 8)) p)"
  by (simp add: parse_int_def)

lemma unparse_int_eq:
  "unparse_int s (val :: 'a::len word) = s @ map (\<lambda>i. ucast (drop_bit ((LENGTH('a) div 8 - i - 1) * 8) val AND 0xff))
     [0..<LENGTH('a) div 8]"
proof -
  have "fold (\<lambda>i s. s @ [f i]) xs s = s @ map f xs" for f :: "nat \<Rightarrow> byte" and xs s
    by (induction xs arbitrary: s) auto
  then show ?thesis
    by (simp add: unparse_int_def Let_def)
qed

text \<open>Each byte that \<open>_unparse_int\<close> emits extends the value read so far.\<close>

lemma unat_low_byte: "unat (ucast (w AND 0xff) :: byte) = unat (w :: 'a::len word) mod 256"
proof -
  have "w AND 0xff = take_bit 8 w"
    by (simp add: take_bit_eq_mask mask_eq_exp_minus_1)
  then have "unat (ucast (w AND 0xff) :: byte) = take_bit 8 (take_bit 8 (unat w))"
    by (simp only: unsigned_ucast_eq unsigned_take_bit_eq) simp
  then show ?thesis
    by (simp add: take_bit_eq_mod)
qed

lemma unat_drop_bytes: "unat (drop_bit (k * 8) (w :: 'a::len word)) = unat w div 256 ^ k"
proof -
  have "take_bit LENGTH('a) (unat w) = unat w"
    by (simp add: take_bit_nat_eq_self)
  then have "unat (drop_bit (k * 8) w) = unat w div 2 ^ (8 * k)"
    by (simp only: unsigned_drop_bit_eq) (simp add: drop_bit_eq_div mult.commute)
  then show ?thesis
    by (simp add: power_mult)
qed

lemma be_value_unparse:
  assumes "k \<le> n"
  shows "be_value (map (\<lambda>i. ucast (drop_bit ((n - i - 1) * 8) (val :: 'a::len word) AND 0xff)) [0..<k]) =
    unat val div 256 ^ (n - k) mod 256 ^ k"
  using assms
proof (induction k)
  case 0
  then show ?case by (simp add: be_value_def)
next
  case (Suc k)
  let ?d = "unat val div 256 ^ (n - Suc k)"
  have "n - k = Suc (n - Suc k)"
    using Suc.prems by simp
  then have shift: "unat val div 256 ^ (n - k) = ?d div 256"
    by (simp only: power_Suc2 div_mult2_eq)
  have "?d mod 256 ^ Suc k = 256 * (?d div 256 mod 256 ^ k) + ?d mod 256"
    by (simp add: mod_mult2_eq)
  with Suc shift show ?case
    by (simp add: be_value_snoc unat_low_byte unat_drop_bytes)
qed

lemma unparse_int_length: "length (unparse_int [] (val :: 'a::len word)) = LENGTH('a) div 8"
  by (simp add: unparse_int_eq)

lemma be_value_unparse_int:
  assumes "8 dvd LENGTH('a::len)"
  shows "be_value (unparse_int [] (val :: 'a word)) = unat val"
proof -
  have "(256::nat) ^ (LENGTH('a) div 8) = 2 ^ LENGTH('a)"
    using power_mult [of "2::nat" 8 "LENGTH('a) div 8"] assms by (simp add: dvd_mult_div_cancel)
  then have "unat val < 256 ^ (LENGTH('a) div 8)"
    using unsigned_less [of val] by simp
  then show ?thesis
    using be_value_unparse [of "LENGTH('a) div 8" "LENGTH('a) div 8" val]
    by (simp add: unparse_int_eq)
qed

lemma parse_unparse:
  assumes wf: "np_wf p" and e: "np_error p = NoError"
    and rest: "np_rest p = unparse_int [] (v :: 'a::len word) @ rest"
    and w: "8 dvd LENGTH('a)" "LENGTH('a) div 8 < 2 ^ 64"
  shows "\<exists>p'. parse_int p = (Inr v, p') \<and> np_wf p' \<and> np_error p' = NoError \<and> np_rest p' = rest"
proof -
  have "LENGTH('a) div 8 \<le> length (np_rest p)"
    and tk: "take (LENGTH('a) div 8) (np_rest p) = unparse_int [] v"
    and dr: "drop (LENGTH('a) div 8) (np_rest p) = rest"
    using rest by (simp_all add: unparse_int_length)
  then obtain b where "(parse_int p :: 'a word result \<times> net_parser) =
      (Inr (of_nat (unat v)), p\<lparr>np_buffer := b\<rparr>)" "buf_wf b" "buf_str b = rest"
    using parse_int_ok [OF wf e w(2)] by (auto simp: be_value_unparse_int [OF w(1)])
  then show ?thesis
    using e by (intro exI [of _ "p\<lparr>np_buffer := b\<rparr>"]) (simp add: np_wf_def)
qed

lemma unparse_int_append: "unparse_int s v = s @ unparse_int [] v"
  by (simp add: unparse_int_eq)

interpretation c32: int_codec 4 nu_u32 np_u32
  unfolding nu_u32_def np_u32_def
  by unfold_locales (rule unparse_int_append, simp add: unparse_int_length, rule parse_unparse, simp_all)

interpretation c16: int_codec 2 nu_u16 np_u16
  unfolding nu_u16_def np_u16_def
  by unfold_locales (rule unparse_int_append, simp add: unparse_int_length, rule parse_unparse, simp_all)

interpretation c8: int_codec 1 nu_u8 np_u8
  unfolding nu_u8_def np_u8_def
  by unfold_locales (rule unparse_int_append, simp add: unparse_int_length, rule parse_unparse, simp_all)

lemma write_field_append: "write_field s f = s @ write_field [] f"
  by (cases f) (simp_all add: c8.put_append [of s] c16.put_append [of s] c32.put_append [of s])

lemma read_write_field:
  assumes "np_wf p" and "np_error p = NoError" and "np_rest p = write_field [] f @ rest"
  shows "\<exists>p'. read_field (type_of_field f) p = (Inr f, p') \<and> np_wf p' \<and> np_error p' = NoError \<and>
    np_rest p' = rest"
  using assms c8.get_put [of p _ rest] c16.get_put [of p _ rest] c32.get_put [of p _ rest]
  by (cases f) (fastforce simp: em_simps)+

lemma fold_write_field: "fold (\<lambda>f s. write_field s f) fs s = s @ concat (map (write_field []) fs)"
proof (induction fs arbitrary: s)
  case (Cons f fs)
  then show ?case
    using Cons [of "write_field s f"] by (simp add: write_field_append [of s])
qed simp

lemma read_write_fields:
  assumes "np_wf p" and "np_error p = NoError" and "np_rest p = concat (map (write_field []) fs) @ rest"
  shows "\<exists>p'. read_fields (map type_of_field fs) p = (Inr fs, p') \<and> np_wf p' \<and>
    np_error p' = NoError \<and> np_rest p' = rest"
  using assms
proof (induction fs arbitrary: p)
  case Nil
  then show ?case by (simp add: em_simps)
next
  case (Cons f fs)
  then obtain p1 where "read_field (type_of_field f) p = (Inr f, p1)" "np_wf p1"
      "np_error p1 = NoError" "np_rest p1 = concat (map (write_field []) fs) @ rest"
    using read_write_field [of p f "concat (map (write_field []) fs) @ rest"] by auto
  with Cons.IH [of p1] show ?case
    by (auto simp: em_simps)
qed

lemma parse_int_total:
  assumes wf: "np_wf p" and w: "LENGTH('a::len) div 8 < 2 ^ 64"
  shows "\<exists>v p'. (parse_int p :: 'a word result \<times> net_parser) = (Inr v, p') \<and> np_wf p'"
proof -
  consider "np_has_error p" | "np_error p = NoError" "length (np_rest p) < LENGTH('a) div 8"
    | "np_error p = NoError" "LENGTH('a) div 8 \<le> length (np_rest p)"
    by (fastforce simp: np_has_error_def)
  then show ?thesis
  proof cases
    case 1
    with wf show ?thesis by (simp add: parse_int_stuck)
  next
    case 2
    with wf w show ?thesis by (simp add: parse_int_short np_set_error_def np_wf_def)
  next
    case 3
    with wf w parse_int_ok [OF wf 3(1) w 3(2)] show ?thesis by (auto simp: np_wf_def)
  qed
qed

lemma np_remove_prefix_total:
  assumes "np_wf p"
  shows "\<exists>p'. np_remove_prefix n p = (Inr (), p') \<and> np_wf p'"
proof (cases "np_has_error (check_size n p)")
  case True
  with assms show ?thesis by (simp add: np_remove_prefix_def Let_def)
next
  case False
  then have "\<not> n > buf_size (np_buffer p)"
    by (auto simp: check_size_def np_set_error_def np_has_error_def split: if_splits)
  with assms have "unat n \<le> length (np_rest p)"
    by (simp add: buf_size_def np_wf_def size_of_less)
  with assms False show ?thesis
    using buf.drop_ok [of "np_buffer p" n] by (auto simp: np_remove_prefix_def np_wf_def)
qed

lemma np_step_total: "np_wf p \<Longrightarrow> \<exists>r p'. np_step x p = (Inr r, p') \<and> np_wf p'"
proof (cases x)
  case (Read t)
  assume "np_wf p"
  then show ?thesis
    using parse_int_total [of p, where 'a = 8] parse_int_total [of p, where 'a = 16]
      parse_int_total [of p, where 'a = 32]
    by (cases t) (auto simp: Read np_u8_def np_u16_def np_u32_def em_simps)
next
  case (Skip n)
  assume "np_wf p"
  then show ?thesis
    using np_remove_prefix_total [of p n] by (auto simp: Skip em_simps)
next
  case (Set_error res)
  assume "np_wf p"
  then show ?thesis by (simp add: Set_error em_simps np_set_error_def np_wf_def)
qed

interpretation parser: total_system np_step np_wf
  by unfold_locales (rule np_step_total)

lemma np_step_stuck:
  assumes "np_has_error p" and "x \<noteq> Set_error NoError"
  shows "\<exists>r p'. np_step x p = (Inr r, p') \<and> np_has_error p' \<and> np_buffer p' = np_buffer p \<and>
    pred_option field_is_zero r"
proof (cases x)
  case (Read t)
  with assms show ?thesis
    by (cases t) (simp_all add: em_simps np_u8_def np_u16_def np_u32_def parse_int_stuck)
next
  case (Skip n)
  with assms show ?thesis
    by (simp add: em_simps np_remove_prefix_def Let_def)
next
  case (Set_error res)
  with assms show ?thesis by (simp add: em_simps np_set_error_def np_has_error_def)
qed

section \<open>Properties\<close>

text \<open>C2. A packet written field by field with \<open>NetUnparser\<close> (any sequence of 8-, 16- and 32-bit
  integers) is read back field by field by \<open>NetParser\<close>: the same values, no error, and
  the parser left exactly at the bytes that follow.\<close>

theorem unparse_parse_roundtrip:
  assumes "fits (fold (\<lambda>f s. write_field s f) fs [] @ rest)"
  shows "\<exists>p'. read_fields (map type_of_field fs)
      (np_make (buf_of_string (fold (\<lambda>f s. write_field s f) fs [] @ rest))) = (Inr fs, p') \<and>
    np_error p' = NoError \<and> np_rest p' = rest"
  using read_write_fields [of "np_make (buf_of_string (concat (map (write_field []) fs) @ rest))" fs rest] assms
  by (auto simp: fold_write_field np_make_def np_wf_def)

theorem unparse_parse_roundtrip_witness:
  "fits (fold (\<lambda>f s. write_field s f) [F16 0x1234, F8 7] [] @ [1]) \<and>
   (\<exists>p'. read_fields [T16, T8]
      (np_make (buf_of_string (fold (\<lambda>f s. write_field s f) [F16 0x1234, F8 7] [] @ [1]))) =
        (Inr [F16 0x1234, F8 7], p') \<and> np_error p' = NoError \<and> np_rest p' = [1])"
proof -
  have f: "fits (fold (\<lambda>f s. write_field s f) [F16 0x1234, F8 7] [] @ [1])"
    by (simp add: fits_def nu_u16_def nu_u8_def unparse_int_eq)
  show ?thesis using f unparse_parse_roundtrip [OF f] by simp
qed

text \<open>C19. \<open>_parse_int<T>\<close> on every branch: with no earlier error and at least \<open>sizeof(T)\<close> bytes it
  returns the big-endian value of those bytes and consumes exactly them; otherwise it
  returns 0, consumes nothing and leaves the parser in an error state
  (\<open>PacketTooShort\<close> when the bytes are missing). It never throws.\<close>

theorem parse_int_correct:
  assumes "np_wf p" and "8 dvd LENGTH('a::len)" and "LENGTH('a) div 8 < 2 ^ 64"
  shows "case (parse_int p :: 'a word result \<times> net_parser) of
      (Inl _, _) \<Rightarrow> False
    | (Inr v, p') \<Rightarrow>
        if np_error p = NoError \<and> LENGTH('a) div 8 \<le> length (np_rest p)
        then unat v = be_value (take (LENGTH('a) div 8) (np_rest p)) \<and> np_error p' = NoError \<and>
          np_wf p' \<and> np_rest p' = drop (LENGTH('a) div 8) (np_rest p)
        else v = 0 \<and> np_buffer p' = np_buffer p \<and>
          np_error p' = (if length (np_rest p) < LENGTH('a) div 8 then PacketTooShort else np_error p)"
proof (cases "np_error p = NoError \<and> LENGTH('a) div 8 \<le> length (np_rest p)")
  case True
  let ?n = "LENGTH('a) div 8"
  have "(256::nat) ^ ?n = 2 ^ LENGTH('a)"
    using power_mult [of "2::nat" 8 ?n] assms(2) by (simp add: dvd_mult_div_cancel)
  then have "be_value (take ?n (np_rest p)) < 2 ^ LENGTH('a)"
    using be_value_bound [of "take ?n (np_rest p)"] True by (simp add: min_absorb2)
  then have "unat (of_nat (be_value (take ?n (np_rest p))) :: 'a word) = be_value (take ?n (np_rest p))"
    by (simp add: unat_of_nat)
  with True parse_int_ok [OF assms(1) _ assms(3)] show ?thesis
    by (auto simp: np_wf_def)
next
  case False
  with assms(1,3) show ?thesis
    by (cases "length (np_rest p) < LENGTH('a) div 8")
      (auto simp: parse_int_short parse_int_stuck np_has_error_def np_set_error_def check_size_ok)
qed

theorem parse_int_correct_witness:
  "np_wf (np_make (buf_of_string [1, 2, 3])) \<and>
   (case (parse_int (np_make (buf_of_string [1, 2, 3])) :: 16 word result \<times> net_parser) of
      (Inl _, _) \<Rightarrow> False | (Inr v, p') \<Rightarrow> unat v = 258 \<and> np_rest p' = [3])"
proof -
  have f: "fits [1, 2, 3 :: byte]" by (simp add: fits_def)
  have wf: "np_wf (np_make (buf_of_string [1, 2, 3]))" using f by (simp add: np_wf_def np_make_def)
  have s: "np_rest (np_make (buf_of_string [1, 2, 3])) = [1, 2, 3]"
    "np_error (np_make (buf_of_string [1, 2, 3])) = NoError"
    using f by (simp_all add: np_make_def)
  show ?thesis using wf parse_int_correct [OF wf, where 'a = 16]
    by (simp add: s be_value_def split: prod.splits sum.splits)
qed

text \<open>C22. No sequence of calls on a well-formed parser throws: the size check that precedes every
  access makes \<open>Buffer::at\<close> and \<open>Buffer::remove_prefix\<close> succeed.\<close>

theorem net_parser_never_throws:
  assumes "np_wf p"
  shows "\<exists>rs p'. run_ops np_step xs p = (Inr rs, p') \<and> np_wf p'"
  using parser.run_total [OF assms] by blast

theorem net_parser_never_throws_witness:
  "np_wf (np_make (buf_of_string [1])) \<and>
   (\<exists>rs p'. run_ops np_step [Read T16, Skip 9, Read T8] (np_make (buf_of_string [1])) = (Inr rs, p') \<and> np_wf p')"
proof -
  have wf: "np_wf (np_make (buf_of_string [1]))" by (simp add: np_wf_def np_make_def buf_of_string_wf fits_def)
  show ?thesis using wf net_parser_never_throws [OF wf] by blast
qed

text \<open>C23. Errors are sticky up to \<open>set_error(NoError)\<close>: once \<open>error()\<close> holds, every call but that one leaves
  it holding, consumes nothing, and every integer read is 0. A call of \<open>set_error(NoError)\<close> clears
  it, and parsing goes on at the first byte that was not consumed before the error.\<close>

theorem net_parser_error_sticky:
  assumes "np_has_error p" and "Set_error NoError \<notin> set xs"
  shows "\<exists>rs p'. run_ops np_step xs p = (Inr rs, p') \<and> np_has_error p' \<and> np_buffer p' = np_buffer p \<and>
    list_all (pred_option field_is_zero) rs \<and> length rs = length xs \<and>
    run_ops np_step (xs @ [Set_error NoError]) p = (Inr (rs @ [None]), p\<lparr>np_error := NoError\<rparr>)"
  using assms
proof (induction xs arbitrary: p)
  case Nil
  then show ?case by (simp add: em_simps np_set_error_def)
next
  case (Cons x xs)
  obtain r p1 where p1: "np_step x p = (Inr r, p1)" "np_has_error p1" "np_buffer p1 = np_buffer p"
      "pred_option field_is_zero r"
    using np_step_stuck [OF Cons.prems(1), of x] Cons.prems(2) by auto
  then have "p1\<lparr>np_error := NoError\<rparr> = p\<lparr>np_error := NoError\<rparr>" by (cases p; cases p1) simp
  with p1 Cons.IH [of p1] Cons.prems(2) show ?case by (auto simp: em_simps)
qed

theorem net_parser_error_sticky_witness:
  "np_has_error (np_set_error BadChecksum (np_make (buf_of_string [1, 2]))) \<and>
   (\<exists>rs p'. run_ops np_step [Read T16, Set_error WrongIPVersion, Read T8]
       (np_set_error BadChecksum (np_make (buf_of_string [1, 2]))) = (Inr rs, p') \<and>
     np_has_error p' \<and> list_all (pred_option field_is_zero) rs \<and> length rs = 3)"
proof -
  have e: "np_has_error (np_set_error BadChecksum (np_make (buf_of_string [1, 2])))"
    by (simp add: np_has_error_def np_set_error_def)
  show ?thesis using e net_parser_error_sticky [OF e, of "[Read T16, Set_error WrongIPVersion, Read T8]"] by fastforce
qed

text \<open>The example program of the documentation runs to its end: the five integers it parses
  are the ones it serialized, so it never throws \<open>bad parse\<close>.\<close>

lemma parser_example_succeeds: "parser_dt_main = Inr 0"
proof -
  let ?fs = "[F8 0x32, F32 0xdeadbeef, F16 0xc0c0, F8 0xff, F32 0x0c05fefe]"
  have start: "[0x32] = nu_u8 [] 0x32"
    by (simp add: nu_u8_def unparse_int_eq)
  have buffer: "parser_example_buffer = concat (map (write_field []) ?fs)"
    unfolding parser_example_buffer_def start using fold_write_field [of ?fs "[]"] by simp
  have "length parser_example_buffer = 12"
    unfolding buffer by (simp add: c8.put_length c16.put_length c32.put_length)
  then have fit: "fits parser_example_buffer"
    by (simp add: fits_def)
  obtain p' where "read_fields (map type_of_field ?fs) (np_make (buf_of_string parser_example_buffer)) = (Inr ?fs, p')"
    using read_write_fields [of "np_make (buf_of_string parser_example_buffer)" ?fs "[]"] fit
    by (auto simp: np_make_def np_wf_def buffer)
  then show ?thesis
    by (auto simp: parser_dt_main_def parser_example_def em_simps split: prod.splits sum.splits)
qed

end
