(* ===== verification/Checksum.thy ===== *)
theory Checksum
  imports Net_Parser
begin

text \<open>
  The class \<open>InternetChecksum\<close> of \<open>libsponge/util/util.hh\<close> and \<open>util.cc\<close>: a 32-bit accumulator
  to which bytes are added in turn, the first of each pair shifted to the high half, and
  a final loop that folds the carries into 16 bits. It is compared with the definition of
  RFC 1071, which adds 16-bit big-endian words with an end-around carry at every step.
\<close>

section \<open>InternetChecksum\<close>

record internet_checksum =
  ck_sum :: uint32
  ck_parity :: bool

definition ck_make :: "uint32 \<Rightarrow> internet_checksum" where
  "ck_make initial_sum = \<lparr>ck_sum = initial_sum, ck_parity = False\<rparr>"

definition ck_add_byte :: "byte \<Rightarrow> internet_checksum \<Rightarrow> internet_checksum" where
  "ck_add_byte d c =
     (let val = (ucast d :: uint16);
          val = (if \<not> ck_parity c then push_bit 8 val else val)
      in c\<lparr>ck_sum := ck_sum c + ucast val, ck_parity := \<not> ck_parity c\<rparr>)"

definition ck_add :: "byte list \<Rightarrow> internet_checksum \<Rightarrow> internet_checksum" where
  "ck_add data c = fold ck_add_byte data c"

text \<open>The loop of \<open>value()\<close>. It ends because each round makes the sum smaller.\<close>

lemma fold_carry_step:
  assumes "(ret :: uint32) > 0xffff"
  shows "unat (drop_bit 16 ret + (ret AND 0xffff)) = unat ret div 65536 + unat ret mod 65536"
    and "unat ret div 65536 + unat ret mod 65536 < unat ret"
proof -
  have "ret AND 0xffff = take_bit 16 ret"
    by (simp add: take_bit_eq_mask mask_eq_exp_minus_1)
  then have lo: "unat (ret AND 0xffff) = unat ret mod 65536"
    by (simp only: unsigned_take_bit_eq) (simp add: take_bit_eq_mod)
  have hi: "unat (drop_bit 16 ret) = unat ret div 65536"
    using unat_drop_bytes [of 2 ret] by simp
  have "unat ret < 4294967296"
    using unsigned_less [of ret] by simp
  then have "unat ret div 65536 < 65536" by simp
  then show "unat (drop_bit 16 ret + (ret AND 0xffff)) = unat ret div 65536 + unat ret mod 65536"
    using lo hi by (simp add: unat_word_ariths)
  have "65536 \<le> unat ret"
    using assms by (simp add: word_less_nat_alt)
  then show "unat ret div 65536 + unat ret mod 65536 < unat ret"
    using div_mult_mod_eq [of "unat ret" 65536] by linarith
qed

function fold_carries :: "uint32 \<Rightarrow> uint32" where
  "fold_carries ret = (if ret > 0xffff then fold_carries (drop_bit 16 ret + (ret AND 0xffff)) else ret)"
  by pat_completeness auto
termination
  by (relation "measure unat") (use fold_carry_step in auto)

declare fold_carries.simps [simp del]

definition ck_value :: "internet_checksum \<Rightarrow> uint16" where
  "ck_value c = ucast (NOT (fold_carries (ck_sum c)))"

section \<open>Specification: RFC 1071\<close>

fun words16 :: "byte list \<Rightarrow> nat list" where
  "words16 [] = []"
| "words16 [a] = [256 * unat a]"
| "words16 (a # b # rest) = (256 * unat a + unat b) # words16 rest"

text \<open>One's complement addition of 16-bit words, with the carry brought around.\<close>

definition ones_add :: "nat \<Rightarrow> nat \<Rightarrow> nat" where
  "ones_add w acc = (let t = acc + w in if t > 65535 then t - 65535 else t)"

definition rfc1071 :: "nat \<Rightarrow> byte list \<Rightarrow> nat" where
  "rfc1071 init data = 65535 - fold ones_add (words16 data) init"

text \<open>The canonical 16-bit representative of a sum.\<close>

definition oc16 :: "nat \<Rightarrow> nat" where
  "oc16 n = (if n = 0 then 0 else (n - 1) mod 65535 + 1)"

text \<open>What a run of bytes adds to the accumulator, from a given parity.\<close>

fun be_sum :: "bool \<Rightarrow> byte list \<Rightarrow> nat" where
  "be_sum par [] = 0"
| "be_sum par (d # ds) = (if par then unat d else 256 * unat d) + be_sum (\<not> par) ds"

section \<open>Lemmas\<close>

lemma oc16_small: "n \<le> 65535 \<Longrightarrow> oc16 n = n"
  by (cases n) (simp_all add: oc16_def)

lemma oc16_le: "oc16 n \<le> 65535"
  by (simp add: oc16_def Suc_le_eq)

lemma oc16_add_65535: "0 < n \<Longrightarrow> oc16 (n + k * 65535) = oc16 n"
proof -
  assume "0 < n"
  then obtain m where "n = Suc m" by (cases n) auto
  then show ?thesis by (simp add: oc16_def)
qed

lemma oc16_fold: "65536 \<le> s \<Longrightarrow> oc16 (s div 65536 + s mod 65536) = oc16 s"
proof -
  assume s: "65536 \<le> s"
  have "s = (s div 65536 + s mod 65536) + (s div 65536) * 65535"
    using div_mult_mod_eq [of s 65536] by simp
  moreover have "0 < s div 65536 + s mod 65536"
    using s by (simp add: div_greater_zero_iff)
  ultimately show ?thesis
    by (metis oc16_add_65535)
qed

lemma unat_fold_carries: "unat (fold_carries ret) = oc16 (unat ret)"
proof (induction ret rule: fold_carries.induct)
  case (1 ret)
  show ?case
  proof (cases "ret > 0xffff")
    case True
    then have "65536 \<le> unat ret"
      by (simp add: word_less_nat_alt)
    with True "1.IH" show ?thesis
      by (simp add: fold_carries.simps [of ret] fold_carry_step(1) oc16_fold)
  next
    case False
    then have "unat ret \<le> 65535"
      by (simp add: word_less_nat_alt not_less)
    with False show ?thesis
      by (simp add: fold_carries.simps [of ret] oc16_small)
  qed
qed

lemma unat_ck_value: "unat (ck_value c) = 65535 - oc16 (unat (ck_sum c))"
proof -
  let ?f = "fold_carries (ck_sum c)"
  have f: "unat ?f \<le> 65535"
    using unat_fold_carries oc16_le by metis
  have "ucast (NOT ?f) = (NOT (ucast ?f) :: uint16)"
    by (rule bit_word_eqI) (auto simp: bit_simps)
  moreover have "unat (ucast ?f :: uint16) = unat ?f"
    using f by (simp add: unsigned_ucast_eq take_bit_nat_eq_self)
  moreover have "unat (NOT w) = 65535 - unat w" for w :: uint16
  proof -
    have "NOT w = - 1 - w" by (simp add: not_eq_complement)
    moreover have "unat (- 1 - w) = unat (- 1 :: uint16) - unat w" by (rule unat_sub) simp
    moreover have "unat (- 1 :: uint16) = 65535" by (simp add: unsigned_minus_1_eq_mask mask_eq_exp_minus_1)
    ultimately show ?thesis by simp
  qed
  ultimately show ?thesis
    using unat_fold_carries by (simp add: ck_value_def)
qed

lemma ucast_val:
  "unat (ucast (push_bit 8 (ucast d :: uint16)) :: uint32) = 256 * unat (d :: byte)"
  "unat (ucast (ucast d :: uint16) :: uint32) = unat d"
proof -
  have d: "unat d < 256"
    using unsigned_less [of d] by simp
  then have d16: "unat (ucast d :: uint16) = unat d"
    by (simp add: unsigned_ucast_eq take_bit_nat_eq_self)
  have "unat (push_bit 8 (ucast d :: uint16)) = take_bit 16 (push_bit 8 (unat d))"
    using d16 by (simp only: unsigned_push_bit_eq) simp
  then have p16: "unat (push_bit 8 (ucast d :: uint16)) = 256 * unat d"
    using d by (simp add: push_bit_eq_mult take_bit_nat_eq_self)
  show "unat (ucast (push_bit 8 (ucast d :: uint16)) :: uint32) = 256 * unat d"
    using p16 d by (simp only: unsigned_ucast_eq) (simp add: take_bit_nat_eq_self)
  show "unat (ucast (ucast d :: uint16) :: uint32) = unat d"
    using d16 d by (simp only: unsigned_ucast_eq [of "ucast d :: uint16"]) (simp add: take_bit_nat_eq_self)
qed

lemma ck_add_byte_simps:
  "ck_parity (ck_add_byte d c) = (\<not> ck_parity c)"
  "ck_sum (ck_add_byte d c) = ck_sum c + of_nat (if ck_parity c then unat d else 256 * unat d)"
proof -
  show "ck_parity (ck_add_byte d c) = (\<not> ck_parity c)"
    by (simp add: ck_add_byte_def Let_def)
  have "ucast (push_bit 8 (ucast d :: uint16)) = (of_nat (256 * unat d) :: uint32)"
    "ucast (ucast d :: uint16) = (of_nat (unat d) :: uint32)"
    by (simp_all only: word_unat_eq_iff ucast_val unat_of_nat) (use byte_le [of d] in simp_all)
  then show "ck_sum (ck_add_byte d c) = ck_sum c + of_nat (if ck_parity c then unat d else 256 * unat d)"
    by (simp only: ck_add_byte_def Let_def) auto
qed

lemma ck_add_eq:
  "ck_sum (ck_add data c) = ck_sum c + of_nat (be_sum (ck_parity c) data)"
  "ck_parity (ck_add data c) = (ck_parity c \<noteq> odd (length data))"
  unfolding ck_add_def by (induction data arbitrary: c) (auto simp: ck_add_byte_simps)

lemma ck_add_append: "ck_add (xs @ ys) c = ck_add ys (ck_add xs c)"
  by (simp add: ck_add_def)

lemma be_sum_append: "be_sum par (xs @ ys) = be_sum par xs + be_sum (par \<noteq> odd (length xs)) ys"
proof (induction xs arbitrary: par)
  case (Cons x xs)
  have "((\<not> par) \<noteq> odd (length xs)) = (par \<noteq> odd (length (x # xs)))" by auto
  with Cons [of "\<not> par"] show ?case by simp
qed simp

lemma be_sum_words16: "be_sum False data = sum_list (words16 data)"
  by (induction data rule: words16.induct) auto

lemma words16_le: "w \<in> set (words16 data) \<Longrightarrow> w \<le> 65535"
proof (induction data rule: words16.induct)
  case (2 a)
  then show ?case using byte_le [of a] by simp
next
  case (3 a b rest)
  then show ?case using byte_le [of a] byte_le [of b] by auto
qed simp

lemma sum_words16_le: "sum_list (words16 data) \<le> 65535 * ((length data + 1) div 2)"
proof -
  have "sum_list (words16 data) \<le> 65535 * length (words16 data)"
    using sum_list_mono [of "words16 data" "\<lambda>w. w" "\<lambda>_. 65535"] words16_le
    by (simp add: sum_list_triv)
  moreover have "length (words16 data) = (length data + 1) div 2"
    by (induction data rule: words16.induct) auto
  ultimately show ?thesis by simp
qed

lemma ones_add_oc16: "w \<le> 65535 \<Longrightarrow> ones_add w (oc16 n) = oc16 (n + w)"
proof (cases "n = 0")
  case False
  assume w: "w \<le> 65535"
  define r where "r = (n - 1) mod 65535"
  define q where "q = (n - 1) div 65535"
  have r: "r < 65535" and n: "n = (r + 1) + q * 65535"
    using False div_mult_mod_eq [of "n - 1" 65535] by (simp_all add: r_def q_def)
  have "oc16 n = r + 1"
    using False by (simp add: oc16_def r_def)
  moreover have "oc16 (n + w) = oc16 (r + 1 + w)"
    using n oc16_add_65535 [of "r + 1 + w" q] by (simp add: algebra_simps)
  moreover have "oc16 (r + 1 + w) = (if r + 1 + w > 65535 then r + 1 + w - 65535 else r + 1 + w)"
    using r w oc16_add_65535 [of "r + 1 + w - 65535" 1] by (auto simp: oc16_small)
  ultimately show ?thesis
    by (simp add: ones_add_def)
next
  case True
  then show "w \<le> 65535 \<Longrightarrow> ?thesis" by (simp add: ones_add_def oc16_small)
qed

lemma fold_ones_add: "(\<forall>w \<in> set ws. w \<le> 65535) \<Longrightarrow> fold ones_add ws (oc16 n) = oc16 (n + sum_list ws)"
  by (induction ws arbitrary: n) (auto simp: ones_add_oc16 add.assoc)

lemma fold_ck_add: "fold ck_add chunks c = ck_add (concat chunks) c"
  by (induction chunks arbitrary: c) (simp add: ck_add_def, simp add: ck_add_append)

lemma ck_value_add:
  assumes "unat init + 65535 * ((length data + 1) div 2) < 2 ^ 32"
  shows "unat (ck_value (ck_add data (ck_make init))) = 65535 - oc16 (unat init + sum_list (words16 data))"
proof -
  let ?s = "sum_list (words16 data)"
  have "unat init + ?s < 2 ^ 32"
    using assms sum_words16_le [of data] by linarith
  then have "unat (init + of_nat ?s) = unat init + ?s"
    by (simp add: unat_word_ariths unat_of_nat)
  then show ?thesis
    by (simp add: unat_ck_value ck_add_eq ck_make_def be_sum_words16)
qed

lemma oc16_complement: "oc16 (n + (65535 - oc16 n)) = 65535"
proof (cases "n = 0")
  case False
  define q where "q = (n - 1) div 65535"
  have "n = oc16 n + q * 65535"
    using False div_mult_mod_eq [of "n - 1" 65535] by (simp add: oc16_def q_def)
  then have "n + (65535 - oc16 n) = 65535 + q * 65535"
    using oc16_le [of n] by linarith
  then show ?thesis
    using oc16_add_65535 [of 65535 q] oc16_small [of 65535] by simp
qed (simp add: oc16_def)

lemma be_value_two: "unparse_int [] (w :: uint16) = [a, b] \<Longrightarrow> 256 * unat a + unat b = unat w"
  using be_value_unparse_int [of w] by (simp add: be_value_def)

section \<open>Properties\<close>

text \<open>C3. However the data is cut into pieces passed to \<open>add\<close> (also at odd positions), \<open>value()\<close> is the
  checksum RFC 1071 defines on the whole data (the complement of the end-around-carry sum
  of its big-endian 16-bit words, an odd last byte padded with zero), as long as the
  deferred carries cannot overflow the 32-bit accumulator; from a zero initial sum that
  allows 131074 bytes, twice the largest IP datagram.\<close>

theorem checksum_is_rfc1071:
  assumes "unat init + 65535 * ((length (concat chunks) + 1) div 2) < 2 ^ 32"
  shows "unat (ck_value (fold ck_add chunks (ck_make init))) = rfc1071 (oc16 (unat init)) (concat chunks)"
  using ck_value_add [OF assms] words16_le fold_ones_add [of "words16 (concat chunks)" "unat init"]
  by (simp add: fold_ck_add rfc1071_def)

theorem checksum_is_rfc1071_witness:
  "unat (0 :: uint32) + 65535 * ((length (concat [[0x45], [0, 0x12 :: byte]]) + 1) div 2) < 2 ^ 32 \<and>
   unat (ck_value (fold ck_add [[0x45], [0, 0x12]] (ck_make 0))) = rfc1071 0 [0x45, 0, 0x12]"
proof -
  have h: "unat (0 :: uint32) + 65535 * ((length (concat [[0x45], [0, 0x12 :: byte]]) + 1) div 2) < 2 ^ 32"
    by simp
  show ?thesis using h checksum_is_rfc1071 [OF h] by (simp add: oc16_def)
qed

text \<open>C21. The use the class is documented for: compute the checksum with the checksum field set to
  zero, store it (big-endian, at an even offset), and the receiver's \<open>value()\<close> over the
  packet is 0.\<close>

theorem checksum_verifies:
  assumes "even (length pre)"
    and "65535 * ((length pre + 2 + length post + 1) div 2) < 2 ^ 32"
    and "c = ck_value (ck_add (pre @ nu_u16 [] 0 @ post) (ck_make 0))"
  shows "ck_value (ck_add (pre @ nu_u16 [] c @ post) (ck_make 0)) = 0"
proof -
  obtain a b where ab: "nu_u16 [] c = [a, b]"
    using c16.put_length [of c] by (auto simp: length_Suc_conv numeral_2_eq_2)
  have c: "256 * unat a + unat b = unat c"
    using ab by (auto simp: nu_u16_def intro: be_value_two)
  have z: "nu_u16 [] 0 = [0, 0]"
    by (simp add: nu_u16_def unparse_int_eq numeral_2_eq_2)
  have split: "sum_list (words16 (pre @ [x, y] @ post)) = be_sum False pre + (256 * unat x + unat y) + be_sum False post" for x y
    using be_sum_append [of False pre "[x, y] @ post"] assms(1) by (simp flip: be_sum_words16)
  let ?S = "be_sum False pre + be_sum False post"
  have "unat c = 65535 - oc16 ?S"
    using ck_value_add [of 0 "pre @ [0, 0] @ post"] assms(2,3) split [of 0 0] by (simp add: z algebra_simps)
  then have "?S + (65535 - oc16 ?S) = sum_list (words16 (pre @ [a, b] @ post))"
    using split [of a b] c by simp
  then have "unat (ck_value (ck_add (pre @ [a, b] @ post) (ck_make 0))) = 0"
    using ck_value_add [of 0 "pre @ [a, b] @ post"] assms(2) oc16_complement [of ?S] by (simp add: algebra_simps)
  then show ?thesis
    by (simp add: ab unat_0_iff)
qed

theorem checksum_verifies_witness:
  "even (length [0x45 :: byte, 0]) \<and>
   ck_value (ck_add ([0x45, 0] @ nu_u16 [] (ck_value (ck_add ([0x45, 0] @ nu_u16 [] 0 @ [9]) (ck_make 0))) @ [9])
     (ck_make 0)) = 0"
  using checksum_verifies [of "[0x45, 0]" "[9]", OF _ _ refl] by simp

text \<open>C39. The accumulator is only 32 bits wide: on 131076 bytes of \<open>0xff\<close> it wraps around, and
  \<open>value()\<close> is 1 where RFC 1071 gives 0.\<close>

theorem checksum_overflow:
  "unat (ck_value (ck_add (replicate 131076 0xff) (ck_make 0))) = 1 \<and>
   rfc1071 0 (replicate 131076 0xff) = 0"
proof -
  have pairs: "words16 (replicate (2 * n) 0xff) = replicate n 65535" for n
    by (induction n) simp_all
  have ws: "words16 (replicate 131076 0xff) = replicate 65538 65535"
    using pairs [of 65538] by simp
  have sum: "be_sum False (replicate 131076 0xff) = 65538 * 65535"
    unfolding be_sum_words16 ws by (simp add: sum_list_replicate)
  have "ck_sum (ck_add (replicate 131076 0xff) (ck_make 0)) = 65534"
    unfolding ck_add_eq by (simp add: ck_make_def sum)
  then have "unat (ck_value (ck_add (replicate 131076 0xff) (ck_make 0))) = 1"
    by (simp add: unat_ck_value oc16_small)
  moreover have "fold ones_add (replicate 65538 65535) 0 = 65535"
    using fold_ones_add [of "replicate 65538 65535" 0] by (simp add: oc16_def sum_list_replicate)
  ultimately show ?thesis
    by (simp add: rfc1071_def ws)
qed

end
