(* ===== verification/Byte_Stream.thy ===== *)
theory Byte_Stream
  imports Sponge_Prelude
begin

text \<open>
  \<open>libsponge/byte_stream.hh\<close> and \<open>byte_stream.cc\<close>: the in-memory byte stream, a ring buffer of
  \<open>capacity + 1\<close> bytes with a head and a tail index. The class is modelled as it stands in
  the repository, where \<open>buffer_size()\<close> computes the fill level and then returns 0.

  \<open>m_buf\<close>, \<open>m_num_of_r\<close> and \<open>m_num_of_w\<close> are not initialised by the constructor; their
  first values are parameters of \<open>bs_make\<close>, and what holds is proved for all of them.
  Indexing the array outside its bounds, and writing past \<open>size()\<close> of a \<open>string\<close>, are
  \<open>Undefined_behaviour\<close>.
\<close>

section \<open>The class\<close>

record byte_stream =
  m_tail :: int
  m_head :: int
  m_closed :: bool
  m_buf :: "byte list"
  m_buf_size :: int
  m_error :: bool
  m_num_of_r :: int
  m_num_of_w :: int

definition bs_make :: "size_t \<Rightarrow> (nat \<Rightarrow> byte) \<Rightarrow> int \<Rightarrow> int \<Rightarrow> byte_stream result" where
  "bs_make capacity junk r0 w0 =
     (let buf_size = int_of_size (capacity + 1)
      in if buf_size < 0 then Inl Bad_array_new_length
         else Inr \<lparr>m_tail = 0, m_head = 0, m_closed = False, m_buf = map junk [0..<nat buf_size],
                m_buf_size = buf_size, m_error = False, m_num_of_r = r0, m_num_of_w = w0\<rparr>)"

definition bs_set_error :: "byte_stream \<Rightarrow> byte_stream" where
  "bs_set_error s = s\<lparr>m_error := True\<rparr>"

definition bs_get_error :: "byte_stream \<Rightarrow> bool" where
  "bs_get_error s = m_error s"

definition bs_end_input :: "byte_stream \<Rightarrow> byte_stream" where
  "bs_end_input s = s\<lparr>m_closed := True\<rparr>"

definition bs_input_ended :: "byte_stream \<Rightarrow> bool" where
  "bs_input_ended s = m_closed s"

text \<open>The fill level that \<open>buffer_size\<close> computes in its local variable.\<close>

definition bs_level :: "byte_stream \<Rightarrow> int" where
  "bs_level s = (let r = m_head s - m_tail s in if r < 0 then r + m_buf_size s else r)"

definition bs_buffer_size :: "byte_stream \<Rightarrow> size_t" where
  "bs_buffer_size s = (let r = bs_level s in 0)"

definition bs_buffer_empty :: "byte_stream \<Rightarrow> bool" where
  "bs_buffer_empty s \<longleftrightarrow> m_head s = m_tail s"

definition bs_eof :: "byte_stream \<Rightarrow> bool" where
  "bs_eof s \<longleftrightarrow> bs_input_ended s \<and> bs_buffer_empty s"

definition bs_bytes_written :: "byte_stream \<Rightarrow> size_t" where
  "bs_bytes_written s = size_of_int (m_num_of_w s)"

definition bs_bytes_read :: "byte_stream \<Rightarrow> size_t" where
  "bs_bytes_read s = size_of_int (m_num_of_r s)"

definition bs_remaining_capacity :: "byte_stream \<Rightarrow> size_t" where
  "bs_remaining_capacity s = size_of_int (m_buf_size s - 1) - bs_buffer_size s"

text \<open>One round of the loop of \<open>write\<close>: \<open>m_buf[m_head++] = data[i]\<close> and the wrap-around.\<close>

definition bs_push :: "byte \<Rightarrow> (byte_stream, unit) em" where
  "bs_push c = (\<lambda>s.
     if 0 \<le> m_head s \<and> m_head s < int (length (m_buf s)) then
       (Inr (), s\<lparr>m_buf := (m_buf s)[nat (m_head s) := c],
                m_head := (if m_head s + 1 \<ge> m_buf_size s then 0 else m_head s + 1)\<rparr>)
     else (Inl (Undefined_behaviour ''m_buf index''), s))"

fun bs_write_loop :: "byte list \<Rightarrow> (byte_stream, unit) em" where
  "bs_write_loop [] = returnM ()"
| "bs_write_loop (c # cs) = seqM (bs_push c) (bs_write_loop cs)"

definition bs_write :: "byte list \<Rightarrow> (byte_stream, size_t) em" where
  "bs_write data = (\<lambda>s.
     if m_closed s \<or> m_error s then (Inr 0, bs_set_error s)
     else
       let n = size_of data;
           r = bs_remaining_capacity s;
           n = (if n > r then r else n)
       in case bs_write_loop (take (unat n) data) s of
            (Inl e, s) \<Rightarrow> (Inl e, s)
          | (Inr _, s) \<Rightarrow>
              (Inr n, s\<lparr>m_num_of_w := int_of_size (size_of_int (m_num_of_w s) + n)\<rparr>))"

text \<open>
  The loop of \<open>peek_output\<close>, with \<open>k\<close> rounds left. \<open>reserve\<close> does not change the size of
  the string, so \<open>acc\<close> starts empty and \<open>s[i] = \<dots>\<close> is in bounds only below its size.
\<close>

fun bs_peek_loop :: "byte_stream \<Rightarrow> nat \<Rightarrow> nat \<Rightarrow> int \<Rightarrow> byte list \<Rightarrow> byte list result" where
  "bs_peek_loop s 0 i t acc = Inr acc"
| "bs_peek_loop s (Suc k) i t acc =
     (if 0 \<le> t \<and> t < int (length (m_buf s)) \<and> i < length acc then
        bs_peek_loop s k (Suc i) (if t + 1 \<ge> m_buf_size s then 0 else t + 1)
          (acc[i := m_buf s ! nat t])
      else Inl (Undefined_behaviour ''string index''))"

definition bs_peek_output :: "size_t \<Rightarrow> byte_stream \<Rightarrow> byte list result" where
  "bs_peek_output len s =
     (if m_error s then Inr []
      else let r = bs_buffer_size s; n = (if len > r then r else len)
           in bs_peek_loop s (unat n) 0 (m_tail s) [])"

definition bs_pop_output :: "size_t \<Rightarrow> byte_stream \<Rightarrow> byte_stream" where
  "bs_pop_output len s =
     (if m_error s then s
      else let r = bs_buffer_size s;
               n = (if len > r then r else len);
               s = s\<lparr>m_tail := int_of_size (size_of_int (m_tail s) + n)\<rparr>;
               s = (if m_tail s \<ge> m_buf_size s then s\<lparr>m_tail := m_tail s - m_buf_size s\<rparr> else s)
           in s\<lparr>m_num_of_r := int_of_size (size_of_int (m_num_of_r s) + n)\<rparr>)"

definition bs_read :: "size_t \<Rightarrow> (byte_stream, byte list) em" where
  "bs_read len = bindM (\<lambda>s. (bs_peek_output len s, s))
     (\<lambda>ret. seqM (modifyM (bs_pop_output len)) (returnM ret))"

section \<open>Calls in sequence\<close>

datatype bs_op =
    Write_op "byte list"
  | End_op
  | Set_error_op
  | Pop_op size_t
  | Read_op size_t

fun bs_exec :: "bs_op \<Rightarrow> (byte_stream, byte list \<times> size_t) em" where
  "bs_exec (Write_op data) = bindM (bs_write data) (\<lambda>n. returnM ([], n))"
| "bs_exec End_op = seqM (modifyM bs_end_input) (returnM ([], 0))"
| "bs_exec Set_error_op = seqM (modifyM bs_set_error) (returnM ([], 0))"
| "bs_exec (Pop_op n) = seqM (modifyM (bs_pop_output n)) (returnM ([], 0))"
| "bs_exec (Read_op n) = bindM (bs_read n) (\<lambda>out. returnM (out, 0))"

text \<open>
  The streams a client can reach from the constructor with capacity \<open>cap\<close>; \<open>accepted\<close> is the
  number of bytes that \<open>write\<close> has reported as accepted, \<open>w0\<close> the indeterminate first value
  of the counter.
\<close>

inductive bs_reachable :: "nat \<Rightarrow> int \<Rightarrow> nat \<Rightarrow> byte_stream \<Rightarrow> bool" where
  made: "bs_make (of_nat cap) junk r0 w0 = Inr s \<Longrightarrow> bs_reachable cap w0 0 s"
| called: "bs_reachable cap w0 accepted s \<Longrightarrow> bs_exec x s = (Inr (out, n), s') \<Longrightarrow>
     bs_reachable cap w0 (accepted + unat n) s'"

inductive_cases bs_reachableE: "bs_reachable cap w0 accepted s"

text \<open>The same with the bytes that were accepted.\<close>

fun payload_of :: "bs_op \<Rightarrow> byte list" where
  "payload_of (Write_op data) = data"
| "payload_of _ = []"

inductive bs_wrote :: "nat \<Rightarrow> byte list \<Rightarrow> byte_stream \<Rightarrow> bool" where
  made: "bs_make (of_nat cap) junk r0 w0 = Inr s \<Longrightarrow> bs_wrote cap [] s"
| called: "bs_wrote cap data s \<Longrightarrow> bs_exec x s = (Inr (out, n), s') \<Longrightarrow>
     bs_wrote cap (data @ take (unat n) (payload_of x)) s'"

section \<open>Specification: a ring of bytes\<close>

definition bs_wf :: "byte_stream \<Rightarrow> bool" where
  "bs_wf s \<longleftrightarrow> 0 < m_buf_size s \<and> m_buf_size s < 2 ^ 31 \<and> int (length (m_buf s)) = m_buf_size s \<and>
     0 \<le> m_head s \<and> m_head s < m_buf_size s \<and> 0 \<le> m_tail s \<and> m_tail s < m_buf_size s"

definition bs_capacity :: "byte_stream \<Rightarrow> nat" where
  "bs_capacity s = nat (m_buf_size s - 1)"

definition bs_used :: "byte_stream \<Rightarrow> nat" where
  "bs_used s = nat (bs_level s)"

text \<open>The bytes between tail and head, in the order they were written.\<close>

definition bs_contents :: "byte_stream \<Rightarrow> byte list" where
  "bs_contents s = map (\<lambda>i. m_buf s ! nat ((m_tail s + int i) mod m_buf_size s)) [0..<bs_used s]"

text \<open>The array after \<open>data\<close> was written from index 0 on: the current lap around the ring.\<close>

definition bs_lap :: "byte list \<Rightarrow> byte_stream \<Rightarrow> bool" where
  "bs_lap data s \<longleftrightarrow> (let n = nat (m_buf_size s) in m_head s = int (length data mod n) \<and>
     take (length data mod n) (m_buf s) = drop (length data div n * n) data)"

text \<open>What the copy loop leaves alone.\<close>

definition bs_same_frame :: "byte_stream \<Rightarrow> byte_stream \<Rightarrow> bool" where
  "bs_same_frame s s' \<longleftrightarrow> m_tail s' = m_tail s \<and> m_closed s' = m_closed s \<and> m_buf_size s' = m_buf_size s \<and>
     m_error s' = m_error s \<and> m_num_of_r s' = m_num_of_r s \<and> m_num_of_w s' = m_num_of_w s"

section \<open>Lemmas\<close>

lemma bs_buffer_size_zero [simp]: "bs_buffer_size s = 0"
  by (simp add: bs_buffer_size_def)

lemma bs_level_mod: "bs_wf s \<Longrightarrow> bs_level s = (m_head s - m_tail s) mod m_buf_size s"
proof -
  assume wf: "bs_wf s"
  show ?thesis
  proof (cases "m_head s - m_tail s < 0")
    case True
    have "(m_head s - m_tail s) mod m_buf_size s = (m_head s - m_tail s + m_buf_size s) mod m_buf_size s"
      by simp
    also have "\<dots> = m_head s - m_tail s + m_buf_size s"
      using wf True unfolding bs_wf_def by (intro mod_pos_pos_trivial) linarith+
    finally show ?thesis
      using True by (simp add: bs_level_def)
  next
    case False
    then show ?thesis
      using wf unfolding bs_wf_def bs_level_def Let_def by (simp add: mod_pos_pos_trivial)
  qed
qed

lemma bs_used_less: "bs_wf s \<Longrightarrow> int (bs_used s) = bs_level s \<and> int (bs_used s) < m_buf_size s"
  by (simp add: bs_used_def bs_level_mod bs_wf_def)

lemma length_bs_contents [simp]: "length (bs_contents s) = bs_used s"
  by (simp add: bs_contents_def)

lemma bs_contents_frame [simp]:
  "bs_contents (s\<lparr>m_num_of_w := w\<rparr>) = bs_contents s"
  "bs_contents (s\<lparr>m_num_of_r := r\<rparr>) = bs_contents s"
  "bs_contents (s\<lparr>m_error := e\<rparr>) = bs_contents s"
  "bs_contents (s\<lparr>m_closed := c\<rparr>) = bs_contents s"
  by (simp_all add: bs_contents_def bs_used_def bs_level_def Let_def)

lemma head_from_tail: "bs_wf s \<Longrightarrow> (m_tail s + int (bs_used s)) mod m_buf_size s = m_head s"
proof -
  assume wf: "bs_wf s"
  have "(m_tail s + int (bs_used s)) mod m_buf_size s = (m_tail s + (m_head s - m_tail s)) mod m_buf_size s"
    using bs_used_less [OF wf] bs_level_mod [OF wf] by (simp add: mod_add_right_eq)
  then show ?thesis
    using wf by (simp add: bs_wf_def mod_pos_pos_trivial)
qed

lemma ring_index_fresh:
  assumes "bs_wf s" and "i < bs_used s"
  shows "(m_tail s + int i) mod m_buf_size s \<noteq> m_head s"
proof
  assume "(m_tail s + int i) mod m_buf_size s = m_head s"
  then have "(m_tail s + int i) mod m_buf_size s = (m_tail s + int (bs_used s)) mod m_buf_size s"
    using head_from_tail [OF assms(1)] by simp
  then have "m_buf_size s dvd (m_tail s + int (bs_used s)) - (m_tail s + int i)"
    by (metis mod_eq_dvd_iff)
  then have "m_buf_size s dvd int (bs_used s) - int i" by simp
  moreover have "0 < int (bs_used s) - int i" "int (bs_used s) - int i < m_buf_size s"
    using assms bs_used_less [OF assms(1)] by auto
  ultimately show False
    using zdvd_imp_le by fastforce
qed

lemma bs_push_run:
  assumes "bs_wf s"
  shows "bs_push c s = (Inr (), s\<lparr>m_buf := (m_buf s)[nat (m_head s) := c],
    m_head := (m_head s + 1) mod m_buf_size s\<rparr>)"
proof -
  have "(m_head s + 1) mod m_buf_size s = (if m_head s + 1 \<ge> m_buf_size s then 0 else m_head s + 1)"
  proof (cases "m_head s + 1 \<ge> m_buf_size s")
    case True
    then have "m_head s + 1 = m_buf_size s" using assms by (simp add: bs_wf_def)
    then show ?thesis by simp
  next
    case False
    then show ?thesis using assms by (simp add: bs_wf_def mod_pos_pos_trivial)
  qed
  then show ?thesis
    using assms by (simp add: bs_push_def bs_wf_def)
qed

lemma bs_push_wf: "bs_wf s \<Longrightarrow> bs_push c s = (r, s') \<Longrightarrow> bs_wf s'"
  by (auto simp: bs_push_run) (auto simp: bs_wf_def)

lemma bs_push_contents:
  assumes wf: "bs_wf s" and room: "bs_used s < bs_capacity s" and push: "bs_push c s = (r, s')"
  shows "bs_contents s' = bs_contents s @ [c]" and "bs_used s' = Suc (bs_used s)"
proof -
  let ?n = "m_buf_size s"
  have wf': "bs_wf s'" using bs_push_wf [OF wf push] .
  have s': "s' = s\<lparr>m_buf := (m_buf s)[nat (m_head s) := c], m_head := (m_head s + 1) mod ?n\<rparr>"
    using push by (simp add: bs_push_run [OF wf])
  have lvl: "bs_level s' = (bs_level s + 1) mod ?n"
    using wf wf' by (simp add: bs_level_mod) (simp add: s' mod_simps algebra_simps)
  have "bs_level s + 1 < ?n"
    using room bs_used_less [OF wf] unfolding bs_capacity_def by linarith
  then have "bs_level s' = bs_level s + 1"
    using lvl bs_used_less [OF wf] by (simp add: mod_pos_pos_trivial)
  then show used: "bs_used s' = Suc (bs_used s)"
    using bs_used_less [OF wf] bs_used_less [OF wf'] by linarith
  have keep: "m_buf s' ! nat ((m_tail s + int i) mod ?n) = m_buf s ! nat ((m_tail s + int i) mod ?n)"
    if "i < bs_used s" for i
  proof -
    have "0 \<le> (m_tail s + int i) mod ?n" using wf by (simp add: bs_wf_def)
    then show ?thesis
      using ring_index_fresh [OF wf that] wf by (simp add: s' bs_wf_def nat_eq_iff2)
  qed
  have new: "m_buf s' ! nat ((m_tail s + int (bs_used s)) mod ?n) = c"
  proof -
    have "nat (m_head s) < length (m_buf s)" using wf by (simp add: bs_wf_def nat_less_iff)
    then show ?thesis by (simp add: s' head_from_tail [OF wf])
  qed
  have fields: "m_tail s' = m_tail s" "m_buf_size s' = ?n" by (simp_all add: s')
  show "bs_contents s' = bs_contents s @ [c]"
    using keep new by (simp add: bs_contents_def used fields)
qed

lemma bs_push_lap:
  assumes wf: "bs_wf s" and lap: "bs_lap data s" and push: "bs_push c s = (r, s')"
  shows "bs_lap (data @ [c]) s'"
proof -
  define n h q where "n = nat (m_buf_size s)" and "h = length data mod n" and "q = length data div n"
  have n: "0 < n" "length (m_buf s) = n" "m_buf_size s = int n" using wf by (auto simp: n_def bs_wf_def)
  have head: "m_head s = int h" and buf: "take h (m_buf s) = drop (q * n) data"
    using lap by (simp_all add: bs_lap_def Let_def n_def h_def q_def)
  have len: "length data = q * n + h" "h < n" using n(1) by (simp_all add: h_def q_def)
  have s': "s' = s\<lparr>m_buf := (m_buf s)[h := c], m_head := (int h + 1) mod int n\<rparr>"
    using push by (simp add: bs_push_run [OF wf] head n(3))
  show ?thesis
  proof (cases "Suc h < n")
    case True
    have "Suc (q * n + h) mod n = Suc h" "Suc (q * n + h) div n = q"
      using True by (simp_all flip: add_Suc_right)
    moreover have "take (Suc h) ((m_buf s)[h := c]) = take h (m_buf s) @ [c]"
      using len(2) n(2) by (simp add: take_Suc_conv_app_nth)
    moreover have "drop (q * n) (data @ [c]) = drop (q * n) data @ [c]" using len(1) by simp
    moreover have "(int h + 1) mod int n = int (Suc h)"
      using True by simp
    ultimately show ?thesis
      using len(1) buf by (simp add: bs_lap_def s' n(3))
  next
    case False
    then have h: "Suc h = n" using len(2) by simp
    then have "Suc (length data) = Suc q * n" using len(1) by simp
    then have "Suc (length data) mod n = 0" "Suc (length data) div n * n = Suc (length data)"
      using n(1) by simp_all
    moreover have "(int h + 1) mod int n = 0" unfolding h [symmetric] by (simp add: add.commute)
    ultimately show ?thesis by (simp add: bs_lap_def s' n(3) Let_def)
  qed
qed

lemma bs_write_loop_lap:
  "bs_wf s \<Longrightarrow> bs_lap data s \<Longrightarrow> bs_write_loop cs s = (Inr (), s') \<Longrightarrow> bs_lap (data @ cs) s'"
proof (induction cs arbitrary: s data)
  case (Cons c cs)
  obtain s1 where s1: "bs_push c s = (Inr (), s1)" using bs_push_run [OF Cons.prems(1)] by blast
  then have "bs_write_loop cs s1 = (Inr (), s')" using Cons.prems(3) by (simp add: em_simps)
  with Cons.IH [OF bs_push_wf [OF Cons.prems(1) s1] bs_push_lap [OF Cons.prems(1,2) s1]] show ?case by simp
qed (simp add: em_simps)

lemma bs_lap_contents:
  assumes "bs_wf s" and "m_tail s = 0" and "bs_lap data s"
  shows "bs_contents s = drop (length data div nat (m_buf_size s) * nat (m_buf_size s)) data"
proof -
  let ?n = "nat (m_buf_size s)" and ?h = "length data mod nat (m_buf_size s)"
  have h: "m_head s = int ?h" "take ?h (m_buf s) = drop (length data div ?n * ?n) data"
    using assms(3) by (simp_all add: bs_lap_def Let_def)
  have used: "bs_used s = ?h" using h(1) assms(2) by (simp add: bs_used_def bs_level_def)
  have less: "?h < ?n" "length (m_buf s) = ?n" "0 < m_buf_size s" using assms(1) by (auto simp: bs_wf_def)
  have "m_buf s ! nat ((m_tail s + int i) mod m_buf_size s) = m_buf s ! i" if "i < ?h" for i
  proof -
    have "int i < m_buf_size s" using that less by linarith
    then show ?thesis using assms(2) by (simp add: mod_pos_pos_trivial)
  qed
  then have "bs_contents s = map ((!) (m_buf s)) [0..<?h]"
    by (simp add: bs_contents_def used)
  also have "\<dots> = take ?h (m_buf s)" using less by (intro nth_equalityI) simp_all
  finally show ?thesis by (simp add: h(2))
qed

lemma bs_capacity_frame: "bs_same_frame s s' \<Longrightarrow> bs_capacity s' = bs_capacity s"
  by (simp add: bs_same_frame_def bs_capacity_def)

lemma bs_write_loop_run:
  assumes "bs_wf s"
  shows "\<exists>s'. bs_write_loop cs s = (Inr (), s') \<and> bs_wf s' \<and> bs_same_frame s s' \<and>
    m_head s' = (m_head s + int (length cs)) mod m_buf_size s \<and>
    (bs_used s + length cs \<le> bs_capacity s \<longrightarrow> bs_contents s' = bs_contents s @ cs)"
  using assms
proof (induction cs arbitrary: s)
  case Nil
  then show ?case by (simp add: em_simps bs_same_frame_def bs_wf_def mod_pos_pos_trivial)
next
  case (Cons c cs)
  obtain s1 where s1: "bs_push c s = (Inr (), s1)" "m_head s1 = (m_head s + 1) mod m_buf_size s" "bs_same_frame s s1"
    using bs_push_run [OF Cons.prems, of c] by (auto simp: bs_same_frame_def)
  have wf1: "bs_wf s1" using bs_push_wf [OF Cons.prems s1(1)] .
  obtain s2 where s2: "bs_write_loop cs s1 = (Inr (), s2)" "bs_wf s2" "bs_same_frame s1 s2"
      "m_head s2 = (m_head s1 + int (length cs)) mod m_buf_size s1"
      "bs_used s1 + length cs \<le> bs_capacity s1 \<longrightarrow> bs_contents s2 = bs_contents s1 @ cs"
    using Cons.IH [OF wf1] by blast
  have "m_head s2 = (m_head s + int (length (c # cs))) mod m_buf_size s"
    using s2(4) s1(2,3) by (simp add: bs_same_frame_def mod_simps algebra_simps)
  moreover have "bs_contents s2 = bs_contents s @ c # cs" if "bs_used s + length (c # cs) \<le> bs_capacity s"
    using s2(5) bs_push_contents [OF Cons.prems _ s1(1)] bs_capacity_frame [OF s1(3)] that by simp
  moreover have "bs_same_frame s s2"
    using s1(3) s2(3) by (simp add: bs_same_frame_def)
  ultimately show ?case
    using s1(1) s2(1,2) by (simp add: em_simps)
qed

lemma narrow_int_wrap:
  assumes "2 ^ 31 \<le> n" and "n < 2 ^ 32"
  shows "narrow_int (int n) = int n - 2 ^ 32"
proof -
  have "(int n + 2 ^ 31) mod 2 ^ 32 = ((int n - 2 ^ 31) + 2 ^ 32) mod 2 ^ 32" by (simp add: add.commute)
  also have "\<dots> = int n - 2 ^ 31" unfolding mod_add_self2 using assms by (intro mod_pos_pos_trivial) simp_all
  finally show ?thesis by (simp add: narrow_int_def signed_take_bit_eq_take_bit_shift take_bit_eq_mod)
qed

lemma mod_pos_neg_wrap: "- b \<le> a \<Longrightarrow> a < 0 \<Longrightarrow> a mod b = a + (b :: int)"
  using mod_add_self2 [of a b] mod_pos_pos_trivial [of "a + b" b] by simp

text \<open>Sign extension of an \<open>int\<close> to \<open>size_t\<close>, and when a wrapped sum is one of its summands.\<close>

lemma unat_sign_extended:
  assumes "- (2 ^ 31) \<le> v" and "v < 2 ^ 31"
  shows "int (unat (size_of_int v)) = (if v < 0 then v + 2 ^ 64 else v)"
proof -
  have "int (unat (size_of_int v)) = v mod 2 ^ 64"
    unfolding size_of_int_def uint_nat [symmetric] by (simp add: uint_word_of_int_eq take_bit_eq_mod)
  then show ?thesis
    using assms mod_pos_neg_wrap [of "2 ^ 64" v] mod_pos_pos_trivial [of v "2 ^ 64"] by auto
qed

lemma narrow_int_fixed:
  assumes w: "- (2 ^ 31) \<le> w" "w < 2 ^ 31" and n: "n < (2 ^ 31 :: nat)"
  shows "narrow_int (w + int n) = int n \<longleftrightarrow> w = 0"
proof
  let ?k = "(w + int n + 2 ^ 31) div 2 ^ 32"
  assume eq: "narrow_int (w + int n) = int n"
  have "narrow_int (w + int n) = (w + int n + 2 ^ 31) mod 2 ^ 32 - 2 ^ 31"
    by (simp add: narrow_int_def signed_take_bit_eq_take_bit_shift take_bit_eq_mod)
  then have "w = 2 ^ 32 * ?k"
    unfolding eq using mult_div_mod_eq [of "2 ^ 32" "w + int n + 2 ^ 31"] by linarith
  then have "2 ^ 32 dvd w" by (rule dvdI)
  moreover have "\<bar>w\<bar> < 2 ^ 32" using w by (simp add: abs_less_iff)
  ultimately show "w = 0" using zdvd_not_zless [of "\<bar>w\<bar>" "2 ^ 32"] by fastforce
qed (use n in \<open>simp add: narrow_int_id\<close>)

lemma bs_remaining_capacity_eq: "bs_wf s \<Longrightarrow> unat (bs_remaining_capacity s) = bs_capacity s"
  by (simp add: bs_remaining_capacity_def bs_capacity_def bs_wf_def unat_size_of_int)

lemma bs_write_refused:
  "m_closed s \<or> m_error s \<Longrightarrow> bs_write data s = (Inr 0, s\<lparr>m_error := True\<rparr>)"
  by (auto simp: bs_write_def bs_set_error_def)

lemma bs_write_open:
  assumes wf: "bs_wf s" and "open": "\<not> m_closed s" "\<not> m_error s"
    and n: "n = min (unat (size_of data)) (bs_capacity s)"
  shows "\<exists>s'. bs_write data s = (Inr (of_nat n), s') \<and> bs_wf s' \<and> n \<le> length data \<and>
    m_tail s' = m_tail s \<and> m_buf_size s' = m_buf_size s \<and> \<not> m_closed s' \<and> \<not> m_error s' \<and>
    m_num_of_r s' = m_num_of_r s \<and> m_num_of_w s' = narrow_int (m_num_of_w s + int n) \<and>
    m_head s' = (m_head s + int n) mod m_buf_size s \<and>
    (bs_used s + n \<le> bs_capacity s \<longrightarrow> bs_contents s' = bs_contents s @ take n data)"
proof -
  let ?w = "if size_of data > bs_remaining_capacity s then bs_remaining_capacity s else size_of data"
  have w: "unat ?w = n"
    using bs_remaining_capacity_eq [OF wf] n by (auto simp: word_less_nat_alt)
  then have w_eq: "?w = of_nat n"
    by (auto simp flip: w)
  have un: "unat (of_nat n :: size_t) = n"
    using w w_eq by metis
  have le: "n \<le> length data"
    using n by (simp add: size_of_def unat_of_nat)
  obtain s1 where s1: "bs_write_loop (take n data) s = (Inr (), s1)" "bs_wf s1" "bs_same_frame s s1"
      "m_head s1 = (m_head s + int n) mod m_buf_size s"
      "bs_used s + n \<le> bs_capacity s \<longrightarrow> bs_contents s1 = bs_contents s @ take n data"
    using bs_write_loop_run [OF wf, of "take n data"] le by (auto simp: min_absorb2)
  let ?s' = "s1\<lparr>m_num_of_w := int_of_size (size_of_int (m_num_of_w s1) + of_nat n)\<rparr>"
  have run: "bs_write data s = (Inr (of_nat n), ?s')"
    using "open" s1(1) un by (simp only: bs_write_def Let_def w_eq) simp
  have "bs_wf ?s'" "bs_contents ?s' = bs_contents s1"
    using s1(2) by (simp_all add: bs_wf_def)
  then show ?thesis
    using run s1(3-5) "open" le un by (simp add: bs_same_frame_def int_of_size_add)
qed

lemma bs_pop_run:
  assumes "bs_wf s"
  shows "bs_pop_output len s = (if m_error s then s else s\<lparr>m_num_of_r := narrow_int (m_num_of_r s)\<rparr>)"
proof -
  have "(if len > 0 then 0 else len) = (0 :: size_t)"
    using word_neq_0_conv [of len] by auto
  moreover have "int_of_size (size_of_int (m_tail s) + 0) = m_tail s"
    using assms by (simp only: int_of_size_add) (simp add: bs_wf_def narrow_int_id)
  moreover have "int_of_size (size_of_int (m_num_of_r s) + 0) = narrow_int (m_num_of_r s)"
    by (simp only: int_of_size_add) simp
  moreover have "\<not> m_tail s \<ge> m_buf_size s"
    using assms by (simp add: bs_wf_def)
  ultimately show ?thesis
    by (simp only: bs_pop_output_def Let_def bs_buffer_size_zero) simp
qed

lemma bs_peek_empty: "bs_peek_output len s = Inr []"
proof -
  have "(if len > 0 then 0 else len) = (0 :: size_t)"
    using word_neq_0_conv [of len] by auto
  then show ?thesis
    by (simp only: bs_peek_output_def Let_def bs_buffer_size_zero) simp
qed

lemma bs_read_run: "bs_read len s = (Inr [], bs_pop_output len s)"
  by (simp add: bs_read_def em_simps bs_peek_empty)

lemma bs_make_run:
  assumes "cap + 1 < 2 ^ 31"
  shows "\<exists>s. bs_make (of_nat cap) junk r0 w0 = Inr s \<and> bs_wf s \<and> bs_capacity s = cap \<and> m_head s = 0 \<and>
    m_tail s = 0 \<and> \<not> m_closed s \<and> \<not> m_error s \<and> m_num_of_w s = w0"
proof -
  have "unat (of_nat (Suc cap) :: size_t) = Suc cap"
    using assms by (subst unat_of_nat) simp
  then have "unat (of_nat cap + 1 :: size_t) = Suc cap"
    by (simp add: add.commute)
  then have sz: "int_of_size (of_nat cap + 1) = int (Suc cap)"
    using assms by (subst int_of_size_small) simp_all
  then show ?thesis
    using assms by (auto simp: bs_make_def Let_def bs_wf_def bs_capacity_def)
qed

text \<open>Every call of a client on a well-formed stream returns, and changes head and counters by
  the accepted bytes only.\<close>

lemma bs_exec_run:
  assumes wf: "bs_wf s"
  shows "\<exists>out n s'. bs_exec x s = (Inr (out, n), s') \<and> bs_wf s' \<and> m_tail s' = m_tail s \<and>
    m_buf_size s' = m_buf_size s \<and> out = [] \<and> m_head s' = (m_head s + int (unat n)) mod m_buf_size s \<and>
    (narrow_int (m_num_of_w s) = m_num_of_w s \<longrightarrow> m_num_of_w s' = narrow_int (m_num_of_w s + int (unat n))) \<and>
    (m_closed s \<longrightarrow> m_closed s') \<and> (m_error s \<longrightarrow> m_error s') \<and> unat n \<le> bs_capacity s"
proof (cases x)
  case (Write_op data)
  show ?thesis
  proof (cases "m_closed s \<or> m_error s")
    case True
    then show ?thesis
      using wf by (auto simp: Write_op em_simps bs_write_refused bs_wf_def)
  next
    case False
    let ?n = "min (unat (size_of data)) (bs_capacity s)"
    have "?n < 2 ^ 64"
      using unsigned_less [of "size_of data", where 'a = nat] by simp
    then have u: "unat (of_nat ?n :: size_t) = ?n"
      by (simp add: unat_of_nat)
    then have "uint (of_nat ?n :: size_t) = int ?n"
      by (simp only: uint_nat)
    with u False show ?thesis
      using bs_write_open [OF wf _ _ refl, of data]
      by (auto simp: Write_op em_simps)
  qed
next
  case End_op
  then show ?thesis using wf by (auto simp: em_simps bs_end_input_def bs_wf_def)
next
  case Set_error_op
  then show ?thesis using wf by (auto simp: em_simps bs_set_error_def bs_wf_def)
next
  case (Pop_op k)
  then show ?thesis using wf by (auto simp: em_simps bs_pop_run bs_wf_def)
next
  case (Read_op k)
  then show ?thesis using wf by (auto simp: em_simps bs_read_run bs_pop_run bs_wf_def)
qed

interpretation stream: total_system bs_exec bs_wf
  using bs_exec_run by unfold_locales blast

lemma bs_reachable_inv:
  assumes "bs_reachable cap w0 accepted s" and "cap + 1 < 2 ^ 31"
  shows "bs_wf s \<and> m_tail s = 0 \<and> bs_capacity s = cap \<and> m_head s = int accepted mod int (cap + 1) \<and>
    (narrow_int w0 = w0 \<longrightarrow> m_num_of_w s = narrow_int (w0 + int accepted))"
  using assms
proof (induction rule: bs_reachable.induct)
  case (made cap junk r0 w0 s)
  then show ?case using bs_make_run [of cap junk r0 w0] by auto
next
  case (called cap w0 accepted s x out n s')
  then have inv: "bs_wf s" "m_tail s = 0" "bs_capacity s = cap" "m_head s = int accepted mod int (cap + 1)"
    "narrow_int w0 = w0 \<longrightarrow> m_num_of_w s = narrow_int (w0 + int accepted)" by auto
  have size: "m_buf_size s = int (cap + 1)"
    using inv(1,3) by (auto simp: bs_capacity_def bs_wf_def)
  have step: "bs_wf s'" "m_tail s' = 0" "m_buf_size s' = m_buf_size s"
    "m_head s' = (m_head s + int (unat n)) mod m_buf_size s"
    "narrow_int (m_num_of_w s) = m_num_of_w s \<longrightarrow> m_num_of_w s' = narrow_int (m_num_of_w s + int (unat n))"
    using bs_exec_run [OF inv(1), of x] called.hyps(2) inv(2) by auto
  have "m_num_of_w s' = narrow_int (w0 + int (accepted + unat n))" if "narrow_int w0 = w0"
    using step(5) inv(5) that narrow_int_add [of "w0 + int accepted" "int (unat n)"]
      narrow_int_add [of "w0 + int accepted" 0]
    by (simp add: add.assoc)
  moreover have "m_head s' = int (accepted + unat n) mod int (cap + 1)"
    using step(4) inv(4) size by (simp add: mod_simps)
  moreover have "bs_capacity s' = cap"
    using inv(3) step(3) by (simp add: bs_capacity_def)
  ultimately show ?case
    using step(1,2) by simp
qed

lemma bs_exec_lap:
  assumes wf: "bs_wf s" and lap: "bs_lap data s" and run: "bs_exec x s = (Inr (out, n), s')"
  shows "bs_lap (data @ take (unat n) (payload_of x)) s'"
proof (cases x)
  case (Write_op d)
  show ?thesis
  proof (cases "m_closed s \<or> m_error s")
    case True
    then show ?thesis using lap run by (auto simp: Write_op em_simps bs_write_refused bs_lap_def)
  next
    case False
    then obtain s1 where "bs_write_loop (take (unat n) d) s = (Inr (), s1)" "s' = s1\<lparr>m_num_of_w := m_num_of_w s'\<rparr>"
      using run by (auto simp: Write_op em_simps bs_write_def Let_def split: prod.splits sum.splits)
    then show ?thesis
      using bs_write_loop_lap [OF wf lap, of "take (unat n) d" s1] by (cases s1; cases s') (auto simp: Write_op bs_lap_def)
  qed
qed (use wf lap run in \<open>auto simp: em_simps bs_end_input_def bs_set_error_def bs_read_run bs_pop_run bs_lap_def split: if_splits\<close>)

lemma bs_wrote_inv:
  assumes "bs_wrote cap data s" and "cap + 1 < 2 ^ 31"
  shows "bs_wf s \<and> m_tail s = 0 \<and> m_buf_size s = int (cap + 1) \<and> bs_lap data s"
  using assms
proof (induction rule: bs_wrote.induct)
  case (made cap junk r0 w0 s)
  then show ?case using bs_make_run [of cap junk r0 w0] by (auto simp: bs_lap_def bs_capacity_def bs_wf_def)
next
  case (called cap data s x out n s')
  then have inv: "bs_wf s" "m_tail s = 0" "m_buf_size s = int (cap + 1)" "bs_lap data s" by auto
  then show ?case
    using bs_exec_run [OF inv(1), of x] bs_exec_lap [OF inv(1,4) called.hyps(2)] called.hyps(2) by auto
qed

lemma bs_fresh_write:
  assumes "cap + 1 < 2 ^ 31"
  shows "\<exists>s. bs_make (of_nat cap) junk r0 w0 = Inr s \<and> bs_reachable cap w0 0 s \<and> bs_wf s"
  using bs_make_run [OF assms, of junk r0 w0] bs_reachable.made by blast

section \<open>Properties\<close>

text \<open>C20. Memory safety: on a stream of capacity below \<open>INT_MAX\<close>, no sequence of calls indexes the
  array or a string out of bounds or throws; head, tail and array size stay consistent,
  and the capacity never changes.\<close>

theorem byte_stream_safe:
  assumes "bs_reachable cap w0 accepted s" and "cap + 1 < 2 ^ 31"
  shows "bs_wf s \<and> bs_capacity s = cap \<and>
    (\<forall>x. \<exists>out n s'. bs_exec x s = (Inr (out, n), s') \<and> unat n \<le> cap) \<and>
    (\<forall>xs. \<exists>outs s'. run_ops bs_exec xs s = (Inr outs, s') \<and> bs_wf s' \<and> length outs = length xs)"
proof -
  note inv = bs_reachable_inv [OF assms]
  then have wf: "bs_wf s" by blast
  have "\<exists>out n s'. bs_exec x s = (Inr (out, n), s') \<and> unat n \<le> cap" for x
    using bs_exec_run [OF wf, of x] inv by auto
  with inv stream.run_total [OF wf] show ?thesis by blast
qed

theorem byte_stream_safe_witness:
  "\<exists>s. bs_reachable 2 0 0 s \<and> bs_wf s \<and> bs_capacity s = 2"
proof -
  obtain s where s: "bs_reachable 2 0 0 s"
    using bs_fresh_write [of 2 "\<lambda>_. 0" 0 0] by auto
  then show ?thesis using byte_stream_safe [OF s] by auto
qed

text \<open>C4. The copy loop of \<open>write\<close> is a correct ring-buffer append: when the new bytes fit beside the
  bytes between tail and head, they are all accepted, the ring then holds the old bytes
  followed by the new ones in order (wherever the indices wrap), and the fill level grows
  by their number.\<close>

theorem byte_stream_write_appends:
  assumes "bs_wf s" and "\<not> m_closed s" and "\<not> m_error s"
    and "fits data" and "bs_used s + length data \<le> bs_capacity s"
  shows "\<exists>s'. bs_write data s = (Inr (size_of data), s') \<and> bs_wf s' \<and>
    bs_contents s' = bs_contents s @ data \<and> bs_used s' = bs_used s + length data"
proof -
  have n: "length data = min (unat (size_of data)) (bs_capacity s)"
    using assms(4,5) by simp
  obtain s' where s': "bs_write data s = (Inr (of_nat (length data)), s')" "bs_wf s'"
      "bs_contents s' = bs_contents s @ data"
    using bs_write_open [OF assms(1-3) n] assms(5) by auto
  then have "bs_used s' = bs_used s + length data"
    by (metis length_append length_bs_contents)
  with s' show ?thesis
    by (auto simp: size_of_def)
qed

theorem byte_stream_write_appends_witness:
  "\<exists>s s'. bs_wf s \<and> bs_write [99, 97] s = (Inr 2, s') \<and> bs_contents s' = [99, 97]"
proof -
  obtain s where s: "bs_wf s" "bs_capacity s = 2" "m_head s = 0" "m_tail s = 0" "\<not> m_closed s" "\<not> m_error s"
    using bs_make_run [of 2 "\<lambda>_. 0" 0 0] by auto
  then have u: "bs_used s = 0" and c: "bs_contents s = []"
    by (simp_all add: bs_used_def bs_level_def bs_contents_def)
  have f: "fits [99, 97 :: byte]" by (simp add: fits_def)
  show ?thesis
    using byte_stream_write_appends [OF s(1,5,6) f] s u c by (auto simp: size_of_def)
qed

text \<open>C12. What is written can never be read back. After any calls, of which \<open>data\<close> are the bytes that \<open>write\<close>
  accepted, the array holds between tail and head exactly the bytes of the current lap around
  the ring (all of \<open>data\<close> as long as they are at most \<open>capacity\<close>; a full lap of \<open>capacity + 1\<close> bytes makes
  the ring look empty). Yet \<open>buffer_size()\<close> is 0, \<open>peek_output\<close> and \<open>read\<close> return the empty string and
  no read takes any of them away.\<close>

theorem byte_stream_never_delivers:
  assumes "bs_wrote cap data s" and "cap + 1 < 2 ^ 31"
  shows "bs_contents s = drop (length data div (cap + 1) * (cap + 1)) data \<and> (length data \<le> cap \<longrightarrow> bs_contents s = data) \<and>
    bs_buffer_size s = 0 \<and> bs_peek_output len s = Inr [] \<and>
    (\<exists>s'. bs_read len s = (Inr [], s') \<and> bs_wrote cap data s' \<and> bs_contents s' = bs_contents s)"
proof -
  note inv = bs_wrote_inv [OF assms]
  then have wf: "bs_wf s" by blast
  have "nat (m_buf_size s) = cap + 1" using inv by simp
  then have ring: "bs_contents s = drop (length data div (cap + 1) * (cap + 1)) data"
    using bs_lap_contents [of s data] inv by simp
  have "bs_exec (Read_op len) s = (Inr ([], 0), bs_pop_output len s)"
    by (simp add: em_simps bs_read_run)
  from bs_wrote.called [OF assms(1) this] have "bs_wrote cap data (bs_pop_output len s)" by simp
  moreover have "bs_contents (bs_pop_output len s) = bs_contents s"
    using wf by (simp add: bs_pop_run)
  ultimately show ?thesis
    using ring by (simp add: bs_peek_empty bs_read_run)
qed

theorem byte_stream_never_delivers_witness:
  "\<exists>s. bs_wrote 15 [99, 97, 116] s \<and> bs_contents s = [99, 97, 116] \<and> bs_buffer_size s = 0 \<and>
     bs_peek_output 3 s = Inr []"
proof -
  let ?d = "[99, 97, 116 :: byte]"
  obtain s where s: "bs_make (of_nat 15) (\<lambda>_. 0) 0 0 = Inr s" "bs_wf s" "bs_capacity s = 15" "\<not> m_closed s" "\<not> m_error s"
    using bs_make_run [of 15 "\<lambda>_. 0" 0 0] by auto
  have "3 = min (unat (size_of ?d)) (bs_capacity s)"
    using s(3) by (simp add: fits_def)
  then obtain s' where "bs_write ?d s = (Inr (of_nat 3), s')"
    using bs_write_open [OF s(2,4,5)] by blast
  then have "bs_exec (Write_op ?d) s = (Inr ([], of_nat 3), s')"
    by (simp add: em_simps)
  from bs_wrote.called [OF bs_wrote.made [OF s(1)] this] have r: "bs_wrote 15 ?d s'"
    by simp
  show ?thesis
    using r byte_stream_never_delivers [OF r, of 3] by auto
qed

text \<open>C34. There is no flow control: \<open>remaining_capacity()\<close> is the full capacity in every reachable
  stream, whatever is still unread, so every \<open>write\<close> on an open stream accepts
  \<open>min(size, capacity)\<close> bytes again.\<close>

theorem byte_stream_no_flow_control:
  assumes "bs_reachable cap w0 accepted s" and "cap + 1 < 2 ^ 31"
    and "\<not> m_closed s" and "\<not> m_error s" and "fits data"
  shows "unat (bs_remaining_capacity s) = cap \<and>
    fst (bs_write data s) = Inr (of_nat (min (length data) cap))"
proof -
  note inv = bs_reachable_inv [OF assms(1,2)]
  have n: "min (length data) cap = min (unat (size_of data)) (bs_capacity s)"
    using assms(5) inv by simp
  show ?thesis
    using bs_write_open [OF _ assms(3,4) n] bs_remaining_capacity_eq [of s] inv by auto
qed

theorem byte_stream_no_flow_control_witness:
  "\<exists>s s1. bs_write [99, 97] s = (Inr 2, s1) \<and> bs_used s1 = 2 \<and> bs_capacity s1 = 2 \<and>
     fst (bs_write [116] s1) = Inr 1"
proof -
  obtain s where s: "bs_make (of_nat 2) (\<lambda>_. 0) 0 0 = Inr s" "bs_wf s" "bs_capacity s = 2" "m_head s = 0"
      "m_tail s = 0" "\<not> m_closed s" "\<not> m_error s"
    using bs_make_run [of 2 "\<lambda>_. 0" 0 0] by auto
  have z: "bs_used s = 0"
    using s by (simp add: bs_used_def bs_level_def)
  have f: "fits [99, 97 :: byte]" "fits [116 :: byte]" by (simp_all add: fits_def)
  have n: "2 = min (unat (size_of [99, 97 :: byte])) (bs_capacity s)"
    using f s(3) by simp
  obtain s1 where w: "bs_write [99, 97] s = (Inr (of_nat 2), s1)" "\<not> m_closed s1" "\<not> m_error s1"
      "bs_contents s1 = bs_contents s @ [99, 97]"
    using bs_write_open [OF s(2,6,7) n] z s(3) by auto
  have "bs_exec (Write_op [99, 97]) s = (Inr ([], of_nat 2), s1)"
    using w(1) by (simp add: em_simps)
  from bs_reachable.called [OF bs_reachable.made [OF s(1)] this] have r: "bs_reachable 2 0 2 s1"
    by (simp flip: numeral_2_eq_2)
  have "bs_used s1 = 2"
    using w(4) z length_bs_contents [of s1] length_bs_contents [of s] by (simp del: length_bs_contents)
  moreover have "bs_capacity s1 = 2"
    using bs_reachable_inv [OF r] by simp
  ultimately show ?thesis
    using w(1) byte_stream_no_flow_control [OF r _ w(2,3) f(2)] by auto
qed

text \<open>C35. \<open>eof()\<close> holds in a reachable stream exactly when the input has ended and the number of
  accepted bytes is a multiple of \<open>capacity + 1\<close>; the bytes read do not matter.\<close>

theorem byte_stream_eof:
  assumes "bs_reachable cap w0 accepted s" and "cap + 1 < 2 ^ 31"
  shows "bs_eof s \<longleftrightarrow> bs_input_ended s \<and> (cap + 1) dvd accepted"
proof -
  note inv = bs_reachable_inv [OF assms]
  have "m_head s = int (accepted mod (cap + 1))"
    using inv by (simp add: zmod_int)
  then have "m_head s = 0 \<longleftrightarrow> (cap + 1) dvd accepted"
    by (simp add: dvd_eq_mod_eq_0)
  then show ?thesis
    using inv by (auto simp: bs_eof_def bs_buffer_empty_def)
qed

theorem byte_stream_eof_witness:
  "\<exists>s. bs_reachable 4 0 0 s \<and> bs_eof s"
proof -
  obtain s0 where s0: "bs_reachable 4 0 0 s0"
    using bs_fresh_write [of 4 "\<lambda>_. 0" 0 0] by auto
  have "bs_exec End_op s0 = (Inr ([], 0), bs_end_input s0)"
    by (simp add: em_simps)
  from bs_reachable.called [OF s0 this] have r: "bs_reachable 4 0 0 (bs_end_input s0)"
    by simp
  then show ?thesis
    using byte_stream_eof [OF r] by (auto simp: bs_input_ended_def bs_end_input_def)
qed

text \<open>C36. \<open>bytes_written()\<close> is the number of accepted bytes added to the counter's indeterminate first
  value \<open>w0\<close>, wrapped to a signed 32-bit number and then sign-extended to \<open>size_t\<close>. It is the number of
  bytes accepted exactly if the counter happened to start at 0, up to \<open>INT_MAX\<close> bytes; one byte
  more and it is 2 to the 64 minus 2 to the 31.\<close>

theorem byte_stream_bytes_written:
  assumes "bs_reachable cap w0 accepted s" and "cap + 1 < 2 ^ 31" and "narrow_int w0 = w0"
  shows "int (unat (bs_bytes_written s)) = (let v = narrow_int (w0 + int accepted) in if v < 0 then v + 2 ^ 64 else v) \<and>
    (accepted < 2 ^ 31 \<longrightarrow> (unat (bs_bytes_written s) = accepted \<longleftrightarrow> w0 = 0)) \<and>
    (w0 + int accepted = 2 ^ 31 \<longrightarrow> unat (bs_bytes_written s) = 2 ^ 64 - 2 ^ 31)"
proof -
  let ?v = "narrow_int (w0 + int accepted)" and ?b = "int (unat (bs_bytes_written s))"
  have w0: "- (2 ^ 31) \<le> w0" "w0 < 2 ^ 31" and v: "- (2 ^ 31) \<le> ?v" "?v < 2 ^ 31"
    using narrow_int_range [of w0] narrow_int_range [of "w0 + int accepted"] assms(3) by simp_all
  have "m_num_of_w s = ?v" using bs_reachable_inv [OF assms(1,2)] assms(3) by simp
  then have b: "?b = (if ?v < 0 then ?v + 2 ^ 64 else ?v)"
    using unat_sign_extended [OF v] by (simp only: bs_bytes_written_def)
  have "unat (bs_bytes_written s) = accepted \<longleftrightarrow> w0 = 0" if small: "accepted < 2 ^ 31"
  proof -
    have "?b = int accepted \<longleftrightarrow> ?v = int accepted" unfolding b using v(1) small by auto
    then show ?thesis unfolding narrow_int_fixed [OF w0 small] by (simp only: of_nat_eq_iff)
  qed
  moreover have "unat (bs_bytes_written s) = 2 ^ 64 - 2 ^ 31" if "w0 + int accepted = 2 ^ 31"
  proof -
    have "?b = int (2 ^ 64 - 2 ^ 31)" unfolding b that using narrow_int_wrap [of "2 ^ 31"] by simp
    then show ?thesis by (simp only: of_nat_eq_iff)
  qed
  ultimately show ?thesis using b unfolding Let_def by blast
qed

theorem byte_stream_bytes_written_witness:
  "\<exists>s. bs_reachable 15 2147483645 3 s \<and> unat (bs_bytes_written s) = 18446744071562067968"
proof -
  let ?d = "[99, 97, 116 :: byte]"
  obtain s where s: "bs_make (of_nat 15) (\<lambda>_. 0) 0 2147483645 = Inr s" "bs_wf s" "bs_capacity s = 15" "\<not> m_closed s" "\<not> m_error s"
    using bs_make_run [of 15 "\<lambda>_. 0" 0 2147483645] by auto
  have "3 = min (unat (size_of ?d)) (bs_capacity s)"
    using s(3) by (simp add: fits_def)
  then obtain s' where "bs_write ?d s = (Inr (of_nat 3), s')"
    using bs_write_open [OF s(2,4,5)] by blast
  then have "bs_exec (Write_op ?d) s = (Inr ([], of_nat 3), s')"
    by (simp add: em_simps)
  from bs_reachable.called [OF bs_reachable.made [OF s(1)] this] have r: "bs_reachable 15 2147483645 3 s'"
    by simp
  show ?thesis
    using r byte_stream_bytes_written [OF r] by (auto simp: narrow_int_id)
qed

text \<open>C37. The writer's contract at the end of input: once \<open>end_input\<close> (or \<open>set_error\<close>) has been called on a
  stream, then after any further calls \<open>input_ended()\<close> (or \<open>error()\<close>) still holds, nothing has been
  accepted and the ring is unchanged, and the next \<open>write\<close> returns 0 and changes nothing but
  the error flag, which it raises.\<close>

theorem byte_stream_closed_is_final:
  assumes "bs_wf s"
  shows "\<exists>outs s'. run_ops bs_exec (x # xs) s = (Inr outs, s') \<and>
    (x = End_op \<longrightarrow> bs_input_ended s') \<and> (x = Set_error_op \<longrightarrow> bs_get_error s') \<and>
    (x = End_op \<or> x = Set_error_op \<longrightarrow> (\<forall>(out, n) \<in> set outs. n = 0) \<and> bs_contents s' = bs_contents s \<and>
       bs_write data s' = (Inr 0, s'\<lparr>m_error := True\<rparr>))"
proof -
  have step: "n = 0 \<and> bs_wf s' \<and> (m_closed s \<longrightarrow> m_closed s') \<and> (m_error s \<longrightarrow> m_error s') \<and> bs_contents s' = bs_contents s"
    if "bs_wf s" "m_closed s \<or> m_error s" "bs_exec y s = (Inr (out, n), s')" for y out n s s'
    using that bs_exec_run [OF that(1), of y]
    by (cases y) (auto simp: em_simps bs_write_refused bs_end_input_def bs_set_error_def bs_read_run bs_pop_run)
  have rest: "(\<forall>(out, n) \<in> set outs. n = 0) \<and> (m_closed s \<longrightarrow> m_closed s') \<and> (m_error s \<longrightarrow> m_error s') \<and> bs_contents s' = bs_contents s"
    if "bs_wf s" "m_closed s \<or> m_error s" "run_ops bs_exec ys s = (Inr outs, s')" for ys outs s s'
    using that
  proof (induction ys arbitrary: s outs)
    case (Cons y ys)
    then obtain out n s1 os where 1: "bs_exec y s = (Inr (out, n), s1)" "run_ops bs_exec ys s1 = (Inr os, s')" "outs = (out, n) # os"
      by (auto simp: em_simps split: prod.splits sum.splits)
    with step [OF Cons.prems(1,2) 1(1)] Cons.IH [of s1 os] Cons.prems(2) show ?case by auto
  qed (simp add: em_simps)
  obtain outs s' where run: "run_ops bs_exec (x # xs) s = (Inr outs, s')"
    using stream.run_total [OF assms, of "x # xs"] by blast
  have "bs_wf (bs_end_input s)" "bs_wf (bs_set_error s)" "bs_contents (bs_end_input s) = bs_contents s"
      "bs_contents (bs_set_error s) = bs_contents s"
    using assms by (simp_all add: bs_wf_def bs_end_input_def bs_set_error_def)
  note ends = this
  have End: "bs_input_ended s' \<and> (\<forall>(out, n) \<in> set outs. n = 0) \<and> bs_contents s' = bs_contents s" if x: "x = End_op"
  proof -
    obtain os where "run_ops bs_exec xs (bs_end_input s) = (Inr os, s')" "outs = ([], 0) # os"
      using run by (auto simp: x em_simps split: prod.splits sum.splits)
    with rest [OF ends(1)] ends(3) show ?thesis by (auto simp: bs_end_input_def bs_input_ended_def)
  qed
  have Err: "bs_get_error s' \<and> (\<forall>(out, n) \<in> set outs. n = 0) \<and> bs_contents s' = bs_contents s" if x: "x = Set_error_op"
  proof -
    obtain os where "run_ops bs_exec xs (bs_set_error s) = (Inr os, s')" "outs = ([], 0) # os"
      using run by (auto simp: x em_simps split: prod.splits sum.splits)
    with rest [OF ends(2)] ends(4) show ?thesis by (auto simp: bs_set_error_def bs_get_error_def)
  qed
  show ?thesis
    using run End Err bs_write_refused [of s' data] by (auto simp: bs_input_ended_def bs_get_error_def)
qed

theorem byte_stream_closed_is_final_witness:
  "\<exists>s outs s'. bs_wf s \<and> run_ops bs_exec [End_op, Write_op [1], Read_op 5] s = (Inr outs, s') \<and> bs_input_ended s' \<and>
     bs_write [1] s' = (Inr 0, s'\<lparr>m_error := True\<rparr>)"
proof -
  obtain s where s: "bs_wf s"
    using bs_make_run [of 2 "\<lambda>_. 0" 0 0] by auto
  show ?thesis
    using s byte_stream_closed_is_final [OF s, of End_op "[Write_op [1], Read_op 5]" "[1]"] by blast
qed

text \<open>C38. The capacity is kept in an \<open>int\<close>. For every \<open>capacity\<close>, with \<open>n\<close> the low 32 bits of \<open>capacity + 1\<close>: from 2
  to the 31 on the constructor throws \<open>bad_array_new_length\<close>; otherwise the array has \<open>n\<close>
  bytes, not \<open>capacity + 1\<close>, and the stream claims room for \<open>n - 1\<close>, which for \<open>n = 0\<close> is 2 to the 64
  minus 1, so that the first byte written to such a stream is out of bounds.\<close>

theorem byte_stream_capacity_narrowing:
  "let n = (unat capacity + 1) mod 2 ^ 32 in
   if n \<ge> 2 ^ 31 then bs_make capacity junk r0 w0 = Inl Bad_array_new_length
   else \<exists>s. bs_make capacity junk r0 w0 = Inr s \<and> length (m_buf s) = n \<and> bs_remaining_capacity s = of_nat n - 1 \<and>
     (n = 0 \<longrightarrow> bs_write [c] s = (Inl (Undefined_behaviour ''m_buf index''), s))"
proof -
  define n where "n = (unat capacity + 1) mod 2 ^ 32"
  have size: "int_of_size (capacity + 1) = narrow_int (int n)"
  proof -
    have "capacity + 1 = word_of_int (int (unat capacity + 1))" by simp
    then have "int_of_size (capacity + 1) = narrow_int (int (unat capacity + 1))"
      by (simp only: int_of_size_word_of_int)
    moreover have "int n = take_bit 32 (int (unat capacity + 1))"
      by (simp add: n_def take_bit_eq_mod zmod_int)
    ultimately show ?thesis
      by (simp add: narrow_int_def signed_take_bit_take_bit)
  qed
  show ?thesis
  proof (cases "n \<ge> 2 ^ 31")
    case True
    moreover have "n < 2 ^ 32" by (simp add: n_def)
    ultimately have "narrow_int (int n) < 0"
      using narrow_int_wrap [of n] by simp
    with True size show ?thesis
      unfolding Let_def n_def [symmetric] by (simp add: bs_make_def)
  next
    case False
    then have "narrow_int (int n) = int n" by (intro narrow_int_id) simp_all
    with False size show ?thesis
      unfolding Let_def n_def [symmetric]
      by (auto simp: bs_make_def bs_remaining_capacity_def size_of_int_def bs_write_def size_of_def
          bs_push_def em_simps)
  qed
qed

theorem byte_stream_capacity_narrowing_witness:
  "\<exists>s. bs_make 4294967295 (\<lambda>_. 0) 0 0 = Inr s \<and> m_buf s = [] \<and> bs_remaining_capacity s = - 1 \<and>
     bs_write [7] s = (Inl (Undefined_behaviour ''m_buf index''), s)"
  using byte_stream_capacity_narrowing [of 4294967295 "\<lambda>_. 0" 0 0 7] by (simp add: Let_def)

end
