(* ===== verification/Sys_Util.thy ===== *)
theory Sys_Util
  imports Sponge_Prelude
begin

text \<open>
  The system-facing part of \<open>libsponge/util/util.hh\<close> and \<open>util.cc\<close>: error reporting
  (\<open>tagged_error\<close>, \<open>unix_error\<close>, \<open>SystemCall\<close>), the clock \<open>timestamp_ms\<close> and the seeding of
  the random generator, with the decimal conversions of the standard library that the
  other components use.

  The kernel is not part of the repository: its state is a type parameter \<open>'k\<close> and each
  system call an argument, a function from the kernel state to the returned value, the
  value of \<open>errno\<close> afterwards, the data stored through the caller's pointers and the new
  kernel state. What a theorem needs to know of a call is a hypothesis of that theorem.
\<close>

section \<open>State\<close>

record 'k sys =
  kern :: 'k
  errno :: int
  cerr :: "string list"

type_synonym ('k, 'o) syscall = "'k \<Rightarrow> (int \<times> int \<times> 'o) \<times> 'k"

section \<open>Decimal conversions\<close>

definition digit_char :: "nat \<Rightarrow> char" where
  "digit_char d = char_of (48 + d)"

fun nat_to_string :: "nat \<Rightarrow> string" where
  "nat_to_string n =
     (if n < 10 then [digit_char n] else nat_to_string (n div 10) @ [digit_char (n mod 10)])"

declare nat_to_string.simps [simp del]

definition int_to_string :: "int \<Rightarrow> string" where
  "int_to_string i = (if i < 0 then ''-'' @ nat_to_string (nat (- i)) else nat_to_string (nat i))"

section \<open>Errors\<close>

definition unix_error :: "string \<Rightarrow> int \<Rightarrow> exn" where
  "unix_error attempt error = Tagged_error System_category attempt error"

text \<open>\<open>what()\<close>; \<open>message\<close> is the text the error category has for a code.\<close>

definition tagged_error_what :: "(error_category \<Rightarrow> int \<Rightarrow> string) \<Rightarrow> exn \<Rightarrow> string" where
  "tagged_error_what message e = (case e of
       Tagged_error cat attempt code \<Rightarrow> attempt @ '': '' @ message cat code
     | Runtime_error msg \<Rightarrow> msg
     | Out_of_range msg \<Rightarrow> msg
     | Invalid_argument msg \<Rightarrow> msg
     | Length_error msg \<Rightarrow> msg
     | Bad_array_new_length \<Rightarrow> ''std::bad_array_new_length''
     | Undefined_behaviour msg \<Rightarrow> msg)"

definition SystemCall :: "string \<Rightarrow> int \<Rightarrow> int \<Rightarrow> (('k, 'z) sys_scheme, int) em" where
  "SystemCall attempt return_value errno_mask = (\<lambda>s.
     if return_value \<ge> 0 \<or> errno s = errno_mask then (Inr return_value, s)
     else (Inl (unix_error attempt (errno s)), s))"

text \<open>Entering the kernel, and the usual \<open>SystemCall("name", ::name(\<dots>))\<close>: the returned value is
  converted to the \<open>int\<close> that \<open>SystemCall\<close> takes, and \<open>errno_mask\<close> is 0.\<close>

definition enter_kernel :: "('k, 'o) syscall \<Rightarrow> (('k, 'z) sys_scheme, int \<times> 'o) em" where
  "enter_kernel call = (\<lambda>s. case call (kern s) of
     ((ret, err, out), k) \<Rightarrow> (Inr (ret, out), s\<lparr>kern := k, errno := err\<rparr>))"

definition sys_call :: "string \<Rightarrow> ('k, 'o) syscall \<Rightarrow> (('k, 'z) sys_scheme, int \<times> 'o) em" where
  "sys_call attempt call = bindM (enter_kernel call) (\<lambda>(ret, out).
     bindM (SystemCall attempt (narrow_int ret) 0) (\<lambda>r. returnM (r, out)))"

section \<open>Clock and random generator\<close>

record 'k clock =
  clock_kern :: 'k
  program_start :: "int option"

text \<open>\<open>duration_cast<milliseconds>\<close> truncates towards zero.\<close>

definition duration_ms :: "int \<Rightarrow> int" where
  "duration_ms d = sgn d * (\<bar>d\<bar> div 1000000)"

text \<open>\<open>timestamp_ms\<close>; \<open>now\<close> reads the steady clock, in nanoseconds. The function-local static is
  initialised by the first call.\<close>

definition timestamp_ms :: "('k \<Rightarrow> int \<times> 'k) \<Rightarrow> 'k clock \<Rightarrow> uint64 \<times> 'k clock" where
  "timestamp_ms now c =
     (let (start, k1) = (case program_start c of
            None \<Rightarrow> now (clock_kern c)
          | Some t \<Rightarrow> (t, clock_kern c));
          (t, k2) = now k1
      in (word_of_int (duration_ms (t - start)), \<lparr>clock_kern = k2, program_start = Some start\<rparr>))"

definition MT_STATE_SIZE :: nat where
  "MT_STATE_SIZE = 624"

fun draw :: "('k \<Rightarrow> uint32 \<times> 'k) \<Rightarrow> nat \<Rightarrow> 'k \<Rightarrow> uint32 list \<times> 'k" where
  "draw rd 0 k = ([], k)"
| "draw rd (Suc n) k = (let (x, k1) = rd k; (xs, k2) = draw rd n k1 in (x # xs, k2))"

text \<open>\<open>get_random_generator\<close>; \<open>mk\<close> builds the engine from a seed sequence.\<close>

definition get_random_generator :: "('k \<Rightarrow> uint32 \<times> 'k) \<Rightarrow> (uint32 list \<Rightarrow> 'g) \<Rightarrow> 'k \<Rightarrow> 'g \<times> 'k" where
  "get_random_generator rd mk k = (let (seed_data, k') = draw rd MT_STATE_SIZE k in (mk seed_data, k'))"

section \<open>Conventions of the kernel\<close>

text \<open>The documented convention of system calls: a failed call returns a negative value and sets
  \<open>errno\<close> to a nonzero code; every returned value fits an \<open>int\<close>.\<close>

definition errno_convention :: "('k, 'o) syscall \<Rightarrow> bool" where
  "errno_convention call \<longleftrightarrow> (\<forall>k ret err out k'. call k = ((ret, err, out), k') \<longrightarrow>
     - (2 ^ 31) \<le> ret \<and> ret < 2 ^ 31 \<and> (ret < 0 \<longrightarrow> err \<noteq> 0))"

definition steady :: "('k \<Rightarrow> int \<times> 'k) \<Rightarrow> ('k \<Rightarrow> int) \<Rightarrow> bool" where
  "steady now time \<longleftrightarrow> (\<forall>k. 0 \<le> time k \<and> time k \<le> fst (now k) \<and> fst (now k) \<le> time (snd (now k)))"

section \<open>Lemmas\<close>

lemma SystemCall_apply [em_simps]:
  "SystemCall attempt rv msk s =
     (if rv \<ge> 0 \<or> errno s = msk then (Inr rv, s) else (Inl (unix_error attempt (errno s)), s))"
  by (simp add: SystemCall_def)

lemma sys_call_apply:
  "sys_call attempt call s = (case call (kern s) of ((ret, err, out), k) \<Rightarrow>
     if narrow_int ret \<ge> 0 \<or> err = 0 then (Inr (narrow_int ret, out), s\<lparr>kern := k, errno := err\<rparr>)
     else (Inl (unix_error attempt err), s\<lparr>kern := k, errno := err\<rparr>))"
  by (simp add: sys_call_def enter_kernel_def em_simps split: prod.splits)

lemma sys_call_ok:
  "call (kern s) = ((ret, err, out), k) \<Longrightarrow> 0 \<le> ret \<Longrightarrow> ret < 2 ^ 31 \<Longrightarrow>
     sys_call attempt call s = (Inr (ret, out), s\<lparr>kern := k, errno := err\<rparr>)"
  by (simp add: sys_call_apply narrow_int_id)

lemma sys_call_fails:
  "call (kern s) = ((ret, err, out), k) \<Longrightarrow> narrow_int ret < 0 \<Longrightarrow> err \<noteq> 0 \<Longrightarrow>
     sys_call attempt call s = (Inl (unix_error attempt err), s\<lparr>kern := k, errno := err\<rparr>)"
  by (simp add: sys_call_apply)

lemma duration_ms_pos: "0 \<le> d \<Longrightarrow> duration_ms d = d div 1000000"
  by (cases "d = 0") (simp_all add: duration_ms_def)

lemma draw_length: "length (fst (draw rd n k)) = n"
  by (induction n arbitrary: k) (auto simp: Let_def split: prod.splits, metis fst_conv)

section \<open>Properties\<close>

text \<open>Under the kernel's \<open>errno\<close> convention a wrapped system call returns normally exactly when the
  call succeeded, with the kernel's own non-negative value, and otherwise throws
  \<open>unix_error\<close> with the name of the call and the code the kernel reported; the effect of the
  call on the kernel is kept in both cases.\<close>

lemma sys_call_correct:
  assumes "errno_convention call" and "call (kern s) = ((ret, err, out), k)"
  shows "sys_call attempt call s =
    (if 0 \<le> ret then Inr (ret, out) else Inl (unix_error attempt err), s\<lparr>kern := k, errno := err\<rparr>)"
proof -
  have "- (2 ^ 31) \<le> ret" "ret < 2 ^ 31" "ret < 0 \<longrightarrow> err \<noteq> 0"
    using assms unfolding errno_convention_def by blast+
  then show ?thesis
    using assms(2) narrow_int_id [of ret] by (simp add: sys_call_apply)
qed

text \<open>With a steady clock, timestamps never go backwards: of two successive calls of
  \<open>timestamp_ms\<close> the later is at least the earlier (while the program has run for less than
  2 to the 64 milliseconds), and the starting point is fixed by the first call.\<close>

lemma timestamp_monotone:
  assumes "steady now time" and "timestamp_ms now c = (t1, c1)" and "timestamp_ms now c1 = (t2, c2)"
    and "\<And>t. program_start c = Some t \<Longrightarrow> t \<le> time (clock_kern c)"
    and "\<And>t. program_start c = Some t \<Longrightarrow> 0 \<le> t"
    and "time (clock_kern c2) < 2 ^ 64"
  shows "unat t1 \<le> unat t2 \<and> program_start c2 = program_start c1"
proof -
  obtain st k1 where st: "(case program_start c of None \<Rightarrow> now (clock_kern c) | Some t \<Rightarrow> (t, clock_kern c)) = (st, k1)"
    by (metis prod.exhaust)
  obtain u1 k2 u2 k3 where u: "now k1 = (u1, k2)" "now k2 = (u2, k3)"
    by (metis prod.exhaust)
  have c1: "c1 = \<lparr>clock_kern = k2, program_start = Some st\<rparr>" "t1 = word_of_int (duration_ms (u1 - st))"
    using assms(2) st u by (simp_all add: timestamp_ms_def)
  then have c2: "c2 = \<lparr>clock_kern = k3, program_start = Some st\<rparr>" "t2 = word_of_int (duration_ms (u2 - st))"
    using assms(3) u by (simp_all add: timestamp_ms_def)
  have st_le: "0 \<le> st \<and> st \<le> time k1"
    using assms(1,4,5) st unfolding steady_def
    by (cases "program_start c") (auto, metis fst_conv order_trans, metis fst_conv snd_conv)
  have order: "time k1 \<le> u1" "u1 \<le> time k2" "time k2 \<le> u2" "u2 \<le> time k3"
    using assms(1) u unfolding steady_def by (metis fst_conv snd_conv)+
  define d1 where "d1 = (u1 - st) div 1000000"
  define d2 where "d2 = (u2 - st) div 1000000"
  have d: "0 \<le> d1" "d1 \<le> d2" "d2 < 2 ^ 64"
    using st_le order assms(6) c2 by (auto simp: d1_def d2_def intro!: zdiv_mono1 pos_imp_zdiv_nonneg_iff [THEN iffD2])
  have "t1 = word_of_int d1" "t2 = word_of_int d2"
    using c1 c2 st_le order by (simp_all add: d1_def d2_def duration_ms_pos)
  then have "unat t1 = nat d1" "unat t2 = nat d2"
    using d unat_size_of_int [of d1] unat_size_of_int [of d2] by (simp_all add: size_of_int_def)
  then show ?thesis
    using d c1 c2 by simp
qed

end
