(* ===== verification/File_Descriptor.thy ===== *)
theory File_Descriptor
  imports Buffer Sys_Util
begin

text \<open>
  \<open>libsponge/util/file_descriptor.hh\<close> and \<open>file_descriptor.cc\<close>. A \<open>FileDescriptor\<close> is a
  \<open>shared_ptr\<close> to an \<open>FDWrapper\<close>, and \<open>duplicate()\<close> shares the wrapper: its flags and counters
  are seen through every handle. So the wrappers live in an explicit store, \<open>fd_heap\<close>, a
  handle is an address in it, and each wrapper carries the number of handles that own it.
  A handle with no wrapper (moved-from or destroyed) is a null \<open>shared_ptr\<close>; dereferencing
  it is undefined behaviour.
\<close>

section \<open>State\<close>

record fd_wrapper =
  fdw_fd :: int
  fdw_eof :: bool
  fdw_closed :: bool
  fdw_read_count :: uint32
  fdw_write_count :: uint32
  fdw_uses :: nat

record 'k world = "'k sys" +
  fd_heap :: "nat \<Rightarrow> fd_wrapper option"
  fd_next :: nat

text \<open>The system calls of this component. \<open>os_read fd n\<close> hands back the bytes it stored;
  \<open>os_message\<close> is the text of an error code.\<close>

record 'k fd_os =
  os_close :: "int \<Rightarrow> ('k, unit) syscall"
  os_read :: "int \<Rightarrow> nat \<Rightarrow> ('k, byte list) syscall"
  os_writev :: "int \<Rightarrow> iovec list \<Rightarrow> ('k, unit) syscall"
  os_getfl :: "int \<Rightarrow> ('k, unit) syscall"
  os_setfl :: "int \<Rightarrow> uint32 \<Rightarrow> ('k, unit) syscall"
  os_message :: "error_category \<Rightarrow> int \<Rightarrow> string"

section \<open>FDWrapper\<close>

definition deref :: "nat \<Rightarrow> (('k, 'z) world_scheme, fd_wrapper) em" where
  "deref r = (\<lambda>s. case fd_heap s r of
       None \<Rightarrow> (Inl (Undefined_behaviour ''null FDWrapper''), s)
     | Some w \<Rightarrow> (Inr w, s))"

definition update_wrapper :: "nat \<Rightarrow> (fd_wrapper \<Rightarrow> fd_wrapper) \<Rightarrow> (('k, 'z) world_scheme, unit) em" where
  "update_wrapper r f = bindM (deref r) (\<lambda>w. modifyM (\<lambda>s. s\<lparr>fd_heap := (fd_heap s)(r := Some (f w))\<rparr>))"

definition fdw_make :: "int \<Rightarrow> fd_wrapper result" where
  "fdw_make fd =
     (if fd < 0 then Inl (Runtime_error (''invalid fd number:'' @ int_to_string fd))
      else Inr \<lparr>fdw_fd = fd, fdw_eof = False, fdw_closed = False, fdw_read_count = 0,
             fdw_write_count = 0, fdw_uses = 1\<rparr>)"

definition fdw_close :: "('k, 'y) fd_os_scheme \<Rightarrow> nat \<Rightarrow> (('k, 'z) world_scheme, unit) em" where
  "fdw_close os r = bindM (deref r) (\<lambda>w.
     seqM (sys_call ''close'' (os_close os (fdw_fd w)))
       (update_wrapper r (\<lambda>w. w\<lparr>fdw_eof := True, fdw_closed := True\<rparr>)))"

definition fdw_destruct :: "('k, 'y) fd_os_scheme \<Rightarrow> nat \<Rightarrow> (('k, 'z) world_scheme, unit) em" where
  "fdw_destruct os r =
     catchM (bindM (deref r) (\<lambda>w. if fdw_closed w then returnM () else fdw_close os r))
       (\<lambda>e. if is_exception e
            then modifyM (\<lambda>s. s\<lparr>cerr := cerr s @
                   [''Exception destructing FDWrapper: '' @ tagged_error_what (os_message os) e @ [CHR 0x0A]]\<rparr>)
            else throwM e)"

section \<open>FileDescriptor\<close>

definition fd_make :: "int \<Rightarrow> (('k, 'z) world_scheme, nat) em" where
  "fd_make fd = bindM (liftR (fdw_make fd)) (\<lambda>w s.
     (Inr (fd_next s), s\<lparr>fd_heap := (fd_heap s)(fd_next s := Some w), fd_next := Suc (fd_next s)\<rparr>))"

text \<open>Copying a null \<open>shared_ptr\<close>, and giving one up, is allowed and does nothing.\<close>

definition fd_duplicate :: "nat \<Rightarrow> (('k, 'z) world_scheme, nat) em" where
  "fd_duplicate r = (\<lambda>s. if fd_heap s r = None then (Inr r, s)
     else seqM (update_wrapper r (\<lambda>w. w\<lparr>fdw_uses := Suc (fdw_uses w)\<rparr>)) (returnM r) s)"

text \<open>\<open>~FileDescriptor\<close>: the \<open>shared_ptr\<close> is given up, and the last one destroys the wrapper.\<close>

definition fd_release :: "('k, 'y) fd_os_scheme \<Rightarrow> nat \<Rightarrow> (('k, 'z) world_scheme, unit) em" where
  "fd_release os r = (\<lambda>s. if fd_heap s r = None then (Inr (), s)
     else bindM (deref r) (\<lambda>w.
       if fdw_uses w > 1 then update_wrapper r (\<lambda>w. w\<lparr>fdw_uses := fdw_uses w - 1\<rparr>)
       else seqM (fdw_destruct os r) (modifyM (\<lambda>s. s\<lparr>fd_heap := (fd_heap s)(r := None)\<rparr>))) s)"

text \<open>A constructor body of a derived class that throws: the \<open>FileDescriptor\<close> base, already built, is destroyed.\<close>

definition releasing :: "('k, 'y) fd_os_scheme \<Rightarrow> nat \<Rightarrow> (('k, 'z) world_scheme, 'a) em \<Rightarrow> (('k, 'z) world_scheme, 'a) em" where
  "releasing os r m = catchM m (\<lambda>e. seqM (fd_release os r) (throwM e))"

definition register_read :: "nat \<Rightarrow> (('k, 'z) world_scheme, unit) em" where
  "register_read r = update_wrapper r (\<lambda>w. w\<lparr>fdw_read_count := fdw_read_count w + 1\<rparr>)"

definition register_write :: "nat \<Rightarrow> (('k, 'z) world_scheme, unit) em" where
  "register_write r = update_wrapper r (\<lambda>w. w\<lparr>fdw_write_count := fdw_write_count w + 1\<rparr>)"

definition fd_num :: "nat \<Rightarrow> (('k, 'z) world_scheme, int) em" where
  "fd_num r = bindM (deref r) (\<lambda>w. returnM (fdw_fd w))"

definition fd_eof :: "nat \<Rightarrow> (('k, 'z) world_scheme, bool) em" where
  "fd_eof r = bindM (deref r) (\<lambda>w. returnM (fdw_eof w))"

definition fd_closed :: "nat \<Rightarrow> (('k, 'z) world_scheme, bool) em" where
  "fd_closed r = bindM (deref r) (\<lambda>w. returnM (fdw_closed w))"

definition fd_read_count :: "nat \<Rightarrow> (('k, 'z) world_scheme, uint32) em" where
  "fd_read_count r = bindM (deref r) (\<lambda>w. returnM (fdw_read_count w))"

definition fd_write_count :: "nat \<Rightarrow> (('k, 'z) world_scheme, uint32) em" where
  "fd_write_count r = bindM (deref r) (\<lambda>w. returnM (fdw_write_count w))"

definition fd_close :: "('k, 'y) fd_os_scheme \<Rightarrow> nat \<Rightarrow> (('k, 'z) world_scheme, unit) em" where
  "fd_close os r = fdw_close os r"

text \<open>\<open>string::resize\<close> (new characters are zero), and the kernel storing bytes at its front.\<close>

definition resize :: "byte list \<Rightarrow> nat \<Rightarrow> byte list" where
  "resize s n = take n s @ replicate (n - length s) 0"

definition overlay :: "byte list \<Rightarrow> byte list \<Rightarrow> byte list" where
  "overlay data mem = take (length mem) data @ drop (length data) mem"

definition READ_BUFFER_SIZE :: nat where
  "READ_BUFFER_SIZE = 1024 * 1024"

definition fd_read_into :: "('k, 'y) fd_os_scheme \<Rightarrow> nat \<Rightarrow> byte list \<Rightarrow> size_t \<Rightarrow>
    (('k, 'z) world_scheme, byte list) em" where
  "fd_read_into os r str limit =
     (let size_to_read = min READ_BUFFER_SIZE (unat limit);
          str = resize str size_to_read
      in bindM (fd_num r) (\<lambda>fd.
         bindM (sys_call ''read'' (os_read os fd size_to_read)) (\<lambda>(bytes_read, data).
         seqM (whenM (limit > 0 \<and> bytes_read = 0) (update_wrapper r (\<lambda>w. w\<lparr>fdw_eof := True\<rparr>)))
          (if bytes_read > int size_to_read then throwM (Runtime_error ''read() read more than requested'')
           else if bytes_read < 0 then throwM (Length_error ''basic_string::_M_replace_aux'')
           else seqM (register_read r)
                  (returnM (resize (overlay data str) (nat bytes_read)))))))"

definition fd_read :: "('k, 'y) fd_os_scheme \<Rightarrow> nat \<Rightarrow> size_t \<Rightarrow> (('k, 'z) world_scheme, byte list) em" where
  "fd_read os r limit = fd_read_into os r [] limit"

text \<open>One round of the \<open>do\<close> loop of \<open>write\<close>: the bytes written and the rest of the view list.\<close>

definition fd_write_once :: "('k, 'y) fd_os_scheme \<Rightarrow> nat \<Rightarrow> buffer_view_list \<Rightarrow>
    (('k, 'z) world_scheme, size_t \<times> buffer_view_list) em" where
  "fd_write_once os r buf =
     bindM (fd_num r) (\<lambda>fd.
     bindM (sys_call ''writev'' (os_writev os fd (bvl_as_iovecs buf))) (\<lambda>(bytes_written, _).
     if bytes_written = 0 \<and> bvl_size buf \<noteq> 0 then
       throwM (Runtime_error ''write returned 0 given non-empty input buffer'')
     else if bytes_written > sint (bvl_size buf) then
       throwM (Runtime_error ''write wrote more than length of input buffer'')
     else seqM (register_write r)
       (case bvl_remove_prefix (size_of_int bytes_written) buf of
          (Inl e, _) \<Rightarrow> throwM e
        | (Inr _, rest) \<Rightarrow> returnM (size_of_int bytes_written, rest))))"

text \<open>Each further round of the loop works on fewer bytes, so the loop ends.\<close>

lemma sys_call_range: "sys_call attempt call s = (Inr (r, out), s') \<Longrightarrow> - (2 ^ 31) \<le> r \<and> r < 2 ^ 31"
  using narrow_int_range by (auto simp: sys_call_apply split: prod.splits if_splits)

lemma bvl_remove_loop_shorter:
  "bvl_remove_loop n vs = (Inr u, vs') \<Longrightarrow>
     (n = 0 \<longrightarrow> vs' = vs) \<and> (n \<noteq> 0 \<longrightarrow> length (concat vs') < length (concat vs))"
proof (induction n vs rule: bvl_remove_loop.induct)
  case (1 n)
  then show ?case by (auto simp: word_neq_0_conv split: if_splits)
next
  case (2 n v vs)
  show ?case
  proof (cases "n > 0")
    case False
    then have "n = 0" using word_neq_0_conv [of n] by blast
    with "2.prems" show ?thesis by simp
  next
    case True
    then have n0: "0 < unat n" "n \<noteq> 0" by (simp_all add: unat_gt_0)
    have mod_le: "unat (size_of v) \<le> length v"
      by (simp add: size_of_def unat_of_nat)
    show ?thesis
    proof (cases "n < size_of v")
      case less: True
      then have "unat n < length v"
        using mod_le by (simp add: word_less_nat_alt)
      with less True n0 "2.prems" show ?thesis by auto
    next
      case False
      with True "2.prems" "2.IH" have IH: "(n - size_of v = 0 \<longrightarrow> vs' = vs) \<and>
          (n - size_of v \<noteq> 0 \<longrightarrow> length (concat vs') < length (concat vs))"
        by simp
      have "v \<noteq> []" if "n - size_of v = 0"
        using that n0 by auto
      with IH n0 show ?thesis by (cases "n - size_of v = 0") auto
    qed
  qed
qed

lemma fd_write_onceE:
  assumes "fd_write_once os r buf s = (Inr (n, rest), s')"
  obtains fd s1 b s2 where "fd_num r s = (Inr fd, s1)"
    "sys_call ''writev'' (os_writev os fd (bvl_as_iovecs buf)) s1 = (Inr (b, ()), s2)"
    "b = 0 \<longrightarrow> bvl_size buf = 0" "b \<le> sint (bvl_size buf)" "register_write r s2 = (Inr (), s')"
    "bvl_remove_prefix (size_of_int b) buf = (Inr (), rest)" "n = size_of_int b"
  using assms
  by (auto simp: fd_write_once_def em_simps not_less split: prod.splits sum.splits if_splits;
      rule that; assumption?; simp)

lemma fd_write_once_shorter:
  assumes "fd_write_once os r buf s = (Inr (n, rest), s')" and "bvl_size rest \<noteq> 0"
  shows "length (bvl_contents rest) < length (bvl_contents buf)"
proof -
  obtain fd s1 b s2 where "fd_num r s = (Inr fd, s1)" and call: "sys_call ''writev'' (os_writev os fd (bvl_as_iovecs buf)) s1 = (Inr (b, ()), s2)"
    and b: "b = 0 \<longrightarrow> bvl_size buf = 0" "bvl_remove_prefix (size_of_int b) buf = (Inr (), rest)"
    by (rule fd_write_onceE [OF assms(1)]) (rule that)
  then have loop: "bvl_remove_loop (size_of_int b) (views buf) = (Inr (), views rest)"
    by (auto simp: bvl_remove_prefix_def split: prod.splits)
  note short = bvl_remove_loop_shorter [OF loop]
  show ?thesis
  proof (cases "size_of_int b = 0")
    case True
    then have "bvl_size buf = 0"
      using b(1) size_of_int_zero [of b] sys_call_range [OF call] by blast
    moreover have "views rest = views buf"
      using short True by simp
    ultimately show ?thesis
      using assms(2) by (simp add: bvl_size_def)
  next
    case False
    with short show ?thesis by (simp add: bvl_contents_def)
  qed
qed

function fd_write_loop :: "('k, 'y) fd_os_scheme \<Rightarrow> nat \<Rightarrow> bool \<Rightarrow> size_t \<Rightarrow> buffer_view_list \<Rightarrow>
    (('k, 'z) world_scheme, size_t) em" where
  "fd_write_loop os r write_all total_bytes buf s = (case fd_write_once os r buf s of
       (Inl e, s') \<Rightarrow> (Inl e, s')
     | (Inr (n, rest), s') \<Rightarrow>
         if write_all \<and> bvl_size rest \<noteq> 0
         then fd_write_loop os r write_all (total_bytes + n) rest s'
         else (Inr (total_bytes + n), s'))"
  by pat_completeness auto
termination
proof (relation "measure (\<lambda>(os, r, a, t, buf, s). length (bvl_contents buf))", goal_cases)
  case 1
  show ?case by simp
next
  case (2 os r a t buf s x y b n rest)
  then show ?case using fd_write_once_shorter [of os r buf s n rest y] by simp
qed

declare fd_write_loop.simps [simp del]

definition fd_write :: "('k, 'y) fd_os_scheme \<Rightarrow> nat \<Rightarrow> buffer_view_list \<Rightarrow> bool \<Rightarrow>
    (('k, 'z) world_scheme, size_t) em" where
  "fd_write os r buf write_all = fd_write_loop os r write_all 0 buf"

definition fd_write_string :: "('k, 'y) fd_os_scheme \<Rightarrow> nat \<Rightarrow> byte list \<Rightarrow> bool \<Rightarrow>
    (('k, 'z) world_scheme, size_t) em" where
  "fd_write_string os r str write_all = fd_write os r (bvl_of_string str) write_all"

definition fd_write_c_string :: "('k, 'y) fd_os_scheme \<Rightarrow> nat \<Rightarrow> byte list \<Rightarrow> bool \<Rightarrow>
    (('k, 'z) world_scheme, size_t) em" where
  "fd_write_c_string os r str write_all = fd_write os r (bvl_of_c_string str) write_all"

definition O_NONBLOCK :: uint32 where
  "O_NONBLOCK = 2048"

definition fd_set_blocking :: "('k, 'y) fd_os_scheme \<Rightarrow> nat \<Rightarrow> bool \<Rightarrow> (('k, 'z) world_scheme, unit) em" where
  "fd_set_blocking os r blocking_state =
     bindM (fd_num r) (\<lambda>fd.
     bindM (sys_call ''fcntl'' (os_getfl os fd)) (\<lambda>(fl, _).
       let flags = (word_of_int fl :: uint32);
           flags = (if blocking_state then flags XOR (flags AND O_NONBLOCK) else flags OR O_NONBLOCK)
       in bindM (sys_call ''fcntl'' (os_setfl os fd flags)) (\<lambda>_. returnM ())))"

section \<open>Clients\<close>

datatype fd_op =
    Make_fd int
  | Duplicate_fd nat
  | Release_fd nat
  | Read_fd nat size_t
  | Write_fd nat "byte list" bool
  | Close_fd nat
  | Set_blocking_fd nat bool

fun fd_exec :: "('k, 'y) fd_os_scheme \<Rightarrow> fd_op \<Rightarrow> (('k, 'z) world_scheme, unit) em" where
  "fd_exec os (Make_fd n) = bindM (fd_make n) (\<lambda>_. returnM ())"
| "fd_exec os (Duplicate_fd r) = bindM (fd_duplicate r) (\<lambda>_. returnM ())"
| "fd_exec os (Release_fd r) = fd_release os r"
| "fd_exec os (Read_fd r limit) = bindM (fd_read os r limit) (\<lambda>_. returnM ())"
| "fd_exec os (Write_fd r str all) = bindM (fd_write_string os r str all) (\<lambda>_. returnM ())"
| "fd_exec os (Close_fd r) = fd_close os r"
| "fd_exec os (Set_blocking_fd r b) = fd_set_blocking os r b"

section \<open>Conventions of the kernel\<close>

text \<open>
  \<open>writev(2)\<close>: it fails with a negative value and an error code, or takes a prefix of the
  gathered bytes, of the length it returns, and appends it to what the descriptor has
  received (\<open>sent\<close>). Linux transfers at most 2147479552 bytes in one call.
\<close>

definition writev_contract :: "('k, 'y) fd_os_scheme \<Rightarrow> ('k \<Rightarrow> int \<Rightarrow> byte list) \<Rightarrow> bool" where
  "writev_contract os sent \<longleftrightarrow> (\<forall>fd iov k ret err k'. os_writev os fd iov k = ((ret, err, ()), k') \<longrightarrow>
     - (2 ^ 31) \<le> ret \<and> ret < 2 ^ 31 \<and> (ret < 0 \<longrightarrow> err \<noteq> 0) \<and>
     ret \<le> int (length (iovecs_bytes iov)) \<and>
     sent k' fd = sent k fd @ take (nat ret) (iovecs_bytes iov))"

text \<open>A blocking descriptor in working order: every call succeeds and takes something, if there is
  anything to take.\<close>

definition writev_progress :: "('k, 'y) fd_os_scheme \<Rightarrow> bool" where
  "writev_progress os \<longleftrightarrow> (\<forall>fd iov k. 0 \<le> fst (fst (os_writev os fd iov k)) \<and>
     (iovecs_bytes iov \<noteq> [] \<longrightarrow> 0 < fst (fst (os_writev os fd iov k))))"

text \<open>\<open>read(2)\<close>: a negative value and an error code, or the number of bytes stored, at most the
  number asked for.\<close>

definition read_contract :: "('k, 'y) fd_os_scheme \<Rightarrow> bool" where
  "read_contract os \<longleftrightarrow> (\<forall>fd n k ret err data k'. os_read os fd n k = ((ret, err, data), k') \<longrightarrow>
     - (2 ^ 31) \<le> ret \<and> ret < 2 ^ 31 \<and> (ret < 0 \<longrightarrow> err \<noteq> 0) \<and> ret \<le> int n \<and>
     (0 \<le> ret \<longrightarrow> length data = nat ret))"

section \<open>Invariant\<close>

definition wrapper_ok :: "fd_wrapper \<Rightarrow> bool" where
  "wrapper_ok w \<longleftrightarrow> 0 \<le> fdw_fd w \<and> 0 < fdw_uses w \<and> (fdw_closed w \<longrightarrow> fdw_eof w)"

definition fd_wf :: "('k, 'z) world_scheme \<Rightarrow> bool" where
  "fd_wf s \<longleftrightarrow> (\<forall>r w. fd_heap s r = Some w \<longrightarrow> r < fd_next s \<and> wrapper_ok w)"

text \<open>The number of owners of a wrapper, 0 when there is none.\<close>

definition uses_of :: "('k, 'z) world_scheme \<Rightarrow> nat \<Rightarrow> nat" where
  "uses_of s r = (case fd_heap s r of None \<Rightarrow> 0 | Some w \<Rightarrow> fdw_uses w)"

lemma fd_wf_upd: "fd_wf s \<Longrightarrow> fd_heap s r = Some w \<Longrightarrow> (wrapper_ok w \<Longrightarrow> wrapper_ok w') \<Longrightarrow>
    fd_wf (s\<lparr>fd_heap := (fd_heap s)(r := Some w')\<rparr>)"
  by (auto simp: fd_wf_def)

lemma fd_wf_sys [simp]:
  "fd_wf (s\<lparr>kern := k, errno := e\<rparr>) = fd_wf s" "fd_wf (s\<lparr>cerr := c\<rparr>) = fd_wf s"
  by (simp_all add: fd_wf_def)

lemma keeps_deref [keeps_intro]: "keeps P (deref r)"
  by (simp add: keeps_def deref_def split: option.splits)

lemma keeps_sys_call [keeps_intro]: "keeps fd_wf (sys_call attempt call)"
  by (simp add: keeps_def sys_call_apply split: prod.splits)

lemma keeps_update_wrapper: "(\<And>w. wrapper_ok w \<Longrightarrow> wrapper_ok (f w)) \<Longrightarrow> keeps fd_wf (update_wrapper r f)"
  by (auto simp: keeps_def update_wrapper_def deref_def em_simps intro: fd_wf_upd split: option.splits)

lemma keeps_register [keeps_intro]: "keeps fd_wf (register_read r)" "keeps fd_wf (register_write r)"
  unfolding register_read_def register_write_def
  by (rule keeps_update_wrapper, simp add: wrapper_ok_def)+

lemma keeps_fd_num [keeps_intro]: "keeps P (fd_num r)"
  by (simp add: fd_num_def keeps_intro)

lemma keeps_case_prod [keeps_intro]: "(\<And>a b. keeps P (f a b)) \<Longrightarrow> keeps P (case p of (a, b) \<Rightarrow> f a b)"
  by (cases p) simp

lemma keeps_case_sum [keeps_intro]:
  "(\<And>a. keeps P (f a)) \<Longrightarrow> (\<And>b. keeps P (g b)) \<Longrightarrow> keeps P (case x of Inl a \<Rightarrow> f a | Inr b \<Rightarrow> g b)"
  by (cases x) simp_all

lemma keeps_fdw_close [keeps_intro]: "keeps fd_wf (fdw_close os r)"
  unfolding fdw_close_def by (intro keeps_intro keeps_update_wrapper) (simp add: wrapper_ok_def)

lemma keeps_fdw_destruct [keeps_intro]: "keeps fd_wf (fdw_destruct os r)"
  unfolding fdw_destruct_def by (intro keeps_intro keeps_modifyM) simp

lemma keeps_fd_make: "keeps fd_wf (fd_make n)"
  by (auto simp: keeps_def fd_make_def fdw_make_def em_simps fd_wf_def wrapper_ok_def less_Suc_eq
      split: if_splits)

lemma keeps_live [keeps_intro]: "keeps P m \<Longrightarrow> keeps P (\<lambda>s. if b s then (x, s) else m s)"
  by (simp add: keeps_def)

lemma keeps_fd_duplicate: "keeps fd_wf (fd_duplicate r)"
  unfolding fd_duplicate_def by (intro keeps_intro keeps_live keeps_update_wrapper) (simp add: wrapper_ok_def)

lemma keeps_fd_release: "keeps fd_wf (fd_release os r)"
proof -
  have "fd_wf (snd (update_wrapper r (\<lambda>w. w\<lparr>fdw_uses := fdw_uses w - 1\<rparr>) s))"
    if "fd_wf s" "fd_heap s r = Some w" "fdw_uses w > 1" for s :: "('a, 'b) world_scheme" and w
    using that by (auto simp: update_wrapper_def deref_def em_simps wrapper_ok_def intro!: fd_wf_upd)
  moreover have "keeps fd_wf (seqM (fdw_destruct os r) (modifyM (\<lambda>s. s\<lparr>fd_heap := (fd_heap s)(r := None)\<rparr>)))"
    by (intro keeps_intro keeps_modifyM) (auto simp: fd_wf_def)
  ultimately show ?thesis
    unfolding keeps_def fd_release_def by (auto simp: bindM_apply deref_def split: option.splits)
qed

lemma keeps_releasing: "keeps fd_wf m \<Longrightarrow> keeps fd_wf (releasing os r m)"
  unfolding releasing_def by (intro keeps_intro keeps_fd_release)

lemma keeps_fd_read: "keeps fd_wf (fd_read_into os r str limit)"
  unfolding fd_read_into_def Let_def
  by (intro keeps_intro keeps_update_wrapper) (simp add: wrapper_ok_def)

lemma keeps_fd_write_once: "keeps fd_wf (fd_write_once os r buf)"
  unfolding fd_write_once_def by (intro keeps_intro)

lemma keeps_fd_write_gen:
  assumes "\<And>buf. keeps P (fd_write_once os r buf)"
  shows "keeps P (fd_write os r buf all :: (('k, 'z) world_scheme, size_t) em)"
proof -
  have "P (snd (fd_write_loop os r all t buf s))" if "P s" for t and s :: "('k, 'z) world_scheme"
    using that assms
  proof (induction os r all t buf s rule: fd_write_loop.induct)
    case (1 os r all t buf s)
    obtain x s1 where run: "fd_write_once os r buf s = (x, s1)" by force
    have "P s1"
      using keepsD [OF "1.prems"(2,1) run] .
    with run "1.IH" "1.prems"(2) show ?case
      by (cases x) (auto simp: fd_write_loop.simps [of os r all t buf s])
  qed
  then show ?thesis by (simp add: keeps_def fd_write_def)
qed

lemmas keeps_fd_write = keeps_fd_write_gen [OF keeps_fd_write_once]

lemma keeps_fd_set_blocking: "keeps fd_wf (fd_set_blocking os r b)"
  unfolding fd_set_blocking_def Let_def by (intro keeps_intro)

interpretation fds: op_system "fd_exec os" fd_wf for os
proof unfold_locales
  fix x
  show "keeps fd_wf (fd_exec os x)"
    by (cases x)
      (simp_all add: keeps_bindM keeps_returnM keeps_fd_make keeps_fd_duplicate keeps_fd_release fd_read_def
        keeps_fd_read fd_write_string_def keeps_fd_write fd_close_def keeps_fdw_close keeps_fd_set_blocking)
qed

section \<open>A concrete kernel\<close>

text \<open>A kernel that logs closes and the bytes written, and serves reads from nowhere.\<close>

definition log_os :: "(int list \<times> byte list) fd_os" where
  "log_os = \<lparr>os_close = (\<lambda>fd (c, b). ((0, 0, ()), (c @ [fd], b))),
     os_read = (\<lambda>fd n k. ((0, 0, []), k)),
     os_writev = (\<lambda>fd iov (c, b). let d = take 2 (iovecs_bytes iov) in ((int (length d), 0, ()), (c, b @ d))),
     os_getfl = (\<lambda>fd k. ((2050, 0, ()), k)), os_setfl = (\<lambda>fd fl k. ((0, 0, ()), k)),
     os_message = (\<lambda>_ _. ''error'')\<rparr>"

definition log_world :: "(int list \<times> byte list) world" where
  "log_world = \<lparr>kern = ([], []), errno = 0, cerr = [], fd_heap = Map.empty, fd_next = 0\<rparr>"

definition log_world_fd :: "(int list \<times> byte list) world" where
  "log_world_fd = log_world\<lparr>fd_heap := [0 \<mapsto> \<lparr>fdw_fd = 3, fdw_eof = False, fdw_closed = False,
     fdw_read_count = 0, fdw_write_count = 0, fdw_uses = 1\<rparr>], fd_next := 1\<rparr>"

section \<open>Lemmas\<close>

lemma deref_Some [em_simps]: "fd_heap s r = Some w \<Longrightarrow> deref r s = (Inr w, s)"
  by (simp add: deref_def)

lemma fd_num_Some [em_simps]: "fd_heap s r = Some w \<Longrightarrow> fd_num r s = (Inr (fdw_fd w), s)"
  by (simp add: fd_num_def em_simps)

lemma update_wrapper_Some [em_simps]:
  "fd_heap s r = Some w \<Longrightarrow> update_wrapper r f s = (Inr (), s\<lparr>fd_heap := (fd_heap s)(r := Some (f w))\<rparr>)"
  by (simp add: update_wrapper_def em_simps)

lemma sint_size_of: "length xs < 2 ^ 63 \<Longrightarrow> sint (size_of xs) = int (length xs)"
proof -
  assume len: "length xs < 2 ^ 63"
  then have "uint (size_of xs) = int (length xs)"
    by (simp add: size_of_def unsigned_of_nat take_bit_nat_eq_self)
  with len show ?thesis
    by (simp add: sint_uint signed_take_bit_int_eq_self)
qed

text \<open>One round of \<open>write\<close>: what the kernel took is a prefix, and it is gone from the view list.\<close>

lemma fd_write_once_spec:
  fixes s :: "('k, 'z) world_scheme"
  assumes con: "writev_contract os sent" and wf: "bvl_wf buf" and len: "length (bvl_contents buf) < 2 ^ 63"
    and r: "fd_heap s r = Some w"
  shows "case fd_write_once os r buf s of
      (Inl e, s') \<Rightarrow> \<exists>m. m \<le> length (bvl_contents buf) \<and>
        sent (kern s') (fdw_fd w) = sent (kern s) (fdw_fd w) @ take m (bvl_contents buf)
    | (Inr (n, rest), s') \<Rightarrow> unat n \<le> length (bvl_contents buf) \<and> (n = 0 \<longrightarrow> bvl_contents buf = []) \<and>
        bvl_wf rest \<and> bvl_contents rest = drop (unat n) (bvl_contents buf) \<and>
        sent (kern s') (fdw_fd w) = sent (kern s) (fdw_fd w) @ take (unat n) (bvl_contents buf) \<and>
        fd_heap s' r = Some (w\<lparr>fdw_write_count := fdw_write_count w + 1\<rparr>)"
proof -
  let ?c = "bvl_contents buf"
  obtain ret err k where call: "os_writev os (fdw_fd w) (bvl_as_iovecs buf) (kern s) = ((ret, err, ()), k)"
    by (metis prod.exhaust unit.exhaust)
  have ret: "- (2 ^ 31) \<le> ret" "ret < 2 ^ 31" "ret < 0 \<Longrightarrow> err \<noteq> 0" "ret \<le> int (length ?c)"
    and sent: "sent k (fdw_fd w) = sent (kern s) (fdw_fd w) @ take (nat ret) ?c"
    using con call unfolding writev_contract_def by (metis iovecs_of_views [OF wf])+
  have size: "bvl_size buf = size_of ?c" "sint (bvl_size buf) = int (length ?c)"
    using bvl.size_law [OF wf] sint_size_of [OF len] by simp_all
  consider (neg) "ret < 0" | (zero) "ret = 0" "bvl_size buf \<noteq> 0" | (ok) "0 \<le> ret" "ret = 0 \<longrightarrow> bvl_size buf = 0"
    by linarith
  then show ?thesis
  proof cases
    case neg
    then show ?thesis
      using sys_call_fails [of "os_writev os (fdw_fd w) (bvl_as_iovecs buf)" s ret err "()" k] call ret sent
        narrow_int_id [of ret] r
      by (auto simp: fd_write_once_def em_simps intro: exI [of _ 0])
  next
    case zero
    then show ?thesis
      using sys_call_ok [of "os_writev os (fdw_fd w) (bvl_as_iovecs buf)" s ret err "()" k] call ret sent r
      by (auto simp: fd_write_once_def em_simps intro: exI [of _ 0])
  next
    case ok
    have n: "unat (size_of_int ret) = nat ret"
      using ok ret by (simp add: unat_size_of_int)
    then have le: "unat (size_of_int ret) \<le> length ?c"
      using ret(4) by simp
    obtain rest where rest: "bvl_remove_prefix (size_of_int ret) buf = (Inr (), rest)" "bvl_wf rest"
        "bvl_contents rest = drop (nat ret) ?c"
      using bvl.drop_ok [OF wf le] n by auto
    have "?c = []" if "size_of_int ret = 0"
    proof -
      have "ret = 0" using that size_of_int_zero [OF ret(1,2)] by blast
      then have "size_of ?c = 0" using ok(2) size by simp
      moreover have "fits ?c" using len by (simp add: fits_def)
      ultimately show ?thesis
        using unat_size_of [of ?c] by simp
    qed
    moreover have "fd_write_once os r buf s = (Inr (size_of_int ret, rest),
        s\<lparr>kern := k, errno := err, fd_heap := (fd_heap s)(r := Some (w\<lparr>fdw_write_count := fdw_write_count w + 1\<rparr>))\<rparr>)"
      using sys_call_ok [of "os_writev os (fdw_fd w) (bvl_as_iovecs buf)" s ret err "()" k] call ret(2,4) ok r rest size
      by (simp add: fd_write_once_def em_simps register_write_def)
    ultimately show ?thesis
      using rest sent n le by simp
  qed
qed

lemma word_of_unat: "unat n = m \<Longrightarrow> n = of_nat m"
  by auto

text \<open>The outcome of \<open>write\<close>: a prefix was delivered, all of it if it returns with \<open>write_all\<close>; \<open>t\<close>
  counts the bytes of earlier rounds.\<close>

definition wrote :: "('k \<Rightarrow> int \<Rightarrow> byte list) \<Rightarrow> nat \<Rightarrow> fd_wrapper \<Rightarrow> byte list \<Rightarrow> bool \<Rightarrow> size_t \<Rightarrow> 'k \<Rightarrow>
    size_t result \<times> ('k, 'z) world_scheme \<Rightarrow> bool" where
  "wrote sent r w c all t k = (\<lambda>(x, s'). \<exists>m \<le> length c. sent (kern s') (fdw_fd w) = sent k (fdw_fd w) @ take m c \<and>
     (case x of Inl e \<Rightarrow> True
      | Inr n \<Rightarrow> n = t + of_nat m \<and> (all \<longrightarrow> m = length c) \<and> (\<exists>d. fd_heap s' r = Some (w\<lparr>fdw_write_count := d\<rparr>))))"

lemma wrote_more:
  assumes "wrote sent r (w\<lparr>fdw_write_count := d\<rparr>) (drop (unat n) c) all (t + n) k1 res" and "unat n \<le> length c"
    and "sent k1 (fdw_fd w) = sent k (fdw_fd w) @ take (unat n) c"
  shows "wrote sent r w c all t k res"
proof -
  obtain x s' where res: "res = (x, s')" by force
  show ?thesis
    using assms unfolding wrote_def res
    by (cases x) (force simp: take_add intro: exI [of _ "unat n + m" for m])+
qed

lemma fd_write_loop_spec:
  fixes s :: "('k, 'z) world_scheme"
  assumes "writev_contract os sent" and "bvl_wf buf" and "length (bvl_contents buf) < 2 ^ 63"
    and "fd_heap s r = Some w"
  shows "wrote sent r w (bvl_contents buf) all t (kern s) (fd_write_loop os r all t buf s)"
  using assms
proof (induction os r all t buf s arbitrary: w rule: fd_write_loop.induct)
  case (1 os r all t buf s)
  let ?c = "bvl_contents buf"
  note once = fd_write_once_spec [OF "1.prems"]
  obtain x s1 where run: "fd_write_once os r buf s = (x, s1)" by force
  show ?case
  proof (cases x)
    case (Inl e)
    with run once show ?thesis by (auto simp: fd_write_loop.simps [of os r all t buf s] wrote_def)
  next
    case (Inr p)
    obtain n rest where p: "p = (n, rest)" by force
    have f: "unat n \<le> length ?c" "bvl_wf rest" "bvl_contents rest = drop (unat n) ?c"
        "sent (kern s1) (fdw_fd w) = sent (kern s) (fdw_fd w) @ take (unat n) ?c"
        "fd_heap s1 r = Some (w\<lparr>fdw_write_count := fdw_write_count w + 1\<rparr>)"
      using once run Inr p by simp_all
    show ?thesis
    proof (cases "all \<and> bvl_size rest \<noteq> 0")
      case False
      have "all \<longrightarrow> unat n = length ?c"
      proof
        assume all
        then have "size_of (drop (unat n) ?c) = 0" using False f(3) bvl.size_law [OF f(2)] by simp
        moreover have "fits (drop (unat n) ?c)" using "1.prems"(3) by (simp add: fits_def)
        ultimately show "unat n = length ?c"
          using unat_size_of [of "drop (unat n) ?c"] f(1) by simp
      qed
      with False run Inr p f show ?thesis
        by (auto simp: fd_write_loop.simps [of os r all t buf s] wrote_def intro!: exI [of _ "unat n"] word_of_unat)
    next
      case True
      have len: "length (bvl_contents rest) < 2 ^ 63"
        using "1.prems"(3) f(3) by simp
      have "fd_write_loop os r all t buf s = fd_write_loop os r all (t + n) rest s1"
        unfolding fd_write_loop.simps [of os r all t buf s] using True run Inr p by simp
      then show ?thesis
        using "1.IH" [OF run [symmetric] Inr p [symmetric] True "1.prems"(1) f(2) len f(5)] f(3)
        by (auto intro: wrote_more [where sent = sent and w = w and n = n, OF _ f(1,4)])
    qed
  qed
qed

text \<open>With a kernel that always takes something, no round of \<open>write\<close> throws.\<close>

lemma fd_write_once_progress:
  fixes s :: "('k, 'z) world_scheme"
  assumes con: "writev_contract os sent" and prog: "writev_progress os"
    and wf: "bvl_wf buf" and len: "length (bvl_contents buf) < 2 ^ 63" and r: "fd_heap s r = Some w"
  shows "\<exists>n rest s'. fd_write_once os r buf s = (Inr (n, rest), s')"
proof -
  let ?c = "bvl_contents buf"
  obtain ret err k where call: "os_writev os (fdw_fd w) (bvl_as_iovecs buf) (kern s) = ((ret, err, ()), k)"
    by (metis prod.exhaust unit.exhaust)
  have ret: "ret < 2 ^ 31" "ret \<le> int (length ?c)"
    using con call unfolding writev_contract_def by (metis iovecs_of_views [OF wf])+
  have pos: "0 \<le> ret" "ret = 0 \<longrightarrow> ?c = []"
    using prog call unfolding writev_progress_def by (metis iovecs_of_views [OF wf] fst_conv order_less_irrefl)+
  have size: "bvl_size buf = size_of ?c" "sint (bvl_size buf) = int (length ?c)"
    using bvl.size_law [OF wf] sint_size_of [OF len] by simp_all
  have "unat (size_of_int ret) \<le> length ?c"
    using ret pos(1) by (simp add: unat_size_of_int)
  then obtain rest where "bvl_remove_prefix (size_of_int ret) buf = (Inr (), rest)"
    using bvl.drop_ok [OF wf] by auto
  then show ?thesis
    using sys_call_ok [of "os_writev os (fdw_fd w) (bvl_as_iovecs buf)" s ret err "()" k] call ret pos r size
    by (auto simp: fd_write_once_def em_simps register_write_def)
qed

lemma fd_write_loop_progress:
  fixes s :: "('k, 'z) world_scheme"
  assumes "writev_contract os sent" and "writev_progress os" and "bvl_wf buf" and "length (bvl_contents buf) < 2 ^ 63"
    and "fd_heap s r = Some w"
  shows "\<exists>n s'. fd_write_loop os r all t buf s = (Inr n, s')"
  using assms
proof (induction os r all t buf s arbitrary: w rule: fd_write_loop.induct)
  case (1 os r all t buf s)
  obtain n rest s1 where run: "fd_write_once os r buf s = (Inr (n, rest), s1)"
    using fd_write_once_progress [OF "1.prems"] by blast
  have f: "bvl_wf rest" "length (bvl_contents rest) < 2 ^ 63" "\<exists>w. fd_heap s1 r = Some w"
    using fd_write_once_spec [OF "1.prems"(1,3,4,5)] "1.prems"(4) by (simp_all add: run)
  then show ?case
    using "1.IH" [OF run [symmetric] refl refl _ "1.prems"(1,2) f(1,2)]
    by (auto simp: fd_write_loop.simps [of os r all t buf s] run)
qed

lemma fd_read_ok:
  fixes s :: "('k, 'z) world_scheme"
  assumes "fd_heap s r = Some w" and "os_read os (fdw_fd w) (min READ_BUFFER_SIZE (unat limit)) (kern s) = ((int m, err, data), k)"
    and "length data = m" and "m \<le> min READ_BUFFER_SIZE (unat limit)"
  shows "fd_read os r limit s =
    (Inr data, s\<lparr>kern := k, errno := err, fd_heap := (fd_heap s)(r := Some (w\<lparr>
       fdw_eof := fdw_eof w \<or> (limit > 0 \<and> m = 0), fdw_read_count := fdw_read_count w + 1\<rparr>))\<rparr>)"
proof -
  let ?n = "min READ_BUFFER_SIZE (unat limit)"
  have "resize (overlay data (resize [] ?n)) m = data"
    using assms(3,4) by (simp add: resize_def overlay_def)
  moreover have "int m < 2 ^ 31" using assms(4) by (simp add: READ_BUFFER_SIZE_def)
  ultimately show ?thesis
    using sys_call_ok [of "os_read os (fdw_fd w) ?n" s "int m" err data k] assms
    by (auto simp: fd_read_def fd_read_into_def Let_def register_read_def em_simps fun_upd_upd)
qed

lemma fd_release_shared:
  assumes "fd_heap s r = Some w" and "fdw_uses w > 1"
  shows "fd_release os r s =
    (Inr (), s\<lparr>fd_heap := (fd_heap s)(r := Some (w\<lparr>fdw_uses := fdw_uses w - 1\<rparr>))\<rparr>)"
  using assms by (simp add: fd_release_def em_simps)

text \<open>The last owner: the descriptor is closed unless it already was; a failing \<open>close\<close> is logged,
  never thrown.\<close>

lemma fd_release_last:
  fixes s :: "('k, 'z) world_scheme"
  assumes "fd_heap s r = Some w" and "fdw_uses w = 1"
  shows "\<exists>s'. fd_release os r s = (Inr (), s') \<and> fd_heap s' = (fd_heap s)(r := None) \<and> fd_next s' = fd_next s \<and>
    kern s' = (if fdw_closed w then kern s else snd (os_close os (fdw_fd w) (kern s)))"
proof -
  obtain ret err k where call: "os_close os (fdw_fd w) (kern s) = ((ret, err, ()), k)"
    by (metis prod.exhaust unit.exhaust)
  have "\<exists>s'. fdw_destruct os r s = (Inr (), s') \<and> (fd_heap s')(r := None) = (fd_heap s)(r := None) \<and>
      fd_next s' = fd_next s \<and> kern s' = (if fdw_closed w then kern s else k)"
  proof (cases "fdw_closed w")
    case True
    then show ?thesis using assms by (simp add: fdw_destruct_def em_simps)
  next
    case False
    then show ?thesis
      using assms call
      by (auto simp: fdw_destruct_def fdw_close_def em_simps sys_call_apply is_exception_def unix_error_def
          split: if_splits)
  qed
  then show ?thesis
    using assms call by (auto simp: fd_release_def em_simps)
qed

lemma fd_release_uses:
  fixes s :: "('k, 'z) world_scheme"
  assumes "fd_heap s r = Some w" and "wrapper_ok w"
  shows "\<exists>s'. fd_release os r s = (Inr (), s') \<and> (\<forall>x. uses_of s' x = uses_of s x - (if x = r then 1 else 0))"
proof (cases "fdw_uses w > 1")
  case True
  then show ?thesis
    using fd_release_shared [OF assms(1) True, of os] assms(1) by (simp add: uses_of_def)
next
  case False
  then have one: "fdw_uses w = 1" using assms(2) by (simp add: wrapper_ok_def)
  then obtain s' where "fd_release os r s = (Inr (), s')" "fd_heap s' = (fd_heap s)(r := None)"
    using fd_release_last [OF assms(1), of os] by auto
  then show ?thesis
    using assms(1) one by (auto simp: uses_of_def)
qed

lemma bit_O_NONBLOCK: "bit O_NONBLOCK i \<longleftrightarrow> i = 11"
proof -
  have eq: "O_NONBLOCK = 2 ^ 11" by (simp add: O_NONBLOCK_def)
  show ?thesis unfolding eq bit_exp_iff by (auto simp: possible_bit_def)
qed

lemma log_os_writev: "writev_contract log_os (\<lambda>k _. snd k)"
proof -
  have "take (min (length xs) 2) xs = take 2 xs" for xs :: "byte list"
    by (simp add: min_def)
  then show ?thesis
    by (auto simp: writev_contract_def log_os_def Let_def)
qed

lemma demo_views:
  "bvl_wf (bvl_of_string [1, 2, 3])" "length (bvl_contents (bvl_of_string [1, 2, 3])) < 2 ^ 63"
  "bvl_contents (bvl_of_string [1, 2, 3]) = [1, 2, 3]"
  by (simp_all add: bvl_wf_def bvl_of_string_def bvl_of_view_def fits_def bvl_contents_def)

section \<open>Properties\<close>

text \<open>C5. Shared ownership closes exactly once: releasing all the owners of a wrapper never throws,
  leaves the kernel alone until the last owner goes, and then calls \<open>close\<close> on the descriptor
  once, or not at all when it had been closed explicitly; the wrapper is gone afterwards and
  no other wrapper has changed.\<close>

theorem fd_closed_exactly_once:
  fixes s :: "('k, 'z) world_scheme"
  assumes "fd_heap s r = Some w" and "fdw_uses w = Suc n"
  shows "\<exists>s'. run_ops (\<lambda>_. fd_release os r) (replicate (Suc n) ()) s = (Inr (replicate (Suc n) ()), s') \<and>
    kern s' = (if fdw_closed w then kern s else snd (os_close os (fdw_fd w) (kern s))) \<and>
    fd_heap s' = (fd_heap s)(r := None)"
  using assms
proof (induction n arbitrary: s w)
  case 0
  then show ?case using fd_release_last [of s r w os] by (auto simp: em_simps)
next
  case (Suc n)
  let ?w = "w\<lparr>fdw_uses := Suc n\<rparr>"
  let ?s = "s\<lparr>fd_heap := (fd_heap s)(r := Some ?w)\<rparr>"
  have "fd_release os r s = (Inr (), ?s)"
    using fd_release_shared [OF Suc.prems(1)] Suc.prems(2) by simp
  moreover have "fd_heap ?s r = Some ?w" "fdw_uses ?w = Suc n" by simp_all
  from Suc.IH [OF this] obtain s' where
    "run_ops (\<lambda>_. fd_release os r) (replicate (Suc n) ()) ?s = (Inr (replicate (Suc n) ()), s')"
    "kern s' = (if fdw_closed ?w then kern ?s else snd (os_close os (fdw_fd ?w) (kern ?s)))"
    "fd_heap s' = (fd_heap ?s)(r := None)"
    by blast
  ultimately show ?case
    by (simp only: replicate_Suc run_ops.simps(2) [of _ _ "() # replicate n ()"] bindM_apply) (simp add: returnM_apply fun_eq_iff)
qed

theorem fd_closed_exactly_once_witness:
  "\<exists>s'. run_ops (\<lambda>_. fd_release log_os 0) [(), ()] (log_world_fd\<lparr>fd_heap := [0 \<mapsto> \<lparr>fdw_fd = 3, fdw_eof = False,
     fdw_closed = False, fdw_read_count = 0, fdw_write_count = 0, fdw_uses = 2\<rparr>]\<rparr>) = (Inr [(), ()], s') \<and>
   kern s' = ([3], [])"
proof -
  let ?w = "\<lparr>fdw_fd = 3, fdw_eof = False, fdw_closed = False, fdw_read_count = 0, fdw_write_count = 0, fdw_uses = 2\<rparr>"
  let ?s = "log_world_fd\<lparr>fd_heap := [0 \<mapsto> ?w]\<rparr>"
  have "fd_heap ?s 0 = Some ?w" "fdw_uses ?w = Suc 1" by simp_all
  from fd_closed_exactly_once [OF this, of log_os] show ?thesis
    by (auto simp: log_world_fd_def log_world_def log_os_def)
qed

text \<open>C1. \<open>write\<close> against any kernel that keeps to \<open>writev\<close>'s contract, which may take any part of the
  data each time: if it returns, the descriptor has received exactly the reported number of
  bytes from the front of the data, in order, and with \<open>write_all\<close> all of them; if it throws,
  a prefix has been received. The loop always ends.\<close>

theorem fd_write_delivers:
  fixes s :: "('k, 'z) world_scheme"
  assumes "writev_contract os sent" and "bvl_wf buf" and "length (bvl_contents buf) < 2 ^ 63"
    and "fd_heap s r = Some w"
  shows "case fd_write os r buf all s of
      (Inl e, s') \<Rightarrow> \<exists>m. m \<le> length (bvl_contents buf) \<and>
        sent (kern s') (fdw_fd w) = sent (kern s) (fdw_fd w) @ take m (bvl_contents buf)
    | (Inr n, s') \<Rightarrow> unat n \<le> length (bvl_contents buf) \<and> (all \<longrightarrow> unat n = length (bvl_contents buf)) \<and>
        sent (kern s') (fdw_fd w) = sent (kern s) (fdw_fd w) @ take (unat n) (bvl_contents buf)"
proof -
  have "unat (of_nat m :: size_t) = m" if "m \<le> length (bvl_contents buf)" for m
    using that assms(3) by (simp add: unat_of_nat)
  then show ?thesis
    using fd_write_loop_spec [OF assms, where all = all and t = 0]
    by (fastforce simp: fd_write_def wrote_def split: prod.splits sum.splits)
qed

theorem fd_write_delivers_witness:
  "writev_contract log_os (\<lambda>k _. snd k) \<and> bvl_wf (bvl_of_string [1, 2, 3]) \<and>
   (case fd_write log_os 0 (bvl_of_string [1, 2, 3]) True log_world_fd of
      (Inl e, s') \<Rightarrow> \<exists>m. snd (kern s') = take m [1, 2, 3]
    | (Inr n, s') \<Rightarrow> unat n = 3 \<and> snd (kern s') = [1, 2, 3])"
proof -
  note c = log_os_writev
  note b = demo_views
  have r: "fd_heap log_world_fd 0 = Some \<lparr>fdw_fd = 3, fdw_eof = False, fdw_closed = False,
      fdw_read_count = 0, fdw_write_count = 0, fdw_uses = 1\<rparr>"
    by (simp add: log_world_fd_def)
  have k: "kern log_world_fd = ([], [])"
    by (simp add: log_world_fd_def log_world_def)
  show ?thesis
    using c b fd_write_delivers [OF c b(1,2) r, of True]
    by (auto simp: b(3) k split: prod.splits sum.splits)
qed

text \<open>A kernel that keeps something beside its state, and one that counts the \<open>writev\<close> calls in this way.\<close>

definition beside :: "('k \<Rightarrow> 'o \<times> 'k) \<Rightarrow> 'k \<times> 'n \<Rightarrow> 'o \<times> 'k \<times> 'n" where
  "beside c = (\<lambda>(k, n). case c k of (out, k') \<Rightarrow> (out, (k', n)))"

definition count_writev :: "('k, 'y) fd_os_scheme \<Rightarrow> ('k \<times> nat) fd_os" where
  "count_writev os = \<lparr>os_close = (\<lambda>fd. beside (os_close os fd)), os_read = (\<lambda>fd n. beside (os_read os fd n)),
     os_writev = (\<lambda>fd iov (k, n). beside (os_writev os fd iov) (k, Suc n)), os_getfl = (\<lambda>fd. beside (os_getfl os fd)),
     os_setfl = (\<lambda>fd fl. beside (os_setfl os fd fl)), os_message = os_message os\<rparr>"

lemma fd_write_once_counted:
  fixes s :: "('k \<times> nat, 'z) world_scheme"
  assumes "fd_heap s r = Some w" and "fd_write_once (count_writev os) r buf s = (x, s')"
  shows "snd (kern s') = Suc (snd (kern s))" and "\<exists>w'. fd_heap s' r = Some w'"
proof -
  obtain k n where k: "kern s = (k, n)" by fastforce
  obtain ret err k' where "os_writev os (fdw_fd w) (bvl_as_iovecs buf) k = ((ret, err, ()), k')"
    by (metis prod.exhaust unit.exhaust)
  then have "os_writev (count_writev os) (fdw_fd w) (bvl_as_iovecs buf) (kern s) = ((ret, err, ()), (k', Suc n))"
    by (simp add: count_writev_def beside_def k)
  then have "snd (kern s') = Suc n \<and> (\<exists>w'. fd_heap s' r = Some w')"
    using assms by (auto simp: fd_write_once_def em_simps sys_call_apply register_write_def
        split: if_splits prod.splits sum.splits)
  then show "snd (kern s') = Suc (snd (kern s))" and "\<exists>w'. fd_heap s' r = Some w'" by (simp_all add: k)
qed

text \<open>C11. The loop of \<open>write\<close> ends whatever the kernel does, even one that breaks the contract of
  \<open>writev\<close>: for a buffer of \<open>n\<close> bytes it calls \<open>writev\<close> at least once and at most \<open>n\<close> times,
  or once when the buffer is empty, and exactly once without \<open>write_all\<close>. The calls are those that the kernel counts.\<close>

theorem fd_write_terminates:
  fixes s :: "('k \<times> nat, 'z) world_scheme"
  assumes "fd_heap s r = Some w"
  shows "\<exists>x s' calls. fd_write (count_writev os) r buf write_all s = (x, s') \<and> snd (kern s') = snd (kern s) + calls \<and>
    1 \<le> calls \<and> calls \<le> max 1 (length (bvl_contents buf)) \<and> (\<not> write_all \<longrightarrow> calls = 1)"
proof -
  have "\<exists>x s' calls. fd_write_loop (count_writev os) r write_all t buf s = (x, s') \<and> snd (kern s') = snd (kern s) + calls \<and>
      1 \<le> calls \<and> calls \<le> max 1 (length (bvl_contents buf)) \<and> (\<not> write_all \<longrightarrow> calls = 1)" for t
    using assms
  proof (induction "length (bvl_contents buf)" arbitrary: buf s t w rule: less_induct)
    case less
    obtain x s' where once: "fd_write_once (count_writev os) r buf s = (x, s')" by fastforce
    note counted = fd_write_once_counted [OF less.prems once]
    show ?case
    proof (cases "write_all \<and> (\<exists>n rest. x = Inr (n, rest) \<and> bvl_size rest \<noteq> 0)")
      case True
      then obtain n rest where x: "x = Inr (n, rest)" "bvl_size rest \<noteq> 0" "write_all" by blast
      note shorter = fd_write_once_shorter [OF once [unfolded x(1)] x(2)]
      obtain y s2 calls where rec: "fd_write_loop (count_writev os) r write_all (t + n) rest s' = (y, s2)"
          "snd (kern s2) = snd (kern s') + calls" "1 \<le> calls" "calls \<le> max 1 (length (bvl_contents rest))"
        using less.hyps [OF shorter] counted(2) by blast
      have "bvl_contents rest \<noteq> []" using x(2) by (auto simp: bvl_size_eq)
      then have "Suc calls \<le> length (bvl_contents buf)"
        using rec(4) shorter by (cases "bvl_contents rest") auto
      with rec x once counted(1) show ?thesis
        by (intro exI [of _ y] exI [of _ s2] exI [of _ "Suc calls"]) (simp add: fd_write_loop.simps [of _ _ _ _ buf])
    next
      case False
      then have "snd (fd_write_loop (count_writev os) r write_all t buf s) = s'"
        using once by (auto simp: fd_write_loop.simps [of _ _ _ _ buf] split: sum.splits)
      with counted(1) show ?thesis
        by (intro exI [of _ "fst (fd_write_loop (count_writev os) r write_all t buf s)"] exI [of _ s'] exI [of _ 1])
          (simp add: prod_eq_iff)
    qed
  qed
  then show ?thesis by (simp add: fd_write_def)
qed

text \<open>A kernel that takes one byte at a time needs a call for each of three bytes.\<close>

lemma fd_write_terminates_witness:
  "\<exists>x s' calls. fd_write (count_writev (log_os\<lparr>os_writev := (\<lambda>fd iov k. ((1, 0, ()), k))\<rparr>)) 0 (bvl_of_string [1, 2, 3]) True
      \<lparr>kern = (([], []), 0), errno = 0, cerr = [], fd_heap = fd_heap log_world_fd, fd_next = 1\<rparr> = (x, s') \<and>
    snd (kern s') = calls \<and> 1 \<le> calls \<and> calls \<le> 3"
proof -
  let ?s = "\<lparr>kern = (([], []), 0), errno = 0, cerr = [], fd_heap = fd_heap log_world_fd, fd_next = 1\<rparr>"
  have w: "fd_heap ?s 0 = Some (the (fd_heap log_world_fd 0))" by (simp add: log_world_fd_def)
  have "length (bvl_contents (bvl_of_string [1, 2, 3])) = 3"
    by (simp add: bvl_contents_def bvl_of_string_def bvl_of_view_def)
  then show ?thesis
    using fd_write_terminates [OF w, of "log_os\<lparr>os_writev := (\<lambda>fd iov k. ((1, 0, ()), k))\<rparr>" "bvl_of_string [1, 2, 3]" True] by simp
qed

text \<open>C10. \<open>write\<close> with \<open>write_all\<close> on a descriptor that always takes at least one byte of what is offered,
  however little each time, comes to an end without an exception with every byte delivered.\<close>

theorem fd_write_all_completes:
  fixes s :: "('k, 'z) world_scheme"
  assumes "writev_contract os sent" and "writev_progress os" and "bvl_wf buf" and "length (bvl_contents buf) < 2 ^ 63"
    and "fd_heap s r = Some w"
  shows "\<exists>n s'. fd_write os r buf True s = (Inr n, s') \<and> unat n = length (bvl_contents buf) \<and>
    sent (kern s') (fdw_fd w) = sent (kern s) (fdw_fd w) @ bvl_contents buf"
proof -
  obtain n s' where run: "fd_write_loop os r True 0 buf s = (Inr n, s')"
    using fd_write_loop_progress [OF assms] by blast
  moreover have "unat (of_nat (length (bvl_contents buf)) :: size_t) = length (bvl_contents buf)"
    using assms(4) by (simp add: unat_of_nat)
  ultimately show ?thesis
    using fd_write_loop_spec [OF assms(1,3-5), where all = True and t = 0]
    by (auto simp: fd_write_def wrote_def)
qed

theorem fd_write_all_completes_witness:
  "writev_progress log_os \<and>
   (\<exists>n s'. fd_write log_os 0 (bvl_of_string [1, 2, 3]) True log_world_fd = (Inr n, s') \<and> unat n = 3 \<and> snd (kern s') = [1, 2, 3])"
proof -
  note c = log_os_writev
  have p: "writev_progress log_os"
    by (auto simp: writev_progress_def log_os_def Let_def split: prod.splits)
  note b = demo_views
  have r: "fd_heap log_world_fd 0 = Some \<lparr>fdw_fd = 3, fdw_eof = False, fdw_closed = False,
      fdw_read_count = 0, fdw_write_count = 0, fdw_uses = 1\<rparr>" "kern log_world_fd = ([], [])"
    by (simp_all add: log_world_fd_def log_world_def)
  show ?thesis
    using p fd_write_all_completes [OF c p b(1,2) r(1)] by (simp add: b(3) r(2) numeral_3_eq_3)
qed

text \<open>C32. \<open>read(limit)\<close> asks the kernel for at most one mebibyte, returns exactly the bytes the kernel
  stored, counts the read once, and raises the end-of-file flag exactly when something was
  asked for and nothing came; when the call fails it throws \<open>unix_error\<close> and neither the flag
  nor the counter changes.\<close>

theorem fd_read_correct:
  fixes s :: "('k, 'z) world_scheme"
  assumes "read_contract os" and "fd_heap s r = Some w"
    and "os_read os (fdw_fd w) (min READ_BUFFER_SIZE (unat limit)) (kern s) = ((ret, err, data), k)"
  shows "fd_read os r limit s =
    (if ret < 0 then (Inl (unix_error ''read'' err), s\<lparr>kern := k, errno := err\<rparr>)
     else (Inr data, s\<lparr>kern := k, errno := err, fd_heap := (fd_heap s)(r := Some (w\<lparr>
       fdw_eof := fdw_eof w \<or> (limit > 0 \<and> ret = 0), fdw_read_count := fdw_read_count w + 1\<rparr>))\<rparr>))"
proof -
  let ?n = "min READ_BUFFER_SIZE (unat limit)"
  have c: "- (2 ^ 31) \<le> ret" "ret < 2 ^ 31" "ret < 0 \<Longrightarrow> err \<noteq> 0" "ret \<le> int ?n"
    "0 \<le> ret \<Longrightarrow> length data = nat ret"
    using assms(1,3) unfolding read_contract_def by metis+
  show ?thesis
  proof (cases "ret < 0")
    case True
    then show ?thesis
      using sys_call_fails [of "os_read os (fdw_fd w) ?n" s ret err data k] assms c narrow_int_id [of ret]
      by (simp add: fd_read_def fd_read_into_def Let_def em_simps)
  next
    case False
    then have "ret = int (nat ret)" "length data = nat ret" "nat ret \<le> ?n" using c by auto
    with False show ?thesis
      using fd_read_ok [OF assms(2), of os limit "nat ret" err data k] assms(3) by (cases "0 \<le> ret") auto
  qed
qed

theorem fd_read_correct_witness:
  "read_contract log_os \<and>
   fd_read log_os 0 10 log_world_fd = (Inr [], log_world_fd\<lparr>fd_heap := (fd_heap log_world_fd)(0 := Some
     \<lparr>fdw_fd = 3, fdw_eof = True, fdw_closed = False, fdw_read_count = 1, fdw_write_count = 0, fdw_uses = 1\<rparr>)\<rparr>)"
proof -
  have c: "read_contract log_os"
    by (simp add: read_contract_def log_os_def)
  have r: "fd_heap log_world_fd 0 = Some \<lparr>fdw_fd = 3, fdw_eof = False, fdw_closed = False,
      fdw_read_count = 0, fdw_write_count = 0, fdw_uses = 1\<rparr>"
    by (simp add: log_world_fd_def)
  have call: "os_read log_os 3 (min READ_BUFFER_SIZE (unat (10 :: size_t))) (kern log_world_fd) = ((0, 0, []), kern log_world_fd)"
    by (simp add: log_os_def)
  have e: "log_world_fd\<lparr>kern := kern log_world_fd, errno := 0\<rparr> = log_world_fd"
    by (simp add: log_world_fd_def log_world_def)
  show ?thesis
    using c fd_read_correct [OF c r, of 10 0 0 "[]" "kern log_world_fd"] call e by simp
qed

text \<open>\<open>set_blocking\<close> stores the flags it read with the \<open>O_NONBLOCK\<close> bit cleared (blocking) or set
  (non-blocking) and every other bit unchanged.\<close>

lemma fd_set_blocking_correct:
  fixes s :: "('k, 'z) world_scheme"
  assumes "fd_heap s r = Some w"
    and "os_getfl os (fdw_fd w) (kern s) = ((fl, err, ()), k)" and "0 \<le> fl" and "fl < 2 ^ 31"
    and "\<forall>i. bit flags i = (if i = 11 then \<not> blocking else bit (word_of_int fl :: uint32) i)"
    and "os_setfl os (fdw_fd w) flags k = ((ret, err', ()), k')" and "0 \<le> ret" and "ret < 2 ^ 31"
  shows "fd_set_blocking os r blocking s = (Inr (), s\<lparr>kern := k', errno := err'\<rparr>)"
proof -
  let ?fl = "word_of_int fl :: uint32"
  have "flags = (if blocking then ?fl XOR (?fl AND O_NONBLOCK) else ?fl OR O_NONBLOCK)"
    using assms(5) by (intro bit_word_eqI) (auto simp: bit_simps bit_O_NONBLOCK)
  moreover have "sys_call ''fcntl'' (os_getfl os (fdw_fd w)) s = (Inr (fl, ()), s\<lparr>kern := k, errno := err\<rparr>)"
    using assms(2-4) by (intro sys_call_ok) simp_all
  moreover have "sys_call ''fcntl'' (os_setfl os (fdw_fd w) flags) (s\<lparr>kern := k, errno := err\<rparr>) =
      (Inr (ret, ()), s\<lparr>kern := k', errno := err'\<rparr>)"
    using assms(6-8) sys_call_ok [of "os_setfl os (fdw_fd w) flags" "s\<lparr>kern := k, errno := err\<rparr>" ret err' "()" k'] by simp
  ultimately show ?thesis
    using assms(1) by (simp add: fd_set_blocking_def em_simps Let_def)
qed

end
