(* ===== verification/Event_Loop.thy ===== *)
theory Event_Loop
  imports File_Descriptor "HOL-Library.Sublist"
begin

text \<open>
  \<open>libsponge/util/eventloop.hh\<close> and \<open>eventloop.cc\<close>. The loop owns a list of rules, each with a
  duplicate of a \<open>FileDescriptor\<close> and three closures. A closure is a value of type \<open>'c\<close>; what
  calling it does is given by \<open>closures\<close>, so a callback can change anything, the rule list
  of the loop it runs in included: \<open>std::list::push_back\<close> in a callback is visible to the
  iteration that is going on. Iterators are positions in the list, which stay valid as long as
  closures only append, the only thing \<open>add_rule\<close> does.
\<close>

section \<open>State\<close>

datatype direction = In | Out

datatype ev_result = Success | Timeout | Exit

record 'c rule =
  rule_fd :: nat
  rule_direction :: direction
  rule_callback :: 'c
  rule_interest :: 'c
  rule_cancel :: 'c

record ('k, 'c) loop_world = "'k world" +
  ev_rules :: "'c rule list"

record ('c, 's) closures =
  call :: "'c \<Rightarrow> ('s, unit) em"
  ask :: "'c \<Rightarrow> ('s, bool) em"

record pollfd =
  pfd_fd :: int
  events :: uint16
  revents :: uint16

text \<open>\<open>poll\<close> hands back the \<open>revents\<close> it stored, one per entry.\<close>

record 'k ev_os = "'k fd_os" +
  os_poll :: "pollfd list \<Rightarrow> int \<Rightarrow> ('k, uint16 list) syscall"

definition POLLIN :: uint16 where
  "POLLIN = 1"

definition POLLOUT :: uint16 where
  "POLLOUT = 4"

definition POLLERR :: uint16 where
  "POLLERR = 8"

definition POLLHUP :: uint16 where
  "POLLHUP = 16"

definition POLLNVAL :: uint16 where
  "POLLNVAL = 32"

definition EINTR :: int where
  "EINTR = 4"

definition direction_events :: "direction \<Rightarrow> uint16" where
  "direction_events d = (case d of In \<Rightarrow> POLLIN | Out \<Rightarrow> POLLOUT)"

definition service_count :: "'c rule \<Rightarrow> (('k, 'c, 'z) loop_world_scheme, uint32) em" where
  "service_count rule =
     (if rule_direction rule = In then fd_read_count (rule_fd rule) else fd_write_count (rule_fd rule))"

definition add_rule :: "nat \<Rightarrow> direction \<Rightarrow> 'c \<Rightarrow> 'c \<Rightarrow> 'c \<Rightarrow> (('k, 'c, 'z) loop_world_scheme, unit) em" where
  "add_rule fd d callback interest cancel = bindM (fd_duplicate fd) (\<lambda>r. modifyM (\<lambda>s. s\<lparr>ev_rules := ev_rules s @
     [\<lparr>rule_fd = r, rule_direction = d, rule_callback = callback, rule_interest = interest, rule_cancel = cancel\<rparr>]\<rparr>))"

section \<open>The steps of \<open>wait_next_event\<close>\<close>

definition rule_at :: "nat \<Rightarrow> (('k, 'c, 'z) loop_world_scheme, 'c rule) em" where
  "rule_at i = (\<lambda>s. if i < length (ev_rules s) then (Inr (ev_rules s ! i), s)
     else (Inl (Undefined_behaviour ''dereferenced end()''), s))"

text \<open>\<open>_rules.erase(it)\<close> destroys the rule and with it its \<open>FileDescriptor\<close>.\<close>

definition erase_rule :: "('k, 'y) fd_os_scheme \<Rightarrow> nat \<Rightarrow> (('k, 'c, 'z) loop_world_scheme, unit) em" where
  "erase_rule os i = bindM (rule_at i) (\<lambda>rule.
     seqM (modifyM (\<lambda>s. s\<lparr>ev_rules := take i (ev_rules s) @ drop (Suc i) (ev_rules s)\<rparr>))
       (fd_release os (rule_fd rule)))"

definition cancel_rule :: "('k, 'y) fd_os_scheme \<Rightarrow> ('c, ('k, 'c, 'z) loop_world_scheme) closures \<Rightarrow> nat \<Rightarrow>
    'c rule \<Rightarrow> (('k, 'c, 'z) loop_world_scheme, unit) em" where
  "cancel_rule os cl i rule = seqM (call cl (rule_cancel rule)) (erase_rule os i)"

text \<open>The body of the first loop: \<open>None\<close> when the rule was erased, otherwise its \<open>pollfd\<close> and
  whether it is interested.\<close>

definition setup_rule :: "('k, 'y) fd_os_scheme \<Rightarrow> ('c, ('k, 'c, 'z) loop_world_scheme) closures \<Rightarrow> nat \<Rightarrow>
    (('k, 'c, 'z) loop_world_scheme, (pollfd \<times> bool) option) em" where
  "setup_rule os cl i = bindM (rule_at i) (\<lambda>rule.
     bindM (if rule_direction rule = In then fd_eof (rule_fd rule) else returnM False) (\<lambda>at_eof.
     if at_eof then seqM (cancel_rule os cl i rule) (returnM None)
     else bindM (fd_closed (rule_fd rule)) (\<lambda>is_closed.
     if is_closed then seqM (cancel_rule os cl i rule) (returnM None)
     else bindM (ask cl (rule_interest rule)) (\<lambda>interested.
     bindM (fd_num (rule_fd rule)) (\<lambda>n.
     returnM (Some (\<lparr>pfd_fd = n, events = (if interested then direction_events (rule_direction rule) else 0),
       revents = 0\<rparr>, interested)))))))"

text \<open>The loop ends when the iterator reaches the end, which closures that keep adding rules can
  put off for ever.\<close>

partial_function (option) setup_loop :: "('k, 'y) fd_os_scheme \<Rightarrow> ('c, ('k, 'c, 'z) loop_world_scheme) closures \<Rightarrow>
    nat \<Rightarrow> pollfd list \<Rightarrow> bool \<Rightarrow> ('k, 'c, 'z) loop_world_scheme \<Rightarrow>
    ((pollfd list \<times> bool) result \<times> ('k, 'c, 'z) loop_world_scheme) option" where
  "setup_loop os cl i pollfds something_to_poll s =
     (if i < length (ev_rules s) then
        (case setup_rule os cl i s of
           (Inl e, s') \<Rightarrow> Some (Inl e, s')
         | (Inr None, s') \<Rightarrow> setup_loop os cl i pollfds something_to_poll s'
         | (Inr (Some (p, interested)), s') \<Rightarrow>
             setup_loop os cl (Suc i) (pollfds @ [p]) (something_to_poll \<or> interested) s')
      else Some (Inr (pollfds, something_to_poll), s))"

definition store_revents :: "pollfd list \<Rightarrow> uint16 list \<Rightarrow> pollfd list" where
  "store_revents pollfds rs = map2 (\<lambda>p r. p\<lparr>revents := r\<rparr>) pollfds (rs @ replicate (length pollfds - length rs) 0)"

text \<open>The \<open>try\<close> block: \<open>Some\<close> result when the function returns from it. A \<open>unix_error\<close> with a code
  other than \<open>EINTR\<close> is caught and dropped.\<close>

definition poll_rules :: "('k, 'y) ev_os_scheme \<Rightarrow> pollfd list \<Rightarrow> int \<Rightarrow>
    (('k, 'c, 'z) loop_world_scheme, ev_result option \<times> pollfd list) em" where
  "poll_rules os pollfds timeout_ms =
     bindM (enter_kernel (os_poll os pollfds timeout_ms)) (\<lambda>(ret, rs).
     bindM (catchM
       (bindM (SystemCall ''poll'' (narrow_int ret) 0) (\<lambda>n. returnM (if n = 0 then Some Timeout else None)))
       (\<lambda>e. case e of
          Tagged_error System_category _ code \<Rightarrow> returnM (if code = EINTR then Some Exit else None)
        | _ \<Rightarrow> throwM e)) (\<lambda>r.
     returnM (r, store_revents pollfds rs)))"

text \<open>The check after a callback has run.\<close>

definition busy_wait :: exn where
  "busy_wait = Runtime_error
     ''EventLoop: busy wait detected: callback did not read/write fd and is still interested''"

definition busy_check :: "('c, ('k, 'c, 'z) loop_world_scheme) closures \<Rightarrow> 'c rule \<Rightarrow> uint32 \<Rightarrow>
    (('k, 'c, 'z) loop_world_scheme, bool) em" where
  "busy_check cl rule count_before = bindM (service_count rule) (\<lambda>count_after.
     bindM (if count_before = count_after then ask cl (rule_interest rule) else returnM False) (\<lambda>busy.
     if busy then throwM busy_wait else returnM False))"

text \<open>The body of the second loop: whether the rule was erased.\<close>

definition poll_error :: exn where
  "poll_error = Runtime_error ''EventLoop: error on polled file descriptor''"

definition handle_result :: "('k, 'y) fd_os_scheme \<Rightarrow> ('c, ('k, 'c, 'z) loop_world_scheme) closures \<Rightarrow> nat \<Rightarrow>
    pollfd \<Rightarrow> (('k, 'c, 'z) loop_world_scheme, bool) em" where
  "handle_result os cl i p =
     (if revents p AND (POLLERR OR POLLNVAL) \<noteq> 0
      then throwM poll_error
      else bindM (rule_at i) (\<lambda>rule.
        let poll_ready = (revents p AND events p \<noteq> 0);
            poll_hup = (revents p AND POLLHUP \<noteq> 0)
        in if poll_hup \<and> events p \<noteq> 0 \<and> \<not> poll_ready then seqM (cancel_rule os cl i rule) (returnM True)
           else if poll_ready then
             bindM (service_count rule) (\<lambda>count_before.
             seqM (call cl (rule_callback rule)) (busy_check cl rule count_before))
           else returnM False))"

fun results_loop :: "('k, 'y) fd_os_scheme \<Rightarrow> ('c, ('k, 'c, 'z) loop_world_scheme) closures \<Rightarrow> nat \<Rightarrow>
    pollfd list \<Rightarrow> (('k, 'c, 'z) loop_world_scheme, unit) em" where
  "results_loop os cl i [] s =
     (if i < length (ev_rules s) then (Inl (Undefined_behaviour ''pollfds[idx] out of range''), s) else (Inr (), s))"
| "results_loop os cl i (p # ps) s =
     (if i < length (ev_rules s) then
        (case handle_result os cl i p s of
           (Inl e, s') \<Rightarrow> (Inl e, s')
         | (Inr erased, s') \<Rightarrow> results_loop os cl (if erased then i else Suc i) ps s')
      else (Inr (), s))"

definition wait_next_event :: "('k, 'y) ev_os_scheme \<Rightarrow> ('c, ('k, 'c, 'z) loop_world_scheme) closures \<Rightarrow> int \<Rightarrow>
    ('k, 'c, 'z) loop_world_scheme \<Rightarrow> (ev_result result \<times> ('k, 'c, 'z) loop_world_scheme) option" where
  "wait_next_event os cl timeout_ms s = (case setup_loop os cl 0 [] False s of
       None \<Rightarrow> None
     | Some (Inl e, s') \<Rightarrow> Some (Inl e, s')
     | Some (Inr (pollfds, something_to_poll), s') \<Rightarrow> Some
         (if \<not> something_to_poll then (Inr Exit, s')
          else bindM (poll_rules os pollfds timeout_ms) (\<lambda>(ret, pollfds).
            case ret of
              Some r \<Rightarrow> returnM r
            | None \<Rightarrow> seqM (results_loop os cl 0 pollfds) (returnM Success)) s'))"

section \<open>Ownership of the descriptors\<close>

text \<open>Each rule is one owner of its wrapper, so a wrapper has at least as many owners as there are
  rules on it; in particular no rule has a dangling descriptor.\<close>

definition ev_keep :: "'c rule list \<Rightarrow> ('k, 'c, 'z) loop_world_scheme \<Rightarrow> bool" where
  "ev_keep R s \<longleftrightarrow> fd_wf s \<and> ev_rules s = R \<and> (\<forall>r. count_list (map rule_fd R) r \<le> uses_of s r)"

definition ev_inv :: "('k, 'c, 'z) loop_world_scheme \<Rightarrow> bool" where
  "ev_inv s \<longleftrightarrow> ev_keep (ev_rules s) s"

lemma ev_keep_inv: "ev_keep R s \<longleftrightarrow> ev_inv s \<and> ev_rules s = R"
  by (auto simp: ev_inv_def ev_keep_def)

lemma ev_keep_sys [simp]:
  "ev_keep R (s\<lparr>kern := k, errno := e\<rparr>) = ev_keep R s" "ev_keep R (s\<lparr>cerr := c\<rparr>) = ev_keep R s"
  by (simp_all add: ev_keep_def uses_of_def fd_wf_def)

lemma ev_keep_rule:
  assumes "ev_keep R s" and "i < length R"
  obtains w where "fd_heap s (rule_fd (R ! i)) = Some w" "wrapper_ok w"
    "count_list (map rule_fd R) (rule_fd (R ! i)) \<le> fdw_uses w" "ev_rules s ! i = R ! i"
proof -
  have "rule_fd (R ! i) \<in> set (map rule_fd R)"
    using assms(2) by simp
  then have "0 < count_list (map rule_fd R) (rule_fd (R ! i))"
    by (metis count_list_0_iff gr0I)
  with assms(1) that show ?thesis
    by (fastforce simp: ev_keep_def uses_of_def fd_wf_def split: option.splits)
qed

lemma ev_keep_sys_call [keeps_intro]: "keeps (ev_keep R) (sys_call attempt c)"
  by (simp add: keeps_def sys_call_apply split: prod.splits)

lemma ev_keep_update:
  "(\<And>w. wrapper_ok w \<Longrightarrow> wrapper_ok (f w) \<and> fdw_uses w \<le> fdw_uses (f w)) \<Longrightarrow> keeps (ev_keep R) (update_wrapper r f)"
  by (fastforce simp: keeps_def update_wrapper_def deref_def em_simps ev_keep_def uses_of_def fd_wf_def
      split: option.splits)

lemma ev_keep_register [keeps_intro]:
  "keeps (ev_keep R) (register_read r)" "keeps (ev_keep R) (register_write r)"
  unfolding register_read_def register_write_def by (rule ev_keep_update, simp add: wrapper_ok_def)+

lemma ev_keep_close [keeps_intro]: "keeps (ev_keep R) (fdw_close os r)"
  unfolding fdw_close_def by (intro keeps_intro ev_keep_update) (simp add: wrapper_ok_def)

lemma ev_keep_make: "keeps (ev_keep R) (fd_make n)"
proof -
  have "uses_of s r \<le> uses_of (s\<lparr>fd_heap := (fd_heap s)(fd_next s := Some w), fd_next := m\<rparr>) r"
    if "fd_wf s" for s :: "('a, 'b, 'c) loop_world_scheme" and w m r
  proof (cases "r = fd_next s")
    case True
    then have "fd_heap s r = None"
      using that by (cases "fd_heap s r") (auto simp: fd_wf_def)
    then show ?thesis by (simp add: uses_of_def)
  qed (simp add: uses_of_def)
  then have "ev_keep R s \<Longrightarrow> (\<forall>r. count_list (map rule_fd R) r \<le> uses_of (snd (fd_make n s)) r) \<and>
      ev_rules (snd (fd_make n s)) = R" for s :: "('a, 'b, 'c) loop_world_scheme"
    by (auto simp: fd_make_def fdw_make_def em_simps ev_keep_def intro: order_trans)
  then show ?thesis
    using keeps_fd_make [of n] unfolding keeps_def by (metis ev_keep_def)
qed

lemma ev_keep_duplicate: "keeps (ev_keep R) (fd_duplicate r)"
  unfolding fd_duplicate_def by (intro keeps_intro ev_keep_update) (simp add: wrapper_ok_def)

lemma ev_keep_read: "keeps (ev_keep R) (fd_read_into os r str limit)"
  unfolding fd_read_into_def Let_def by (intro keeps_intro ev_keep_update) (simp add: wrapper_ok_def)

lemma ev_keep_write_once: "keeps (ev_keep R) (fd_write_once os r buf)"
  unfolding fd_write_once_def by (intro keeps_intro)

lemmas ev_keep_write = keeps_fd_write_gen [OF ev_keep_write_once]

lemma ev_keep_set_blocking: "keeps (ev_keep R) (fd_set_blocking os r b)"
  unfolding fd_set_blocking_def Let_def by (intro keeps_intro)

text \<open>Erasing a rule gives up its share of the descriptor and cannot fail.\<close>

lemma rules_release: "keeps (\<lambda>s. ev_rules s = R) (fd_release os r)"
proof -
  have u: "keeps (\<lambda>s. ev_rules s = R) (update_wrapper r f)" for f
    by (simp add: keeps_def update_wrapper_def deref_def em_simps split: option.splits)
  have c: "keeps (\<lambda>s. ev_rules s = R) (sys_call attempt c)" for attempt and c :: "('a, unit) syscall"
    by (simp add: keeps_def sys_call_apply split: prod.splits)
  show ?thesis
    unfolding fd_release_def fdw_destruct_def fdw_close_def
    by (intro keeps_intro keeps_modifyM u c) simp_all
qed

lemma count_list_drop_nth:
  "i < length xs \<Longrightarrow> count_list xs y = count_list (take i xs @ drop (Suc i) xs) y + (if xs ! i = y then 1 else 0)"
  by (subst id_take_nth_drop [of i xs]) (simp_all add: count_list_append)

lemma release_keep:
  fixes s :: "('k, 'c, 'z) loop_world_scheme"
  assumes wf: "fd_wf s" and w: "fd_heap s r = Some w" and rules: "ev_rules s = R"
    and uses: "\<And>x. count_list (map rule_fd R) x + (if x = r then 1 else 0) \<le> uses_of s x"
  shows "\<exists>s'. fd_release os r s = (Inr (), s') \<and> ev_keep R s'"
proof -
  have "wrapper_ok w" using wf w by (simp add: fd_wf_def)
  then obtain s' where s': "fd_release os r s = (Inr (), s')"
      "\<forall>x. uses_of s' x = uses_of s x - (if x = r then 1 else 0)"
    using fd_release_uses [OF w] by blast
  moreover have "fd_wf s'"
    using keepsD [OF keeps_fd_release wf s'(1)] .
  moreover have "ev_rules s' = R"
    using keepsD [OF rules_release rules s'(1)] .
  moreover have "count_list (map rule_fd R) x \<le> uses_of s' x" for x
    using uses [of x] s'(2) by (simp split: if_splits)
  ultimately show ?thesis by (simp add: ev_keep_def)
qed

lemma erase_rule_keep:
  fixes s :: "('k, 'c, 'z) loop_world_scheme"
  assumes k: "ev_keep R s" and i: "i < length R"
  shows "\<exists>s'. erase_rule os i s = (Inr (), s') \<and> ev_keep (take i R @ drop (Suc i) R) s'"
proof -
  let ?r = "rule_fd (R ! i)" and ?R = "take i R @ drop (Suc i) R"
  let ?s = "s\<lparr>ev_rules := ?R\<rparr>"
  obtain w where w: "fd_heap s ?r = Some w"
    using ev_keep_rule [OF k i] by blast
  have cnt: "count_list (map rule_fd R) r = count_list (map rule_fd ?R) r + (if r = ?r then 1 else 0)" for r
    using count_list_drop_nth [of i "map rule_fd R" r] i by (auto simp: take_map drop_map)
  have "fd_wf ?s" "uses_of ?s x = uses_of s x" for x
    using k by (simp_all add: ev_keep_def fd_wf_def uses_of_def)
  moreover have "count_list (map rule_fd ?R) x + (if x = ?r then 1 else 0) \<le> uses_of s x" for x
    unfolding cnt [symmetric] using k by (simp add: ev_keep_def)
  ultimately have "\<exists>s'. fd_release os ?r ?s = (Inr (), s') \<and> ev_keep ?R s'"
    using w by (intro release_keep) simp_all
  then show ?thesis
    using k i by (simp add: erase_rule_def rule_at_def em_simps ev_keep_def)
qed

text \<open>Giving up a handle changes neither the descriptor nor the marks of any wrapper.\<close>

lemma release_marks:
  fixes s :: "('k, 'z) world_scheme"
  assumes "fd_heap s r = Some w" and "wrapper_ok w" and "fd_release os r s = (x, s')"
  shows "fd_heap s' q = Some v' \<Longrightarrow> \<exists>v. fd_heap s q = Some v \<and> fdw_fd v' = fdw_fd v \<and> fdw_eof v' = fdw_eof v \<and> fdw_closed v' = fdw_closed v"
    and "kern s' = kern s \<or> kern s' = snd (os_close os (fdw_fd w) (kern s))"
proof -
  have "(fd_heap s' q = Some v' \<longrightarrow> (\<exists>v. fd_heap s q = Some v \<and> fdw_fd v' = fdw_fd v \<and> fdw_eof v' = fdw_eof v \<and> fdw_closed v' = fdw_closed v)) \<and>
      (kern s' = kern s \<or> kern s' = snd (os_close os (fdw_fd w) (kern s)))"
  proof (cases "fdw_uses w > 1")
    case True
    then show ?thesis using fd_release_shared [OF assms(1) True, of os] assms(1,3) by auto
  next
    case False
    then have "fdw_uses w = 1" using assms(2) by (simp add: wrapper_ok_def)
    then show ?thesis using fd_release_last [OF assms(1), of os] assms(1,3) by (auto split: if_splits)
  qed
  then show "fd_heap s' q = Some v' \<Longrightarrow> \<exists>v. fd_heap s q = Some v \<and> fdw_fd v' = fdw_fd v \<and> fdw_eof v' = fdw_eof v \<and> fdw_closed v' = fdw_closed v"
    and "kern s' = kern s \<or> kern s' = snd (os_close os (fdw_fd w) (kern s))" by blast+
qed

text \<open>The rules that the first loop is to cancel: at end of file, or closed.\<close>

definition dead_rule :: "('k, 'c, 'z) loop_world_scheme \<Rightarrow> 'c rule \<Rightarrow> bool" where
  "dead_rule s rule \<longleftrightarrow> (\<exists>w. fd_heap s (rule_fd rule) = Some w \<and> (rule_direction rule = In \<and> fdw_eof w \<or> fdw_closed w))"

text \<open>Closures that leave the end-of-file and closed marks of the descriptors alone, as the default ones of \<open>add_rule\<close> do.\<close>

definition marks :: "('k, 'z) world_scheme \<Rightarrow> nat \<Rightarrow> (bool \<times> bool) option" where
  "marks s r = map_option (\<lambda>w. (fdw_eof w, fdw_closed w)) (fd_heap s r)"

definition inert :: "('c, ('k, 'c, 'z) loop_world_scheme) closures \<Rightarrow> 'c rule \<Rightarrow> bool" where
  "inert cl rule \<longleftrightarrow> (\<forall>s. marks (snd (ask cl (rule_interest rule) s)) = marks s \<and> marks (snd (call cl (rule_cancel rule) s)) = marks s)"

lemma dead_rule_marks:
  "dead_rule s rule \<longleftrightarrow> (\<exists>eof cld. marks s (rule_fd rule) = Some (eof, cld) \<and> (rule_direction rule = In \<and> eof \<or> cld))"
  by (auto simp: dead_rule_def marks_def)

lemma erase_rule_marks:
  fixes s :: "('k, 'c, 'z) loop_world_scheme"
  assumes k: "ev_keep R s" and i: "i < length R" and run: "erase_rule os i s = (Inr (), s')" and q: "marks s' q = Some m"
  shows "marks s q = Some m"
proof -
  let ?s = "s\<lparr>ev_rules := take i (ev_rules s) @ drop (Suc i) (ev_rules s)\<rparr>"
  obtain w where w: "fd_heap s (rule_fd (R ! i)) = Some w" "wrapper_ok w" using ev_keep_rule [OF k i] by blast
  have "fd_release os (rule_fd (R ! i)) ?s = (Inr (), s')"
    using run k i by (simp add: erase_rule_def rule_at_def em_simps ev_keep_def split: prod.splits sum.splits)
  with release_marks(1) [of ?s "rule_fd (R ! i)" w os _ s' q] w q show ?thesis
    by (fastforce simp: marks_def)
qed

lemma dead_rule_kept:
  assumes "\<forall>q m. marks s' q = Some m \<longrightarrow> marks s q = Some m" and "ev_keep R s'" and "rule \<in> set R"
  shows "dead_rule s' rule = dead_rule s rule"
proof -
  obtain j where j: "j < length R" "rule = R ! j" using assms(3) by (auto simp: in_set_conv_nth)
  obtain w where "fd_heap s' (rule_fd rule) = Some w" using ev_keep_rule [OF assms(2) j(1)] j(2) by blast
  then have "\<exists>m. marks s' (rule_fd rule) = Some m" by (simp add: marks_def)
  with assms(1) show ?thesis by (fastforce simp: dead_rule_marks)
qed

section \<open>Clients of the loop\<close>

text \<open>The exceptions the closures can throw, and the two that the loop throws itself.\<close>

definition thrown :: "('c, 's) closures \<Rightarrow> exn set" where
  "thrown cl = {e. \<exists>c s. fst (call cl c s) = Inl e \<or> fst (ask cl c s) = Inl e}"

definition poll_failed :: "pollfd \<Rightarrow> bool" where
  "poll_failed p \<longleftrightarrow> revents p AND (POLLERR OR POLLNVAL) \<noteq> 0"

definition ready :: "pollfd \<Rightarrow> bool" where
  "ready p \<longleftrightarrow> revents p AND events p \<noteq> 0"

definition defunct :: "pollfd \<Rightarrow> bool" where
  "defunct p \<longleftrightarrow> revents p AND POLLHUP \<noteq> 0 \<and> events p \<noteq> 0 \<and> \<not> ready p"

text \<open>The rules whose \<open>pollfd\<close> does not report a mere hangup.\<close>

definition survivors :: "'c rule list \<Rightarrow> pollfd list \<Rightarrow> 'c rule list" where
  "survivors rules ps = map fst (filter (\<lambda>(rule, p). \<not> defunct p) (zip rules ps))"

definition loop_errors :: "exn set" where
  "loop_errors = {poll_error, busy_wait}"

definition events_of :: "'c rule \<Rightarrow> pollfd \<Rightarrow> bool" where
  "events_of rule p \<longleftrightarrow> events p = 0 \<or> events p = direction_events (rule_direction rule)"

lemma direction_events_nonzero [simp]: "direction_events d \<noteq> 0"
  by (cases d) (simp_all add: direction_events_def POLLIN_def POLLOUT_def)

lemma length_store_revents [simp]: "length (store_revents ps rs) = length ps"
  by (simp add: store_revents_def)

lemma handle_result_eq:
  "handle_result os cl i p =
     (if poll_failed p then throwM poll_error
      else bindM (rule_at i) (\<lambda>rule.
        if defunct p then seqM (cancel_rule os cl i rule) (returnM True)
        else if ready p then bindM (service_count rule) (\<lambda>n.
          seqM (call cl (rule_callback rule)) (busy_check cl rule n))
        else returnM False))"
  by (simp only: handle_result_def poll_failed_def defunct_def ready_def Let_def)

text \<open>What the first loop leaves behind from position \<open>i\<close> on, when closures throw only \<open>T\<close>.\<close>

definition set_up :: "exn set \<Rightarrow> 'c rule list \<Rightarrow> nat \<Rightarrow> pollfd list \<Rightarrow> bool \<Rightarrow> (pollfd list \<times> bool) result \<Rightarrow>
    ('k, 'c, 'z) loop_world_scheme \<Rightarrow> bool" where
  "set_up T R i ps b x s' \<longleftrightarrow> (case x of
      Inl e \<Rightarrow> ev_inv s' \<and> subseq (ev_rules s') R \<and> e \<in> T
    | Inr (ps', b') \<Rightarrow> \<exists>R' qs. subseq R' (drop i R) \<and> ev_keep (take i R @ R') s' \<and> ps' = ps @ qs \<and>
        list_all2 events_of R' qs \<and> (b' \<longleftrightarrow> b \<or> (\<exists>q \<in> set qs. events q \<noteq> 0)) \<and> (\<forall>q \<in> set qs. revents q = 0))"

lemma set_up_erased:
  assumes i: "i < length R" and x: "set_up T (take i R @ drop (Suc i) R) i ps b x s'"
  shows "set_up T R i ps b x s'"
proof -
  let ?R = "take i R @ drop (Suc i) R"
  have "subseq ?R R"
    by (metis (no_types) append_take_drop_id Cons_nth_drop_Suc i list_emb_append_mono subseq_Cons' subseq_order.refl)
  moreover have "take i ?R = take i R" "drop i ?R = drop (Suc i) R" using i by auto
  moreover have "subseq xs (drop i R)" if "subseq xs (drop (Suc i) R)" for xs
    using that i by (metis Cons_nth_drop_Suc list_emb_Cons)
  ultimately show ?thesis
    using x unfolding set_up_def by (fastforce split: sum.splits intro: subseq_order.order_trans)
qed

lemma set_up_polled:
  assumes i: "i < length R" and p: "b1 \<longleftrightarrow> events p \<noteq> 0" "events_of (R ! i) p" "revents p = 0"
    and x: "set_up T R (Suc i) (ps @ [p]) (b \<or> b1) x s'"
  shows "set_up T R i ps b x s'"
proof (cases x)
  case (Inl e)
  with x show ?thesis by (simp add: set_up_def)
next
  case (Inr y)
  obtain ps' b' where y: "y = (ps', b')" by force
  with Inr x obtain R' qs where q: "subseq R' (drop (Suc i) R)" "ev_keep (take (Suc i) R @ R') s'"
      "ps' = (ps @ [p]) @ qs" "list_all2 events_of R' qs"
      "b' \<longleftrightarrow> (b \<or> b1) \<or> (\<exists>q \<in> set qs. events q \<noteq> 0)" "\<forall>q \<in> set qs. revents q = 0"
    by (auto simp: set_up_def)
  have "subseq (R ! i # R') (drop i R)" "ev_keep (take i R @ R ! i # R') s'"
    using q(1,2) i by (simp_all add: take_Suc_conv_app_nth flip: Cons_nth_drop_Suc)
  moreover have "ps' = ps @ p # qs" "list_all2 events_of (R ! i # R') (p # qs)"
      "b' \<longleftrightarrow> b \<or> (\<exists>q \<in> set (p # qs). events q \<noteq> 0)" "\<forall>q \<in> set (p # qs). revents q = 0"
    using q(3-6) p by simp_all
  ultimately show ?thesis
    unfolding set_up_def Inr y sum.case prod.case by (intro exI conjI)
qed

text \<open>
  The contract between the loop and its closures: a closure leaves the rule list alone and does
  not give up descriptors that are not its own. Everything else is free: it may read, write,
  close, open and duplicate descriptors, change the kernel, and throw.
\<close>

locale loop_client =
  fixes cl :: "('c, ('k, 'c, 'z) loop_world_scheme) closures"
  assumes call_keeps: "keeps (ev_keep R) (call cl c)"
    and ask_keeps: "keeps (ev_keep R) (ask cl c)"
begin

lemma call_cases:
  assumes "ev_keep R s"
  obtains (ok) s' where "call cl c s = (Inr (), s')" "ev_keep R s'"
    | (err) e s' where "call cl c s = (Inl e, s')" "ev_keep R s'" "e \<in> thrown cl"
proof -
  obtain x s' where run: "call cl c s = (x, s')" by force
  moreover have "ev_keep R s'" using keepsD [OF call_keeps assms run] .
  moreover have "e \<in> thrown cl" if "x = Inl e" for e
    unfolding thrown_def using run that by (auto intro!: exI [of _ c] exI [of _ s])
  ultimately show ?thesis using ok err by (cases x) auto
qed

lemma ask_cases:
  assumes "ev_keep R s"
  obtains (ok) b s' where "ask cl c s = (Inr b, s')" "ev_keep R s'"
    | (err) e s' where "ask cl c s = (Inl e, s')" "ev_keep R s'" "e \<in> thrown cl"
proof -
  obtain x s' where run: "ask cl c s = (x, s')" by force
  moreover have "ev_keep R s'" using keepsD [OF ask_keeps assms run] .
  moreover have "e \<in> thrown cl" if "x = Inl e" for e
    unfolding thrown_def using run that by (auto intro!: exI [of _ c] exI [of _ s])
  ultimately show ?thesis using ok err by (cases x) auto
qed

lemma cancel_rule_cases:
  assumes "ev_keep R s" and "i < length R"
  obtains (ok) s' where "cancel_rule os cl i rule s = (Inr (), s')" "ev_keep (take i R @ drop (Suc i) R) s'"
    | (err) e s' where "cancel_rule os cl i rule s = (Inl e, s')" "ev_keep R s'" "e \<in> thrown cl"
proof (cases rule: call_cases [OF assms(1), of "rule_cancel rule"])
  case (1 s')
  with erase_rule_keep [OF 1(2) assms(2), of os] ok show ?thesis
    by (auto simp: cancel_rule_def em_simps)
next
  case (2 e s')
  with err show ?thesis by (simp add: cancel_rule_def em_simps)
qed

text \<open>One round of the first loop.\<close>

lemma setup_rule_cases:
  assumes k: "ev_keep R s" and i: "i < length R"
  obtains (erased) s' where "setup_rule os cl i s = (Inr None, s')" "ev_keep (take i R @ drop (Suc i) R) s'"
    | (polled) p b s' where "setup_rule os cl i s = (Inr (Some (p, b)), s')" "ev_keep R s'"
        "b \<longleftrightarrow> events p \<noteq> 0" "events_of (R ! i) p" "revents p = 0"
    | (err) e s' where "setup_rule os cl i s = (Inl e, s')" "ev_keep R s'" "e \<in> thrown cl"
proof -
  let ?rule = "R ! i"
  obtain w where w: "fd_heap s (rule_fd ?rule) = Some w"
    using ev_keep_rule [OF k i] by blast
  have rule: "rule_at i s = (Inr ?rule, s)"
    using k i by (simp add: rule_at_def ev_keep_def)
  show ?thesis
  proof (cases "rule_direction ?rule = In \<and> fdw_eof w \<or> fdw_closed w")
    case True
    then have "setup_rule os cl i s = seqM (cancel_rule os cl i ?rule) (returnM None) s"
      using w rule by (auto simp: setup_rule_def em_simps fd_eof_def fd_closed_def)
    then show ?thesis
      using erased err by (cases rule: cancel_rule_cases [OF k i, of os ?rule]) (auto simp: em_simps)
  next
    case False
    then have eq: "setup_rule os cl i s = bindM (ask cl (rule_interest ?rule)) (\<lambda>interested.
        bindM (fd_num (rule_fd ?rule)) (\<lambda>n. returnM (Some (\<lparr>pfd_fd = n,
          events = (if interested then direction_events (rule_direction ?rule) else 0), revents = 0\<rparr>, interested)))) s"
      using w rule by (auto simp: setup_rule_def em_simps fd_eof_def fd_closed_def)
    show ?thesis
    proof (cases rule: ask_cases [OF k, of "rule_interest ?rule"])
      case (1 b s')
      obtain w' where "fd_heap s' (rule_fd ?rule) = Some w'"
        using ev_keep_rule [OF 1(2) i] by blast
      with 1 eq have "setup_rule os cl i s = (Inr (Some (\<lparr>pfd_fd = fdw_fd w',
          events = (if b then direction_events (rule_direction ?rule) else 0), revents = 0\<rparr>, b)), s')"
        by (simp add: em_simps)
      then show ?thesis
        by (rule polled) (simp_all add: 1 events_of_def)
    next
      case (2 e s')
      with eq err show ?thesis by (simp add: em_simps)
    qed
  qed
qed

text \<open>The first loop ends; the rules that are left keep their order and have one \<open>pollfd\<close> each.\<close>

lemma setup_loop_spec:
  assumes "ev_keep R s" and "i \<le> length R"
  shows "\<exists>x s'. setup_loop os cl i ps b s = Some (x, s') \<and> set_up (thrown cl) R i ps b x s'"
  using assms
proof (induction "length R - i" arbitrary: R s i ps b)
  case 0
  then have "i = length R" "ev_rules s = R" by (simp_all add: ev_keep_def)
  then have "setup_loop os cl i ps b s = Some (Inr (ps, b), s)"
    by (subst setup_loop.simps) simp
  with "0.prems" \<open>i = length R\<close> show ?case by (simp add: set_up_def)
next
  case (Suc n)
  then have i: "i < length R" and rules: "ev_rules s = R" by (simp_all add: ev_keep_def)
  let ?R = "take i R @ drop (Suc i) R"
  show ?case
  proof (cases rule: setup_rule_cases [OF Suc.prems(1) i, of os])
    case (1 s1)
    then have step: "setup_loop os cl i ps b s = setup_loop os cl i ps b s1"
      using i rules by (simp add: setup_loop.simps [of os cl i ps b s])
    have "n = length ?R - i" "i \<le> length ?R" using Suc.hyps(2) i by auto
    then show ?thesis
      unfolding step using Suc.hyps(1) [of ?R i s1 ps b] 1(2) set_up_erased [OF i] by blast
  next
    case (2 p b1 s1)
    then have step: "setup_loop os cl i ps b s = setup_loop os cl (Suc i) (ps @ [p]) (b \<or> b1) s1"
      using i rules by (simp add: setup_loop.simps [of os cl i ps b s])
    have "n = length R - Suc i" "Suc i \<le> length R" using Suc.hyps(2) i by auto
    then show ?thesis
      unfolding step using Suc.hyps(1) [of R "Suc i" s1 "ps @ [p]" "b \<or> b1"] 2(2) set_up_polled [OF i 2(3-5)] by blast
  next
    case (3 e s1)
    then show ?thesis
      using i rules by (auto simp: setup_loop.simps [of os cl i ps b s] ev_keep_inv set_up_def)
  qed
qed

text \<open>With closures that leave the marks alone, the first loop removes exactly the dead rules.\<close>

lemma cancel_rule_marks:
  assumes k: "ev_keep R s" and i: "i < length R" and inert: "inert cl (R ! i)"
    and run: "cancel_rule os cl i (R ! i) s = (Inr (), s')" and q: "marks s' q = Some m"
  shows "marks s q = Some m"
proof -
  obtain s1 where s1: "call cl (rule_cancel (R ! i)) s = (Inr (), s1)" "erase_rule os i s1 = (Inr (), s')"
    using run by (auto simp: cancel_rule_def em_simps split: prod.splits sum.splits)
  have "ev_keep R s1" using keepsD [OF call_keeps k s1(1)] .
  then have "marks s1 q = Some m" using erase_rule_marks [OF _ i s1(2) q] by blast
  moreover have "marks s1 = marks s" using inert s1(1) by (metis inert_def snd_conv)
  ultimately show ?thesis by simp
qed

lemma setup_rule_dead:
  assumes k: "ev_keep R s" and i: "i < length R" and inert: "inert cl (R ! i)" and run: "setup_rule os cl i s = (Inr x, s')"
  shows "(x = None \<longleftrightarrow> dead_rule s (R ! i)) \<and> (\<forall>q m. marks s' q = Some m \<longrightarrow> marks s q = Some m)"
proof -
  obtain w where w: "fd_heap s (rule_fd (R ! i)) = Some w" using ev_keep_rule [OF k i] by blast
  have rule: "rule_at i s = (Inr (R ! i), s)"
    using k i by (simp add: rule_at_def ev_keep_def)
  show ?thesis
  proof (cases "rule_direction (R ! i) = In \<and> fdw_eof w \<or> fdw_closed w")
    case True
    then have "setup_rule os cl i s = seqM (cancel_rule os cl i (R ! i)) (returnM None) s"
      using w rule by (auto simp: setup_rule_def em_simps fd_eof_def fd_closed_def)
    with run have "x = None" "cancel_rule os cl i (R ! i) s = (Inr (), s')"
      by (auto simp: em_simps split: prod.splits sum.splits)
    with True w cancel_rule_marks [OF k i inert] show ?thesis by (auto simp: dead_rule_def)
  next
    case False
    then have "setup_rule os cl i s = bindM (ask cl (rule_interest (R ! i))) (\<lambda>interested.
        bindM (fd_num (rule_fd (R ! i))) (\<lambda>n. returnM (Some (\<lparr>pfd_fd = n,
          events = (if interested then direction_events (rule_direction (R ! i)) else 0), revents = 0\<rparr>, interested)))) s"
      using w rule by (auto simp: setup_rule_def em_simps fd_eof_def fd_closed_def)
    with run have "x \<noteq> None" "\<exists>b. ask cl (rule_interest (R ! i)) s = (Inr b, s')"
      by (auto simp: em_simps fd_num_def deref_def split: prod.splits sum.splits option.splits)
    moreover from this(2) have "marks s' = marks s" using inert by (metis inert_def snd_conv)
    ultimately show ?thesis using False w by (auto simp: dead_rule_def)
  qed
qed

lemma setup_loop_dead:
  assumes "ev_keep R s" and "i \<le> length R" and "\<forall>rule \<in> set R. inert cl rule"
    and "setup_loop os cl i ps b s = Some (Inr y, s')"
  shows "ev_rules s' = take i R @ filter (\<lambda>rule. \<not> dead_rule s rule) (drop i R)"
  using assms
proof (induction "length R - i" arbitrary: R s i ps b)
  case 0
  then have "i = length R" "ev_rules s = R" by (simp_all add: ev_keep_def)
  then have "setup_loop os cl i ps b s = Some (Inr (ps, b), s)"
    by (subst setup_loop.simps) simp
  with "0.prems"(4) \<open>i = length R\<close> \<open>ev_rules s = R\<close> show ?case by simp
next
  case (Suc n)
  then have i: "i < length R" and rules: "ev_rules s = R" by (simp_all add: ev_keep_def)
  let ?R = "take i R @ drop (Suc i) R"
  have inert: "inert cl (R ! i)" using Suc.prems(3) i by simp
  have drop: "drop i R = R ! i # drop (Suc i) R" using i by (simp add: Cons_nth_drop_Suc)
  show ?case
  proof (cases rule: setup_rule_cases [OF Suc.prems(1) i, of os])
    case (1 s1)
    note dead = setup_rule_dead [OF Suc.prems(1) i inert 1(1)]
    have "setup_loop os cl i ps b s1 = Some (Inr y, s')"
      using 1(1) i rules Suc.prems(4) by (simp add: setup_loop.simps [of os cl i ps b s])
    moreover have "n = length ?R - i" "i \<le> length ?R" using Suc.hyps(2) i by auto
    moreover have "\<forall>rule \<in> set ?R. inert cl rule"
      using Suc.prems(3) by (auto dest: in_set_takeD in_set_dropD)
    ultimately have "ev_rules s' = take i ?R @ filter (\<lambda>rule. \<not> dead_rule s1 rule) (drop i ?R)"
      using Suc.hyps(1) [of ?R i s1 ps b] 1(2) by blast
    moreover have "filter (\<lambda>rule. \<not> dead_rule s1 rule) (drop (Suc i) R) = filter (\<lambda>rule. \<not> dead_rule s rule) (drop (Suc i) R)"
      using dead_rule_kept [OF _ 1(2)] dead by (intro filter_cong) auto
    ultimately show ?thesis using dead i drop by simp
  next
    case (2 p b1 s1)
    note dead = setup_rule_dead [OF Suc.prems(1) i inert 2(1)]
    have "setup_loop os cl (Suc i) (ps @ [p]) (b \<or> b1) s1 = Some (Inr y, s')"
      using 2(1) i rules Suc.prems(4) by (simp add: setup_loop.simps [of os cl i ps b s])
    moreover have "n = length R - Suc i" "Suc i \<le> length R" using Suc.hyps(2) i by auto
    ultimately have "ev_rules s' = take (Suc i) R @ filter (\<lambda>rule. \<not> dead_rule s1 rule) (drop (Suc i) R)"
      using Suc.hyps(1) [of R "Suc i" s1 "ps @ [p]" "b \<or> b1"] 2(2) Suc.prems(3) by blast
    moreover have "filter (\<lambda>rule. \<not> dead_rule s1 rule) (drop (Suc i) R) = filter (\<lambda>rule. \<not> dead_rule s rule) (drop (Suc i) R)"
      using dead_rule_kept [OF _ 2(2)] dead by (intro filter_cong) (auto dest: in_set_dropD)
    ultimately show ?thesis using dead i drop by (simp add: take_Suc_conv_app_nth)
  next
    case (3 e s1)
    then show ?thesis using i rules Suc.prems(4) by (simp add: setup_loop.simps [of os cl i ps b s])
  qed
qed

text \<open>One round of the second loop, and the loop.\<close>

lemma busy_check_cases:
  assumes "ev_keep R s" and "service_count rule s = (Inr m, s)"
  obtains (ok) s' where "busy_check cl rule n s = (Inr False, s')" "ev_keep R s'"
    | (err) e s' where "busy_check cl rule n s = (Inl e, s')" "ev_keep R s'" "e \<in> thrown cl \<union> loop_errors"
proof (cases "n = m")
  case False
  then have "busy_check cl rule n s = (Inr False, s)"
    using assms(2) by (simp add: busy_check_def em_simps)
  then show ?thesis using assms(1) ok by blast
next
  case True
  show ?thesis
  proof (cases rule: ask_cases [OF assms(1), of "rule_interest rule"])
    case (1 b s')
    have run: "busy_check cl rule n s = (if b then Inl busy_wait else Inr False, s')"
      using True assms(2) 1(1) by (simp add: busy_check_def em_simps)
    show ?thesis
    proof (cases b)
      case True
      with run 1(2) show ?thesis using err [of busy_wait s'] by (simp add: loop_errors_def)
    next
      case False
      with run 1(2) show ?thesis using ok [of s'] by simp
    qed
  next
    case (2 e s')
    then have "busy_check cl rule n s = (Inl e, s')"
      using True assms(2) by (simp add: busy_check_def em_simps)
    with 2 show ?thesis using err by blast
  qed
qed

lemma service_count_live:
  assumes "ev_keep R s" and "i < length R"
  shows "\<exists>n. service_count (R ! i) s = (Inr n, s)"
proof -
  obtain w where "fd_heap s (rule_fd (R ! i)) = Some w"
    using ev_keep_rule [OF assms] by blast
  then show ?thesis
    by (simp add: service_count_def fd_read_count_def fd_write_count_def em_simps)
qed

lemma service_cases:
  assumes k: "ev_keep R s" and i: "i < length R"
  obtains (ok) s' where "bindM (service_count (R ! i)) (\<lambda>n.
        seqM (call cl (rule_callback (R ! i))) (busy_check cl (R ! i) n)) s = (Inr False, s')" "ev_keep R s'"
    | (err) e s' where "bindM (service_count (R ! i)) (\<lambda>n.
        seqM (call cl (rule_callback (R ! i))) (busy_check cl (R ! i) n)) s = (Inl e, s')" "ev_keep R s'"
        "e \<in> thrown cl \<union> loop_errors"
proof -
  obtain n where n: "service_count (R ! i) s = (Inr n, s)" using service_count_live [OF k i] by blast
  show ?thesis
  proof (cases rule: call_cases [OF k, of "rule_callback (R ! i)"])
    case call: (1 s1)
    obtain m where m: "service_count (R ! i) s1 = (Inr m, s1)" using service_count_live [OF call(2) i] by blast
    show ?thesis
      using n call ok err by (cases rule: busy_check_cases [OF call(2) m, of n]) (auto simp: em_simps)
  next
    case (2 e s1)
    with n err show ?thesis by (auto simp: em_simps)
  qed
qed

lemma handle_result_cases:
  assumes k: "ev_keep R s" and i: "i < length R"
  obtains (failed) "poll_failed p" "handle_result os cl i p s =
        (Inl poll_error, s)"
    | (erased) s' where "\<not> poll_failed p" "defunct p" "handle_result os cl i p s = (Inr True, s')"
        "ev_keep (take i R @ drop (Suc i) R) s'"
    | (kept) s' where "\<not> poll_failed p" "\<not> defunct p" "handle_result os cl i p s = (Inr False, s')" "ev_keep R s'"
    | (err) e s' where "handle_result os cl i p s = (Inl e, s')" "ev_keep R s'" "e \<in> thrown cl \<union> loop_errors"
proof -
  have rule: "rule_at i s = (Inr (R ! i), s)"
    using k i by (simp add: rule_at_def ev_keep_def)
  consider "poll_failed p" | "\<not> poll_failed p" "defunct p" | "\<not> poll_failed p" "\<not> defunct p" "ready p"
    | "\<not> poll_failed p" "\<not> defunct p" "\<not> ready p" by blast
  then show ?thesis
  proof cases
    case 1
    then show ?thesis using failed by (simp add: handle_result_eq throwM_def)
  next
    case 2
    then have "handle_result os cl i p s = seqM (cancel_rule os cl i (R ! i)) (returnM True) s"
      using rule by (simp add: handle_result_eq bindM_apply)
    with 2 erased err show ?thesis
      by (cases rule: cancel_rule_cases [OF k i, of os "R ! i"]) (auto simp: em_simps)
  next
    case 3
    then have "handle_result os cl i p s = bindM (service_count (R ! i)) (\<lambda>n.
        seqM (call cl (rule_callback (R ! i))) (busy_check cl (R ! i) n)) s"
      using rule by (simp add: handle_result_eq bindM_apply [of "rule_at i"])
    with 3 kept err show ?thesis by (cases rule: service_cases [OF k i]) auto
  next
    case 4
    with rule k kept show ?thesis by (simp add: handle_result_eq em_simps)
  qed
qed

lemma results_loop_spec:
  assumes "ev_keep R s" and "i + length ps = length R"
  shows "case results_loop os cl i ps s of
      (Inl e, s') \<Rightarrow> ev_inv s' \<and> subseq (ev_rules s') R \<and> e \<in> thrown cl \<union> loop_errors
    | (Inr _, s') \<Rightarrow> (\<forall>p \<in> set ps. \<not> poll_failed p) \<and> ev_keep (take i R @ survivors (drop i R) ps) s'"
  using assms
proof (induction ps arbitrary: i R s)
  case Nil
  then show ?case by (simp add: ev_keep_def survivors_def)
next
  case (Cons p ps)
  then have i: "i < length R" and rules: "ev_rules s = R" by (simp_all add: ev_keep_def)
  let ?R = "take i R @ drop (Suc i) R"
  have drop: "drop i R = R ! i # drop (Suc i) R"
    using i by (simp add: Cons_nth_drop_Suc)
  show ?case
  proof (cases rule: handle_result_cases [OF Cons.prems(1) i, of p os])
    case 1
    then show ?thesis
      using i rules Cons.prems(1) by (simp add: loop_errors_def ev_keep_inv)
  next
    case (2 s1)
    then have step: "results_loop os cl i (p # ps) s = results_loop os cl i ps s1"
      using i rules by simp
    have sub: "subseq ?R R"
      using i by (metis append_take_drop_id drop list_emb_append_mono subseq_Cons' subseq_order.refl)
    have "i + length ps = length ?R" "take i ?R = take i R" "drop i ?R = drop (Suc i) R"
      using Cons.prems(2) i by simp_all
    with Cons.IH [OF 2(4), of i] 2(1,2) sub drop show ?thesis
      unfolding step by (auto simp: survivors_def split: prod.splits sum.splits intro: subseq_order.order_trans)
  next
    case (3 s1)
    then have step: "results_loop os cl i (p # ps) s = results_loop os cl (Suc i) ps s1"
      using i rules by simp
    have "take (Suc i) R = take i R @ [R ! i]"
      using i by (rule take_Suc_conv_app_nth)
    with Cons.IH [OF 3(4), of "Suc i"] Cons.prems(2) 3(1,2) drop show ?thesis
      unfolding step by (auto simp: survivors_def split: prod.splits sum.splits)
  next
    case (4 e s1)
    then show ?thesis
      using i rules by (simp add: ev_keep_inv)
  qed
qed

lemma wait_cases:
  assumes "ev_inv s"
  obtains (threw) e s' where "setup_loop os cl 0 [] False s = Some (Inl e, s')" "ev_inv s'"
      "subseq (ev_rules s') (ev_rules s)" "e \<in> thrown cl"
    | (ready) R qs b s' where "setup_loop os cl 0 [] False s = Some (Inr (qs, b), s')" "ev_keep R s'"
      "subseq R (ev_rules s)" "list_all2 events_of R qs" "b \<longleftrightarrow> (\<exists>q \<in> set qs. events q \<noteq> 0)"
      "\<forall>q \<in> set qs. revents q = 0"
proof -
  obtain x s' where run: "setup_loop os cl 0 [] False s = Some (x, s')"
    and x: "set_up (thrown cl) (ev_rules s) 0 [] False x s'"
    using setup_loop_spec [OF assms [unfolded ev_inv_def], of 0 os "[]" False] by blast
  show ?thesis
  proof (cases x)
    case (Inl e)
    with run x show ?thesis by (auto simp: set_up_def intro: threw)
  next
    case (Inr y)
    with run x show ?thesis by (cases y) (auto simp: set_up_def intro: ready)
  qed
qed

lemma wait_results:
  assumes "ev_keep R s" and "length qs = length R"
  obtains (err) e s' where "results_loop os cl 0 (store_revents qs rs) s = (Inl e, s')" "ev_inv s'"
      "subseq (ev_rules s') R" "e \<in> thrown cl \<union> loop_errors"
    | (ok) s' where "results_loop os cl 0 (store_revents qs rs) s = (Inr (), s')"
      "\<forall>p \<in> set (store_revents qs rs). \<not> poll_failed p" "ev_keep (survivors R (store_revents qs rs)) s'"
proof -
  obtain x s' where run: "results_loop os cl 0 (store_revents qs rs) s = (x, s')" by force
  show ?thesis
    using results_loop_spec [OF assms(1), of 0 "store_revents qs rs" os] assms(2) run err ok
    by (cases x) simp_all
qed

end

section \<open>Closures made of descriptor operations\<close>

text \<open>The default arguments of \<open>add_rule\<close> and closures that use a descriptor once.\<close>

datatype fd_closure =
    No_op
  | Always
  | Until_eof nat
  | Read_from nat size_t
  | Write_to nat "byte list"
  | Close_it nat

fun fd_call :: "('k, 'y) fd_os_scheme \<Rightarrow> fd_closure \<Rightarrow> (('k, fd_closure, 'z) loop_world_scheme, unit) em" where
  "fd_call os (Read_from r limit) = fd_exec os (Read_fd r limit)"
| "fd_call os (Write_to r str) = fd_exec os (Write_fd r str True)"
| "fd_call os (Close_it r) = fd_exec os (Close_fd r)"
| "fd_call os c = returnM ()"

fun fd_ask :: "fd_closure \<Rightarrow> (('k, fd_closure, 'z) loop_world_scheme, bool) em" where
  "fd_ask (Until_eof r) = bindM (fd_eof r) (\<lambda>e. returnM (\<not> e))"
| "fd_ask c = returnM True"

definition fd_closures :: "('k, 'y) fd_os_scheme \<Rightarrow>
    (fd_closure, ('k, fd_closure, 'z) loop_world_scheme) closures" where
  "fd_closures os = \<lparr>call = fd_call os, ask = fd_ask\<rparr>"

interpretation fd_client: loop_client "fd_closures os" for os
proof unfold_locales
  fix R c
  show "keeps (ev_keep R) (call (fd_closures os) c)"
    by (cases c) (simp_all add: fd_closures_def fd_read_def fd_write_string_def fd_close_def
        keeps_returnM keeps_bindM ev_keep_read ev_keep_write ev_keep_close)
  show "keeps (ev_keep R) (ask (fd_closures os) c)"
    by (cases c) (simp_all add: fd_closures_def fd_eof_def keeps_intro)
qed

section \<open>Polling\<close>

definition poll_outcome :: "int \<Rightarrow> int \<Rightarrow> ev_result option" where
  "poll_outcome ret err =
     (if narrow_int ret = 0 then Some Timeout else if narrow_int ret < 0 \<and> err = EINTR then Some Exit else None)"

lemma poll_rules_apply:
  assumes "os_poll os ps t (kern s) = ((ret, err, rs), k)"
  shows "poll_rules os ps t s = (Inr (poll_outcome ret err, store_revents ps rs), s\<lparr>kern := k, errno := err\<rparr>)"
  using assms
  by (simp add: poll_rules_def enter_kernel_def em_simps poll_outcome_def unix_error_def EINTR_def not_less)

lemma wait_setup:
  "setup_loop os cl 0 [] False s = Some (Inl e, s') \<Longrightarrow> wait_next_event os cl t s = Some (Inl e, s')"
  "setup_loop os cl 0 [] False s = Some (Inr (qs, False), s') \<Longrightarrow> wait_next_event os cl t s = Some (Inr Exit, s')"
  by (simp_all add: wait_next_event_def)

lemma wait_poll:
  assumes "setup_loop os cl 0 [] False s = Some (Inr (qs, True), s1)"
    and "os_poll os qs t (kern s1) = ((ret, err, rs), k)"
  shows "wait_next_event os cl t s = Some (case poll_outcome ret err of
      Some r \<Rightarrow> (Inr r, s1\<lparr>kern := k, errno := err\<rparr>)
    | None \<Rightarrow> (case results_loop os cl 0 (store_revents qs rs) (s1\<lparr>kern := k, errno := err\<rparr>) of
        (Inl e, s') \<Rightarrow> (Inl e, s') | (Inr _, s') \<Rightarrow> (Inr Success, s')))"
  using assms by (simp add: wait_next_event_def bindM_apply seqM_apply returnM_apply poll_rules_apply
      split: option.splits prod.splits sum.splits)

section \<open>Reachable loops\<close>

text \<open>What a program does with a loop and the descriptors: it adds rules for live descriptors, waits, uses its own
  descriptors, and gives up only handles of its own, never a rule's.\<close>

inductive ev_reachable :: "('k, 'y) ev_os_scheme \<Rightarrow> ('c, ('k, 'c, 'z) loop_world_scheme) closures \<Rightarrow>
    ('k, 'c, 'z) loop_world_scheme \<Rightarrow> bool" for os cl where
  start: "fd_wf s \<Longrightarrow> ev_rules s = [] \<Longrightarrow> ev_reachable os cl s"
| adds: "ev_reachable os cl s \<Longrightarrow> fd_heap s r \<noteq> None \<Longrightarrow> add_rule r d c i k s = (x, s') \<Longrightarrow> ev_reachable os cl s'"
| waits: "ev_reachable os cl s \<Longrightarrow> wait_next_event os cl t s = Some (y, s') \<Longrightarrow> ev_reachable os cl s'"
| uses: "ev_reachable os cl s \<Longrightarrow> \<forall>r. op \<noteq> Release_fd r \<Longrightarrow> fd_exec os op s = (z, s') \<Longrightarrow> ev_reachable os cl s'"
| gives_up: "ev_reachable os cl s \<Longrightarrow> count_list (map rule_fd (ev_rules s)) r < uses_of s r \<Longrightarrow>
    fd_release os r s = (v, s') \<Longrightarrow> ev_reachable os cl s'"

lemma ev_keep_exec: "\<forall>r. op \<noteq> Release_fd r \<Longrightarrow> keeps (ev_keep R) (fd_exec os op)"
  by (cases op) (simp_all add: keeps_bindM keeps_returnM ev_keep_make ev_keep_duplicate fd_read_def ev_keep_read
      fd_write_string_def ev_keep_write fd_close_def ev_keep_close ev_keep_set_blocking)

lemma add_rule_inv:
  fixes s :: "('k, 'c, 'z) loop_world_scheme"
  assumes "ev_inv s" and "fd_heap s r \<noteq> None"
  shows "ev_inv (snd (add_rule r d c i k s))"
proof -
  from assms(2) obtain w where Some: "fd_heap s r = Some w" by blast
  let ?s = "s\<lparr>fd_heap := (fd_heap s)(r := Some (w\<lparr>fdw_uses := Suc (fdw_uses w)\<rparr>))\<rparr>"
  have wf: "fd_wf ?s"
    using assms Some by (auto simp: ev_inv_def ev_keep_def fd_wf_def wrapper_ok_def)
  have "uses_of ?s x = uses_of s x + (if x = r then 1 else 0)" for x
    using Some by (simp add: uses_of_def)
  then show ?thesis
    using assms wf Some
    by (auto simp: add_rule_def fd_duplicate_def em_simps ev_inv_def ev_keep_def uses_of_def fd_wf_def
        split: option.splits)
qed

context loop_client
begin

lemma polled_result:
  assumes "ev_rules s1 = R" and R: "ev_keep R (s1\<lparr>kern := k, errno := err\<rparr>)" "length qs = length R"
    and first: "setup_loop os cl 0 [] False s = Some (Inr (qs, True), s1)"
    and call: "os_poll os qs t (kern s1) = ((ret, err, rs), k)"
    and run: "wait_next_event os cl t s = Some (Inr r, s')"
  shows "case r of
      Exit \<Rightarrow> ev_rules s' = R \<and> narrow_int ret < 0 \<and> err = EINTR
    | Timeout \<Rightarrow> ev_rules s' = R \<and> narrow_int ret = 0
    | Success \<Rightarrow> ev_rules s' = survivors R (store_revents qs rs) \<and> (0 < narrow_int ret \<or> narrow_int ret < 0 \<and> err \<noteq> EINTR) \<and>
        (\<forall>p \<in> set (store_revents qs rs). \<not> poll_failed p)"
proof (cases "poll_outcome ret err")
  case (Some r')
  with wait_poll [OF first call] run assms(1) show ?thesis by (auto simp: poll_outcome_def split: if_splits)
next
  case None
  then have "0 < narrow_int ret \<or> narrow_int ret < 0 \<and> err \<noteq> EINTR" by (auto simp: poll_outcome_def split: if_splits)
  with wait_poll [OF first call] run None show ?thesis
    by (cases rule: wait_results [OF R, of os rs]) (auto simp: ev_keep_inv)
qed

lemma wait_safe:
  assumes "ev_inv s"
  shows "\<exists>x s'. wait_next_event os cl t s = Some (x, s') \<and> ev_inv s' \<and> subseq (ev_rules s') (ev_rules s) \<and>
    (\<forall>e. x = Inl e \<longrightarrow> e \<in> thrown cl \<union> loop_errors)"
proof (cases rule: wait_cases [OF assms, of os])
  case (1 e s')
  then show ?thesis using wait_setup(1) [of os cl s e s' t] by simp
next
  case (2 R qs b s1)
  have inv: "ev_inv s1" "ev_rules s1 = R" using 2(2) by (simp_all add: ev_keep_inv)
  show ?thesis
  proof (cases b)
    case False
    with 2 inv wait_setup(2) [of os cl s qs s1 t] show ?thesis by simp
  next
    case True
    obtain ret err rs k where call: "os_poll os qs t (kern s1) = ((ret, err, rs), k)"
      by (metis prod.exhaust)
    let ?s = "s1\<lparr>kern := k, errno := err\<rparr>"
    have w: "wait_next_event os cl t s = Some (case poll_outcome ret err of
        Some r \<Rightarrow> (Inr r, ?s)
      | None \<Rightarrow> (case results_loop os cl 0 (store_revents qs rs) ?s of
          (Inl e, s') \<Rightarrow> (Inl e, s') | (Inr _, s') \<Rightarrow> (Inr Success, s')))"
      using wait_poll [OF _ call] 2(1) True by simp
    have k: "ev_keep R ?s" "length qs = length R" "ev_inv ?s" "ev_rules ?s = R"
      using 2(2,4) ev_keep_inv [of R ?s] by (simp_all add: list_all2_lengthD)
    have sub: "subseq (survivors R ps) R" for ps
    proof -
      have "subseq (survivors R ps) (map fst (zip R ps))"
        unfolding survivors_def by (intro subseq_map) simp
      then show ?thesis
        by (metis map_fst_zip_take prefix_imp_subseq subseq_order.order_trans take_is_prefix)
    qed
    show ?thesis
    proof (cases "poll_outcome ret err")
      case (Some r)
      with w k 2(3) show ?thesis by simp
    next
      case None
      show ?thesis
        using 2(3) sub w None
        by (cases rule: wait_results [OF k(1,2), of os rs])
          (auto simp: ev_keep_inv intro: subseq_order.order_trans)
    qed
  qed
qed

lemma reachable_inv: "ev_reachable os cl s \<Longrightarrow> ev_inv s"
proof (induction rule: ev_reachable.induct)
  case (start s)
  then show ?case by (simp add: ev_inv_def ev_keep_def)
next
  case (adds s r d c i k x s')
  then show ?case using add_rule_inv by (metis snd_conv)
next
  case (waits s t y s')
  then show ?case using wait_safe [of s os t] by auto
next
  case (uses s op z s')
  then have "ev_keep (ev_rules s) s'"
    using keepsD [OF ev_keep_exec] by (metis ev_inv_def)
  then show ?case by (simp add: ev_keep_inv)
next
  case (gives_up s r v s')
  then have inv: "fd_wf s" "\<And>x. count_list (map rule_fd (ev_rules s)) x \<le> uses_of s x"
    by (simp_all add: ev_inv_def ev_keep_def)
  from gives_up.hyps(2) obtain w where w: "fd_heap s r = Some w"
    by (cases "fd_heap s r") (auto simp: uses_of_def)
  have "count_list (map rule_fd (ev_rules s)) x + (if x = r then 1 else 0) \<le> uses_of s x" for x
    using inv(2) gives_up.hyps(2) by (simp add: Suc_le_eq)
  with release_keep [OF inv(1) w refl, of os] gives_up.hyps(3) show ?case
    by (auto simp: ev_keep_inv)
qed

end

section \<open>A concrete loop\<close>

text \<open>A kernel whose \<open>poll\<close> reports everything that was asked for, and a loop with one open
  descriptor.\<close>

definition ready_os :: "(int list \<times> byte list) ev_os" where
  "ready_os = \<lparr>os_close = os_close log_os, os_read = os_read log_os, os_writev = os_writev log_os,
     os_getfl = os_getfl log_os, os_setfl = os_setfl log_os, os_message = os_message log_os,
     os_poll = (\<lambda>ps t k. ((int (length (filter (\<lambda>p. events p \<noteq> 0) ps)), 0, map events ps), k))\<rparr>"

definition demo_wrapper :: fd_wrapper where
  "demo_wrapper = \<lparr>fdw_fd = 3, fdw_eof = False, fdw_closed = False, fdw_read_count = 0, fdw_write_count = 0, fdw_uses = 2\<rparr>"

definition demo_rule :: "fd_closure \<Rightarrow> fd_closure rule" where
  "demo_rule c = \<lparr>rule_fd = 0, rule_direction = In, rule_callback = c, rule_interest = Always, rule_cancel = No_op\<rparr>"

definition demo_loop :: "fd_closure \<Rightarrow> ((int list \<times> byte list), fd_closure) loop_world" where
  "demo_loop c = \<lparr>kern = ([], []), errno = 0, cerr = [], fd_heap = [0 \<mapsto> demo_wrapper], fd_next = 1,
     ev_rules = [demo_rule c]\<rparr>"

lemma demo_setup:
  "setup_loop os (fd_closures os) 0 [] False (demo_loop c) =
     Some (Inr ([\<lparr>pfd_fd = 3, events = POLLIN, revents = 0\<rparr>], True), demo_loop c)"
proof -
  have "setup_rule os (fd_closures os) 0 (demo_loop c) =
      (Inr (Some (\<lparr>pfd_fd = 3, events = POLLIN, revents = 0\<rparr>, True)), demo_loop c)"
    by (simp add: setup_rule_def rule_at_def em_simps demo_loop_def demo_rule_def demo_wrapper_def fd_eof_def
        fd_closed_def fd_closures_def direction_events_def)
  then show ?thesis
    by (simp add: setup_loop.simps [of _ _ 0] setup_loop.simps [of _ _ "Suc 0"] demo_loop_def)
qed

lemma demo_poll:
  "os_poll ready_os [\<lparr>pfd_fd = 3, events = POLLIN, revents = 0\<rparr>] t (kern (demo_loop c)) = ((1, 0, [POLLIN]), ([], []))"
  by (simp add: ready_os_def demo_loop_def POLLIN_def)

lemma demo_polled: "(demo_loop c)\<lparr>kern := ([], []), errno := 0\<rparr> = demo_loop c"
  by (simp add: demo_loop_def)

lemma demo_facts:
  "fd_heap (demo_loop c) 0 = Some demo_wrapper" "rule_at 0 (demo_loop c) = (Inr (demo_rule c), demo_loop c)"
  "ev_rules (demo_loop c) = [demo_rule c]"
  by (simp_all add: demo_loop_def rule_at_def)

definition demo_after_read :: "((int list \<times> byte list), fd_closure) loop_world" where
  "demo_after_read = (demo_loop (Read_from 0 10))\<lparr>fd_heap := (fd_heap (demo_loop (Read_from 0 10)))
     (0 := Some (demo_wrapper\<lparr>fdw_eof := True, fdw_read_count := 1\<rparr>))\<rparr>"

lemma demo_read:
  "call (fd_closures ready_os) (Read_from 0 10) (demo_loop (Read_from 0 10)) = (Inr (), demo_after_read)"
  by (simp add: fd_closures_def fd_read_def fd_read_into_def Let_def em_simps demo_facts sys_call_apply ready_os_def
      log_os_def narrow_int_id register_read_def resize_def overlay_def demo_wrapper_def demo_after_read_def)
    (simp add: demo_loop_def)

section \<open>Properties\<close>

text \<open>C13. Whatever a program does with a loop (adding rules, waiting, using descriptors, giving up
  handles of its own), and whatever the kernel answers, every call of \<open>wait_next_event\<close>
  returns or throws: it ends, and the only exceptions are those of the closures and the two
  \<open>runtime_error\<close>s of the loop, so no iterator is dereferenced at the end, no \<open>pollfd\<close> is
  read out of range and no rule's descriptor dangles. It only removes rules and keeps their
  order. The closures may do anything but change the rule list or give up descriptors that are
  not theirs.\<close>

theorem event_loop_safe:
  assumes "\<And>R c. keeps (ev_keep R) (call cl c)" and "\<And>R c. keeps (ev_keep R) (ask cl c)"
    and "ev_reachable os cl s"
  shows "(\<forall>rule \<in> set (ev_rules s). \<exists>w. fd_heap s (rule_fd rule) = Some w) \<and>
    (\<exists>x s'. wait_next_event os cl timeout_ms s = Some (x, s') \<and> subseq (ev_rules s') (ev_rules s) \<and>
      (\<forall>e. x = Inl e \<longrightarrow> e \<in> thrown cl \<union> {poll_error, busy_wait}))"
proof -
  have client: "loop_client cl"
    using assms(1,2) by (rule loop_client.intro)
  have inv: "ev_inv s"
    using loop_client.reachable_inv [OF client assms(3)] .
  have "\<exists>w. fd_heap s (rule_fd rule) = Some w" if "rule \<in> set (ev_rules s)" for rule
    using that inv ev_keep_rule [of "ev_rules s" s] unfolding ev_inv_def by (metis in_set_conv_nth)
  then show ?thesis
    using loop_client.wait_safe [OF client inv, of os timeout_ms] by (auto simp: loop_errors_def)
qed

text \<open>A loop with one rule, added to an empty loop.\<close>

lemma demo_loop_reachable: "ev_reachable os cl (demo_loop c)"
proof (rule ev_reachable.adds)
  let ?s = "(demo_loop c)\<lparr>fd_heap := [0 \<mapsto> demo_wrapper\<lparr>fdw_uses := 1\<rparr>], ev_rules := []\<rparr>"
  show "ev_reachable os cl ?s"
    by (rule ev_reachable.start) (simp_all add: demo_loop_def fd_wf_def demo_wrapper_def wrapper_ok_def)
  show "fd_heap ?s 0 \<noteq> None" by simp
  show "add_rule 0 In c Always No_op ?s = (Inr (), demo_loop c)"
    by (simp add: add_rule_def fd_duplicate_def update_wrapper_def deref_def em_simps demo_loop_def demo_wrapper_def demo_rule_def
        numeral_2_eq_2)
qed

theorem event_loop_safe_witness:
  "ev_rules (demo_loop (Read_from 0 10)) = [demo_rule (Read_from 0 10)] \<and>
   ev_reachable ready_os (fd_closures ready_os) (demo_loop (Read_from 0 10)) \<and>
   (\<exists>x s'. wait_next_event ready_os (fd_closures ready_os) 100 (demo_loop (Read_from 0 10)) = Some (x, s') \<and>
      subseq (ev_rules s') [demo_rule (Read_from 0 10)])"
proof -
  have rules: "ev_rules (demo_loop (Read_from 0 10)) = [demo_rule (Read_from 0 10)]"
    by (simp add: demo_loop_def)
  have reach: "ev_reachable ready_os (fd_closures ready_os) (demo_loop (Read_from 0 10))"
    by (rule demo_loop_reachable)
  show ?thesis
    using rules reach event_loop_safe [OF fd_client.call_keeps fd_client.ask_keeps reach, of 100] by auto
qed

text \<open>C15. What each result of \<open>wait_next_event\<close> means. The first loop leaves a sublist of the rules, and when
  their interest and cancel functions do not themselves change end-of-file or closed marks,
  exactly the rules whose descriptor is neither closed nor, for reading rules, at end of
  file. These are polled in order, each for its own direction or as a placeholder. \<open>Exit\<close> is
  returned only when no rule was interested (the kernel is then not asked) or the wait was
  interrupted by a signal; \<open>Timeout\<close> when \<open>poll\<close> returned 0. \<open>Success\<close> is returned when \<open>poll\<close> reported a
  positive number, but also when it failed with another error than \<open>EINTR\<close>; no polled
  descriptor has then reported an error, and exactly the rules whose descriptor reported a
  hangup and nothing they asked for have been cancelled.\<close>

theorem wait_next_event_result:
  assumes "\<And>R c. keeps (ev_keep R) (call cl c)" and "\<And>R c. keeps (ev_keep R) (ask cl c)"
    and "ev_inv s" and "wait_next_event os cl timeout_ms s = Some (Inr r, s')"
  shows "\<exists>R qs s1 ret err rs k. setup_loop os cl 0 [] False s = Some (Inr (qs, \<exists>q \<in> set qs. events q \<noteq> 0), s1) \<and>
    ev_rules s1 = R \<and> subseq R (ev_rules s) \<and>
    ((\<forall>rule \<in> set (ev_rules s). inert cl rule) \<longrightarrow> R = filter (\<lambda>rule. \<not> dead_rule s rule) (ev_rules s)) \<and> list_all2 events_of R qs \<and>
    os_poll os qs timeout_ms (kern s1) = ((ret, err, rs), k) \<and>
    (case r of
       Exit \<Rightarrow> ev_rules s' = R \<and> ((\<forall>q \<in> set qs. events q = 0) \<and> s' = s1 \<or> narrow_int ret < 0 \<and> err = EINTR)
     | Timeout \<Rightarrow> ev_rules s' = R \<and> narrow_int ret = 0 \<and> (\<exists>q \<in> set qs. events q \<noteq> 0)
     | Success \<Rightarrow> ev_rules s' = survivors R (store_revents qs rs) \<and> (\<exists>q \<in> set qs. events q \<noteq> 0) \<and>
         (0 < narrow_int ret \<or> narrow_int ret < 0 \<and> err \<noteq> EINTR) \<and> (\<forall>p \<in> set (store_revents qs rs). \<not> poll_failed p))"
proof -
  have client: "loop_client cl"
    using assms(1,2) by (rule loop_client.intro)
  show ?thesis
  proof (cases rule: loop_client.wait_cases [OF client assms(3), of os])
    case (1 e s1)
    then show ?thesis using assms(4) by (simp add: wait_setup)
  next
    case (2 R qs b s1)
    obtain ret err rs k where call: "os_poll os qs timeout_ms (kern s1) = ((ret, err, rs), k)"
      by (metis prod.exhaust)
    let ?s = "s1\<lparr>kern := k, errno := err\<rparr>"
    have R: "ev_rules s1 = R" "ev_keep R ?s" "length qs = length R"
      using 2(2,4) by (simp_all add: ev_keep_inv [of R s1] list_all2_lengthD)
    have dead: "(\<forall>rule \<in> set (ev_rules s). inert cl rule) \<longrightarrow> R = filter (\<lambda>rule. \<not> dead_rule s rule) (ev_rules s)"
      using loop_client.setup_loop_dead [OF client assms(3) [unfolded ev_inv_def], of 0 os "[]" False] 2(1) R(1) by simp
    show ?thesis
    proof (cases b)
      case False
      then have "r = Exit" "s' = s1" "\<forall>q \<in> set qs. events q = 0"
        using 2(1,5) assms(4) wait_setup(2) [of os cl s qs s1 timeout_ms] by auto
      with 2(1,3,4) False call R dead show ?thesis
        by (intro exI [of _ R] exI [of _ qs] exI [of _ s1] exI [of _ ret] exI [of _ err] exI [of _ rs] exI [of _ k]) simp
    next
      case True
      have "setup_loop os cl 0 [] False s = Some (Inr (qs, True), s1)"
        using 2(1) True by simp
      note polled = loop_client.polled_result [OF client R(1) R(2,3) this call assms(4)]
      from polled 2(1,3,4,5) True call R(1) dead show ?thesis
        by (intro exI [of _ R] exI [of _ qs] exI [of _ s1] exI [of _ ret] exI [of _ err] exI [of _ rs] exI [of _ k])
          (simp split: ev_result.splits)
    qed
  qed
qed

text \<open>A rule whose descriptor has reached its end is cancelled, and nothing is left to wait for.\<close>

theorem wait_next_event_result_witness:
  "\<exists>s'. wait_next_event ready_os (fd_closures ready_os) 100 demo_after_read = Some (Inr Exit, s') \<and> ev_rules s' = []"
proof -
  let ?c = "Read_from 0 10"
  let ?s = "demo_after_read\<lparr>fd_heap := [0 \<mapsto> demo_wrapper\<lparr>fdw_eof := True, fdw_read_count := 1, fdw_uses := 1\<rparr>], ev_rules := []\<rparr>"
  have inv: "ev_inv demo_after_read"
    by (simp add: ev_inv_def ev_keep_def fd_wf_def demo_after_read_def demo_loop_def demo_wrapper_def wrapper_ok_def uses_of_def demo_rule_def)
  have inert: "\<forall>rule \<in> set (ev_rules demo_after_read). inert (fd_closures ready_os) rule"
    by (simp add: demo_after_read_def demo_loop_def demo_rule_def inert_def fd_closures_def em_simps)
  have dead: "filter (\<lambda>rule. \<not> dead_rule demo_after_read rule) (ev_rules demo_after_read) = []"
    by (simp add: demo_after_read_def demo_loop_def demo_rule_def dead_rule_def demo_wrapper_def)
  have "setup_rule ready_os (fd_closures ready_os) 0 demo_after_read = (Inr None, ?s)"
    by (simp add: setup_rule_def rule_at_def em_simps demo_after_read_def demo_loop_def demo_rule_def demo_wrapper_def fd_eof_def
        fd_closures_def cancel_rule_def erase_rule_def fd_release_def)
  then have "setup_loop ready_os (fd_closures ready_os) 0 [] False demo_after_read = Some (Inr ([], False), ?s)"
    by (simp add: setup_loop.simps [of _ _ 0] demo_after_read_def demo_loop_def)
  then have w: "wait_next_event ready_os (fd_closures ready_os) 100 demo_after_read = Some (Inr Exit, ?s)"
    by (rule wait_setup(2))
  show ?thesis
    using w inert dead wait_next_event_result [OF fd_client.call_keeps fd_client.ask_keeps inv w] by auto
qed

text \<open>A failing \<open>poll\<close> goes unnoticed unless the error is \<open>EINTR\<close>: the \<open>unix_error\<close> is caught and
  dropped, no descriptor is looked at, no callback runs, and \<open>wait_next_event\<close> reports
  \<open>Success\<close>. The documentation promises a \<open>runtime_error\<close>.\<close>

lemma poll_failure_swallowed:
  assumes "\<And>R c. keeps (ev_keep R) (call cl c)" and "\<And>R c. keeps (ev_keep R) (ask cl c)" and "ev_inv s"
    and "setup_loop os cl 0 [] False s = Some (Inr (qs, True), s1)"
    and "os_poll os qs timeout_ms (kern s1) = ((- 1, err, []), k)" and "err \<noteq> EINTR"
  shows "wait_next_event os cl timeout_ms s = Some (Inr Success, s1\<lparr>kern := k, errno := err\<rparr>)"
proof -
  have client: "loop_client cl"
    using assms(1,2) by (rule loop_client.intro)
  have len: "length qs = length (ev_rules s1)"
    using assms(4) by (cases rule: loop_client.wait_cases [OF client assms(3), of os])
      (auto simp: ev_keep_inv list_all2_lengthD)
  have quiet: "results_loop os cl i ps s2 = (Inr (), s2)"
    if "\<forall>p \<in> set ps. revents p = 0" "i + length ps = length (ev_rules s2)" for i ps and s2 :: "('b, 'a, 'c) loop_world_scheme"
    using that
    by (induction ps arbitrary: i)
      (auto simp: handle_result_eq poll_failed_def defunct_def ready_def em_simps rule_at_def)
  have "\<forall>p \<in> set (store_revents qs []). revents p = 0"
    by (auto simp: store_revents_def set_zip)
  then show ?thesis
    using wait_poll [OF assms(4,5)] assms(6) len quiet [of "store_revents qs []" 0 "s1\<lparr>kern := k, errno := err\<rparr>"]
    by (simp add: poll_outcome_def narrow_int_id)
qed

text \<open>C40. A callback that adds a rule to its own loop makes the second loop read past the end of
  \<open>pollfds\<close>: the new rule is at the end of the list the loop is walking, and has no \<open>pollfd\<close>.
  Here for one ready rule whose callback also does its duty of reading or writing.\<close>

theorem add_rule_in_callback_overruns:
  assumes "setup_loop os cl 0 [] False s = Some (Inr ([q], True), s1)" and "ev_rules s1 = [rule]"
    and "os_poll os [q] timeout_ms (kern s1) = ((1, err, [bits]), k)"
    and "bits AND events q \<noteq> 0" and "bits AND (POLLERR OR POLLNVAL) = 0"
    and "call cl (rule_callback rule) (s1\<lparr>kern := k, errno := err\<rparr>) = (Inr (), s2)"
    and "ev_rules s2 = rule # added # others"
    and "service_count rule (s1\<lparr>kern := k, errno := err\<rparr>) = (Inr m, s1\<lparr>kern := k, errno := err\<rparr>)"
    and "service_count rule s2 = (Inr n, s2)" and "m \<noteq> n"
  shows "wait_next_event os cl timeout_ms s = Some (Inl (Undefined_behaviour ''pollfds[idx] out of range''), s2)"
proof -
  let ?p = "q\<lparr>revents := bits\<rparr>" and ?s = "s1\<lparr>kern := k, errno := err\<rparr>"
  have p: "\<not> poll_failed ?p" "ready ?p" "\<not> defunct ?p"
    using assms(4,5) by (simp_all add: poll_failed_def ready_def defunct_def)
  have "rule_at 0 ?s = (Inr rule, ?s)"
    using assms(2) by (simp add: rule_at_def)
  with p assms(6,8-10) have "handle_result os cl 0 ?p ?s = (Inr False, s2)"
    by (simp add: handle_result_eq em_simps busy_check_def)
  moreover have "store_revents [q] [bits] = [?p]"
    by (simp add: store_revents_def)
  ultimately show ?thesis
    using wait_poll [OF assms(1,3)] assms(2,7) by (simp add: poll_outcome_def narrow_int_id)
qed

theorem add_rule_in_callback_overruns_witness:
  "\<exists>s'. wait_next_event ready_os ((fd_closures ready_os)\<lparr>call := (\<lambda>c. seqM (fd_call ready_os c)
       (add_rule 0 Out (Write_to 0 []) Always No_op))\<rparr>) 100 (demo_loop (Read_from 0 10)) =
     Some (Inl (Undefined_behaviour ''pollfds[idx] out of range''), s')"
proof -
  let ?c = "Read_from 0 10" and ?p = "\<lparr>pfd_fd = 3, events = POLLIN, revents = 0\<rparr>"
  let ?cl = "(fd_closures ready_os)\<lparr>call := (\<lambda>c. seqM (fd_call ready_os c) (add_rule 0 Out (Write_to 0 []) Always No_op))\<rparr>"
  let ?new = "\<lparr>rule_fd = 0, rule_direction = Out, rule_callback = Write_to 0 [], rule_interest = Always, rule_cancel = No_op\<rparr>"
  have "setup_rule ready_os ?cl 0 (demo_loop ?c) = (Inr (Some (?p, True)), demo_loop ?c)"
    by (simp add: setup_rule_def rule_at_def em_simps demo_loop_def demo_rule_def demo_wrapper_def fd_eof_def
        fd_closed_def fd_closures_def direction_events_def)
  then have su: "setup_loop ready_os ?cl 0 [] False (demo_loop ?c) = Some (Inr ([?p], True), demo_loop ?c)"
    by (simp add: setup_loop.simps [of _ _ 0] setup_loop.simps [of _ _ "Suc 0"] demo_facts)
  have rd: "fd_call ready_os ?c (demo_loop ?c) = (Inr (), demo_after_read)"
    using demo_read by (simp add: fd_closures_def)
  let ?s = "demo_after_read\<lparr>fd_heap := [0 \<mapsto> demo_wrapper\<lparr>fdw_eof := True, fdw_read_count := 1, fdw_uses := 3\<rparr>],
     ev_rules := [demo_rule ?c, ?new]\<rparr>"
  have callback: "call ?cl (rule_callback (demo_rule ?c)) ((demo_loop ?c)\<lparr>kern := ([], []), errno := 0\<rparr>) = (Inr (), ?s)"
    unfolding demo_polled using rd
    by (simp add: demo_rule_def em_simps add_rule_def fd_duplicate_def demo_after_read_def demo_wrapper_def)
      (simp add: demo_loop_def demo_rule_def)
  have rev: "POLLIN AND events ?p \<noteq> 0" "POLLIN AND (POLLERR OR POLLNVAL) = 0"
    by (simp_all add: POLLIN_def POLLERR_def POLLNVAL_def)
  have before: "service_count (demo_rule ?c) ((demo_loop ?c)\<lparr>kern := ([], []), errno := 0\<rparr>) =
      (Inr 0, (demo_loop ?c)\<lparr>kern := ([], []), errno := 0\<rparr>)"
    unfolding demo_polled by (simp add: service_count_def demo_rule_def fd_read_count_def demo_facts em_simps demo_wrapper_def)
  have after: "service_count (demo_rule ?c) ?s = (Inr 1, ?s)"
    by (simp add: service_count_def demo_rule_def fd_read_count_def em_simps)
  show ?thesis
    using add_rule_in_callback_overruns [OF su demo_facts(3) demo_poll rev callback _ before after, of ?new "[]"]
    by simp
qed

end
