(* ===== verification/Event_Drain.thy ===== *)
theory Event_Drain
  imports Event_Loop
begin

text \<open>
  The event loop at work. A program that reads from several descriptors adds one rule for each
  and calls \<open>wait_next_event\<close> until it no longer returns \<open>Success\<close>. Over a kernel whose descriptors
  have finitely many bytes to deliver, followed by end of file, that is what the loop is
  for: every byte is read, every rule goes when its descriptor has reached its end, and the
  last call returns \<open>Exit\<close>. A timeout, a signal or a failing descriptor may end it earlier, and
  then nothing has been lost either.
\<close>

section \<open>Programs and kernels\<close>

text \<open>\<open>wait_next_event\<close> as long as it returns \<open>Success\<close>, at most \<open>n\<close> times; \<open>None\<close> when that was not enough.\<close>

fun serve :: "('k, 'y) ev_os_scheme \<Rightarrow> ('c, ('k, 'c, 'z) loop_world_scheme) closures \<Rightarrow> int \<Rightarrow> nat \<Rightarrow>
    ('k, 'c, 'z) loop_world_scheme \<Rightarrow> (ev_result result \<times> ('k, 'c, 'z) loop_world_scheme) option" where
  "serve os cl t 0 s = None"
| "serve os cl t (Suc n) s = (case wait_next_event os cl t s of
       Some (Inr Success, s') \<Rightarrow> serve os cl t n s'
     | r \<Rightarrow> r)"

text \<open>Rules whose callback reads from their descriptor.\<close>

definition reading :: "fd_closure rule \<Rightarrow> bool" where
  "reading rule \<longleftrightarrow> rule_direction rule = In \<and> rule_interest rule = Always \<and> rule_cancel rule = No_op \<and>
     (\<exists>limit > 0. rule_callback rule = Read_from (rule_fd rule) limit)"

text \<open>
  \<open>input k fd\<close> are the bytes that will still arrive at \<open>fd\<close>, \<open>got k fd\<close> those that the process has read from
  it. \<open>read(2)\<close> may fail and then takes nothing; otherwise it returns the next bytes, and 0 only at
  the end. \<open>close(2)\<close> may discard what was to come on the closed descriptor. \<open>poll(2)\<close> with timeout
  \<open>t\<close> takes nothing; it may time out or be interrupted by a signal. A positive result means that some
  entry has an event that was asked for, an error or a hangup, and a hangup without \<open>POLLIN\<close>
  on an entry that asked for it means that there is nothing left to read. Other failures of
  \<open>poll\<close> (\<open>EFAULT\<close>, \<open>EINVAL\<close>, \<open>ENOMEM\<close>) are left out: \<open>wait_next_event\<close> takes them for a success, and
  the program would call it for ever.
\<close>

definition read_behaves :: "('k, 'y) fd_os_scheme \<Rightarrow> ('k \<Rightarrow> int \<Rightarrow> byte list) \<Rightarrow> ('k \<Rightarrow> int \<Rightarrow> byte list) \<Rightarrow> bool" where
  "read_behaves os input got \<longleftrightarrow> (\<forall>fd n k.
     (\<exists>err data k'. os_read os fd n k = ((- 1, err, data), k') \<and> err \<noteq> 0 \<and> input k' = input k \<and> got k' = got k) \<or>
     (\<exists>m err k'. os_read os fd n k = ((int m, err, take m (input k fd)), k') \<and> m \<le> n \<and> m \<le> length (input k fd) \<and>
        (m = 0 \<longrightarrow> n = 0 \<or> input k fd = []) \<and> input k' = (input k)(fd := drop m (input k fd)) \<and>
        got k' = (got k)(fd := got k fd @ take m (input k fd))))"

definition close_behaves :: "('k, 'y) fd_os_scheme \<Rightarrow> ('k \<Rightarrow> int \<Rightarrow> byte list) \<Rightarrow> ('k \<Rightarrow> int \<Rightarrow> byte list) \<Rightarrow> bool" where
  "close_behaves os input got \<longleftrightarrow> (\<forall>fd k. \<exists>xs. let k' = snd (os_close os fd k) in
     input k' = (input k)(fd := xs) \<and> length xs \<le> length (input k fd) \<and> got k' = got k)"

definition poll_behaves :: "('k, 'y) ev_os_scheme \<Rightarrow> int \<Rightarrow> ('k \<Rightarrow> int \<Rightarrow> byte list) \<Rightarrow> ('k \<Rightarrow> int \<Rightarrow> byte list) \<Rightarrow> bool" where
  "poll_behaves os t input got \<longleftrightarrow> (\<forall>ps k. \<exists>ret err rs k'. os_poll os ps t k = ((ret, err, rs), k') \<and>
     input k' = input k \<and> got k' = got k \<and>
     (ret = 0 \<or> ret = - 1 \<and> err = EINTR \<or> 0 < ret \<and> ret < 2 ^ 31 \<and> length rs = length ps \<and>
       (\<exists>i < length ps. rs ! i AND (events (ps ! i) OR POLLERR OR POLLHUP OR POLLNVAL) \<noteq> 0) \<and>
       (\<forall>i < length ps. events (ps ! i) = POLLIN \<and> rs ! i AND POLLHUP \<noteq> 0 \<and> rs ! i AND (POLLIN OR POLLERR OR POLLNVAL) = 0 \<longrightarrow>
          input k (pfd_fd (ps ! i)) = [])))"

definition stream_kernel :: "('k, 'y) ev_os_scheme \<Rightarrow> int \<Rightarrow> ('k \<Rightarrow> int \<Rightarrow> byte list) \<Rightarrow> ('k \<Rightarrow> int \<Rightarrow> byte list) \<Rightarrow> bool" where
  "stream_kernel os t input got \<longleftrightarrow> read_behaves os input got \<and> close_behaves os input got \<and> poll_behaves os t input got"

text \<open>How the loop can end before its work is done, \<open>k'\<close> being the kernel's state at the end: the last \<open>poll\<close>, for input on some
  descriptors, timed out or was interrupted, a descriptor reported an error, or a \<open>read\<close> failed.\<close>

definition for_input :: "pollfd list \<Rightarrow> bool" where
  "for_input ps \<longleftrightarrow> ps \<noteq> [] \<and> (\<forall>p \<in> set ps. events p = POLLIN)"

definition read_failure :: "('k, 'y) fd_os_scheme \<Rightarrow> exn \<Rightarrow> 'k \<Rightarrow> bool" where
  "read_failure os e k' \<longleftrightarrow> (\<exists>fd n k err data. os_read os fd n k = ((- 1, err, data), k') \<and> err \<noteq> 0 \<and> e = unix_error ''read'' err)"

definition cut_short :: "('k, 'y) ev_os_scheme \<Rightarrow> int \<Rightarrow> ev_result result \<Rightarrow> 'k \<Rightarrow> bool" where
  "cut_short os t x k' \<longleftrightarrow> (case x of
       Inr Success \<Rightarrow> False
     | Inr Timeout \<Rightarrow> (\<exists>ps k err rs. for_input ps \<and> os_poll os ps t k = ((0, err, rs), k'))
     | Inr Exit \<Rightarrow> (\<exists>ps k rs. for_input ps \<and> os_poll os ps t k = ((- 1, EINTR, rs), k'))
     | Inl e \<Rightarrow> e = poll_error \<and> (\<exists>ps k ret err rs k1. for_input ps \<and> os_poll os ps t k = ((ret, err, rs), k1) \<and> (\<exists>r \<in> set rs. r AND (POLLERR OR POLLNVAL) \<noteq> 0)) \<or>
         read_failure os e k')"

lemma stream_read:
  assumes "stream_kernel os t input got"
  obtains (fails) err data k' where "os_read os fd n k = ((- 1, err, data), k')" "err \<noteq> 0" "input k' = input k" "got k' = got k"
    | (delivers) m err k' where "os_read os fd n k = ((int m, err, take m (input k fd)), k')" "m \<le> n" "m \<le> length (input k fd)"
    "m = 0 \<Longrightarrow> n = 0 \<or> input k fd = []" "input k' = (input k)(fd := drop m (input k fd))"
    "got k' = (got k)(fd := got k fd @ take m (input k fd))"
  using assms [unfolded stream_kernel_def read_behaves_def, THEN conjunct1, rule_format, of fd n k] by blast

lemma stream_close: "stream_kernel os t input got \<Longrightarrow> \<exists>xs. input (snd (os_close os fd k)) = (input k)(fd := xs) \<and>
    length xs \<le> length (input k fd) \<and> got (snd (os_close os fd k)) = got k"
  unfolding stream_kernel_def close_behaves_def Let_def by blast

lemma stream_poll:
  assumes "stream_kernel os t input got"
  obtains (early) ret err rs k' where "os_poll os ps t k = ((ret, err, rs), k')" "input k' = input k" "got k' = got k"
      "ret = 0 \<or> ret = - 1 \<and> err = EINTR"
    | (answer) ret err rs k' where "os_poll os ps t k = ((ret, err, rs), k')" "input k' = input k" "got k' = got k" "0 < ret" "ret < 2 ^ 31"
      "length rs = length ps" "\<exists>i < length ps. rs ! i AND (events (ps ! i) OR POLLERR OR POLLHUP OR POLLNVAL) \<noteq> 0"
      "\<forall>i < length ps. events (ps ! i) = POLLIN \<and> rs ! i AND POLLHUP \<noteq> 0 \<and> rs ! i AND (POLLIN OR POLLERR OR POLLNVAL) = 0 \<longrightarrow>
          input k (pfd_fd (ps ! i)) = []"
proof -
  obtain ret err rs k' where c: "os_poll os ps t k = ((ret, err, rs), k')" "input k' = input k" "got k' = got k"
    "ret = 0 \<or> ret = - 1 \<and> err = EINTR \<or> 0 < ret \<and> ret < 2 ^ 31 \<and> length rs = length ps \<and>
       (\<exists>i < length ps. rs ! i AND (events (ps ! i) OR POLLERR OR POLLHUP OR POLLNVAL) \<noteq> 0) \<and>
       (\<forall>i < length ps. events (ps ! i) = POLLIN \<and> rs ! i AND POLLHUP \<noteq> 0 \<and> rs ! i AND (POLLIN OR POLLERR OR POLLNVAL) = 0 \<longrightarrow>
          input k (pfd_fd (ps ! i)) = [])"
    using assms [unfolded stream_kernel_def poll_behaves_def, THEN conjunct2, THEN conjunct2, rule_format, of ps k] by blast
  from c(4) show ?thesis
    using early [OF c(1-3)] answer [OF c(1-3)] by blast
qed

section \<open>Work left\<close>

definition rule_work :: "('k \<Rightarrow> int \<Rightarrow> byte list) \<Rightarrow> ('k, 'c, 'z) loop_world_scheme \<Rightarrow> 'c rule \<Rightarrow> nat" where
  "rule_work input s rule = (case fd_heap s (rule_fd rule) of
       None \<Rightarrow> 0
     | Some w \<Rightarrow> length (input (kern s) (fdw_fd w)) + (if fdw_eof w then 0 else 1))"

definition work :: "('k \<Rightarrow> int \<Rightarrow> byte list) \<Rightarrow> ('k, 'c, 'z) loop_world_scheme \<Rightarrow> nat" where
  "work input s = sum_list (map (rule_work input s) (ev_rules s))"

text \<open>Every byte of \<open>A\<close> has been read or is to come, every descriptor of \<open>T\<close> is drained or still has a rule, and a rule at end of file is drained.\<close>

definition draining :: "('k \<Rightarrow> int \<Rightarrow> byte list) \<Rightarrow> ('k \<Rightarrow> int \<Rightarrow> byte list) \<Rightarrow> (int \<Rightarrow> byte list) \<Rightarrow> int set \<Rightarrow> ('k, fd_closure, 'z) loop_world_scheme \<Rightarrow> bool" where
  "draining input got A T s \<longleftrightarrow> ev_inv s \<and> (\<forall>rule \<in> set (ev_rules s). reading rule) \<and>
     (\<forall>f. got (kern s) f @ input (kern s) f = A f) \<and>
     (\<forall>f \<in> T. input (kern s) f = [] \<or> (\<exists>rule \<in> set (ev_rules s). \<exists>w. fd_heap s (rule_fd rule) = Some w \<and> fdw_fd w = f)) \<and>
     (\<forall>rule \<in> set (ev_rules s). \<forall>w. fd_heap s (rule_fd rule) = Some w \<longrightarrow> fdw_eof w \<longrightarrow> input (kern s) (fdw_fd w) = [])"

text \<open>A step from \<open>s\<close> to \<open>s'\<close>: no input appears or gets lost, wrappers keep their descriptor and their end-of-file mark, which is
  only set on a drained descriptor, and rules only go when they are at their end.\<close>

definition drains :: "('k \<Rightarrow> int \<Rightarrow> byte list) \<Rightarrow> ('k \<Rightarrow> int \<Rightarrow> byte list) \<Rightarrow> ('k, 'c, 'z) loop_world_scheme \<Rightarrow> ('k, 'c, 'z) loop_world_scheme \<Rightarrow> bool" where
  "drains input got s s' \<longleftrightarrow> (\<forall>f. length (input (kern s') f) \<le> length (input (kern s) f)) \<and>
     (\<forall>f. got (kern s') f @ input (kern s') f = got (kern s) f @ input (kern s) f) \<and>
     set (ev_rules s') \<subseteq> set (ev_rules s) \<and>
     (\<forall>rule \<in> set (ev_rules s'). \<forall>w. fd_heap s (rule_fd rule) = Some w \<longrightarrow> (\<exists>w'. fd_heap s' (rule_fd rule) = Some w' \<and>
        fdw_fd w' = fdw_fd w \<and> (fdw_eof w \<longrightarrow> fdw_eof w') \<and> (fdw_eof w' \<longrightarrow> fdw_eof w \<or> input (kern s') (fdw_fd w) = []))) \<and>
     (\<forall>rule \<in> set (ev_rules s) - set (ev_rules s'). \<forall>w. fd_heap s (rule_fd rule) = Some w \<longrightarrow> input (kern s') (fdw_fd w) = [])"

lemma rule_live: "ev_inv s \<Longrightarrow> rule \<in> set (ev_rules s) \<Longrightarrow> \<exists>w. fd_heap s (rule_fd rule) = Some w"
  unfolding ev_inv_def by (metis ev_keep_rule in_set_conv_nth)

lemma drains_draining:
  assumes "draining input got A T s" and d: "drains input got s s'" and "ev_inv s'"
  shows "draining input got A T s'"
proof -
  have inv: "ev_inv s" using assms(1) by (simp add: draining_def)
  have less: "input (kern s) f = [] \<Longrightarrow> input (kern s') f = []" for f
    using d unfolding drains_def by (metis le_zero_eq length_0_conv list.size(3))
  have rules: "set (ev_rules s') \<subseteq> set (ev_rules s)" using d by (simp add: drains_def)
  have keep: "\<exists>w'. fd_heap s' (rule_fd rule) = Some w' \<and> fdw_fd w' = fdw_fd w \<and>
      (fdw_eof w' \<longrightarrow> fdw_eof w \<or> input (kern s') (fdw_fd w) = [])"
    if "rule \<in> set (ev_rules s')" "fd_heap s (rule_fd rule) = Some w" for rule w
    using d that unfolding drains_def by blast
  have gone: "input (kern s') (fdw_fd w) = []"
    if "rule \<in> set (ev_rules s)" "rule \<notin> set (ev_rules s')" "fd_heap s (rule_fd rule) = Some w" for rule w
    using d that unfolding drains_def by blast
  have "input (kern s') f = [] \<or> (\<exists>rule \<in> set (ev_rules s'). \<exists>w. fd_heap s' (rule_fd rule) = Some w \<and> fdw_fd w = f)" if f: "f \<in> T" for f
  proof (cases "input (kern s) f = []")
    case False
    then obtain rule w where "rule \<in> set (ev_rules s)" "fd_heap s (rule_fd rule) = Some w" "fdw_fd w = f"
      using assms(1) f unfolding draining_def by blast
    with keep [of rule w] gone [of rule w] show ?thesis by blast
  qed (simp add: less)
  moreover have "input (kern s') (fdw_fd w') = []"
    if r: "rule \<in> set (ev_rules s')" and w': "fd_heap s' (rule_fd rule) = Some w'" "fdw_eof w'" for rule w'
  proof -
    obtain w where w: "fd_heap s (rule_fd rule) = Some w" using rule_live [OF inv] rules r by blast
    have "fdw_eof w \<longrightarrow> input (kern s) (fdw_fd w) = []"
      using assms(1) r rules w unfolding draining_def by blast
    with keep [OF r w] w' less show ?thesis by auto
  qed
  moreover have "\<forall>rule \<in> set (ev_rules s'). reading rule" "\<forall>f. got (kern s') f @ input (kern s') f = A f"
    using assms(1) rules d unfolding draining_def drains_def by (blast, simp)
  ultimately show ?thesis
    using assms(3) unfolding draining_def by blast
qed

lemma drains_rule_work:
  assumes "drains input got s s'" and "ev_inv s" and "rule \<in> set (ev_rules s')"
  shows "rule_work input s' rule \<le> rule_work input s rule"
proof -
  have "rule \<in> set (ev_rules s)" using assms(1,3) by (auto simp: drains_def)
  then obtain w where w: "fd_heap s (rule_fd rule) = Some w" using rule_live assms(2) by blast
  then obtain w' where w': "fd_heap s' (rule_fd rule) = Some w'" "fdw_fd w' = fdw_fd w" "fdw_eof w \<longrightarrow> fdw_eof w'"
    using assms(1,3) unfolding drains_def by blast
  moreover have "length (input (kern s') (fdw_fd w)) \<le> length (input (kern s) (fdw_fd w))"
    using assms(1) by (simp add: drains_def)
  ultimately show ?thesis
    using w by (simp add: rule_work_def)
qed

lemma sum_list_subseq: "subseq xs ys \<Longrightarrow> sum_list (map f xs) \<le> (sum_list (map f ys) :: nat)"
  by (induction rule: list_emb.induct) auto

lemma drains_work:
  assumes "drains input got s s'" and "ev_inv s" and "subseq (ev_rules s') (ev_rules s)"
  shows "work input s' \<le> work input s"
proof -
  have "work input s' \<le> sum_list (map (rule_work input s) (ev_rules s'))"
    unfolding work_def by (rule sum_list_mono) (rule drains_rule_work [OF assms(1,2)])
  also have "\<dots> \<le> work input s"
    unfolding work_def by (rule sum_list_subseq [OF assms(3)])
  finally show ?thesis .
qed

section \<open>The first loop\<close>

lemma subseq_erased: "i < length xs \<Longrightarrow> subseq (take i xs @ drop (Suc i) xs) xs"
  by (metis append_take_drop_id Cons_nth_drop_Suc list_emb_append_mono subseq_Cons' subseq_order.refl)

lemma erase_drains:
  assumes k: "stream_kernel os t input got" and d: "draining input got A T s" and i: "i < length (ev_rules s)"
    and w: "fd_heap s (rule_fd (ev_rules s ! i)) = Some w" and drained: "input (kern s) (fdw_fd w) = []"
  shows "\<exists>s'. erase_rule os i s = (Inr (), s') \<and> ev_rules s' = take i (ev_rules s) @ drop (Suc i) (ev_rules s) \<and>
    ev_inv s' \<and> drains input got s s' \<and>
    (\<forall>q v'. fd_heap s' q = Some v' \<longrightarrow> (\<exists>v. fd_heap s q = Some v \<and> fdw_fd v' = fdw_fd v \<and> fdw_eof v' = fdw_eof v))"
proof -
  let ?R = "take i (ev_rules s) @ drop (Suc i) (ev_rules s)" and ?s = "s\<lparr>ev_rules := take i (ev_rules s) @ drop (Suc i) (ev_rules s)\<rparr>"
  have inv: "ev_keep (ev_rules s) s" using d by (simp add: draining_def ev_inv_def)
  then obtain s' where s': "erase_rule os i s = (Inr (), s')" "ev_keep ?R s'"
    using erase_rule_keep [OF _ i] by blast
  then have R: "ev_rules s' = ?R" "ev_inv s'" by (simp_all add: ev_keep_inv)
  have "fd_release os (rule_fd (ev_rules s ! i)) ?s = (Inr (), s')"
    using s'(1) i by (simp add: erase_rule_def rule_at_def em_simps split: prod.splits sum.splits)
  moreover have "wrapper_ok w" using inv w by (simp add: ev_keep_def fd_wf_def)
  ultimately have marks: "\<And>q v'. fd_heap s' q = Some v' \<Longrightarrow> \<exists>v. fd_heap s q = Some v \<and> fdw_fd v' = fdw_fd v \<and> fdw_eof v' = fdw_eof v"
    and kern: "kern s' = kern s \<or> kern s' = snd (os_close os (fdw_fd w) (kern s))"
    using release_marks [of ?s _ w os _ s'] w by (fastforce, auto)
  from drained have same: "input (kern s') = input (kern s)" "got (kern s') = got (kern s)"
    using kern stream_close [OF k, of "fdw_fd w" "kern s"] by (auto simp: fun_upd_idem)
  have rules: "set (ev_rules s) \<subseteq> insert (ev_rules s ! i) (set ?R)"
    using i by (metis id_take_nth_drop list.simps(15) set_append subset_refl Un_insert_right)
  have "drains input got s s'"
    unfolding drains_def
  proof (intro conjI allI ballI impI)
    show "set (ev_rules s') \<subseteq> set (ev_rules s)" using R set_take_subset set_drop_subset by fastforce
  next
    fix rule v
    assume "rule \<in> set (ev_rules s')" "fd_heap s (rule_fd rule) = Some v"
    moreover from this obtain v' where "fd_heap s' (rule_fd rule) = Some v'" using rule_live [OF R(2)] by blast
    ultimately show "\<exists>v'. fd_heap s' (rule_fd rule) = Some v' \<and> fdw_fd v' = fdw_fd v \<and> (fdw_eof v \<longrightarrow> fdw_eof v') \<and>
        (fdw_eof v' \<longrightarrow> fdw_eof v \<or> input (kern s') (fdw_fd v) = [])"
      using marks by force
  next
    fix rule v
    assume "rule \<in> set (ev_rules s) - set (ev_rules s')" "fd_heap s (rule_fd rule) = Some v"
    then have "v = w" using rules R(1) w by auto
    then show "input (kern s') (fdw_fd v) = []" using drained same by simp
  qed (simp_all add: same)
  with s' R marks show ?thesis by blast
qed

text \<open>A rule with a descriptor at its end.\<close>

definition at_end :: "('k, 'c, 'z) loop_world_scheme \<Rightarrow> 'c rule \<Rightarrow> bool" where
  "at_end s rule \<longleftrightarrow> (\<exists>w. fd_heap s (rule_fd rule) = Some w \<and> fdw_eof w)"

text \<open>An entry that asks for input on the rule's descriptor.\<close>

definition requests :: "('k, 'c, 'z) loop_world_scheme \<Rightarrow> 'c rule \<Rightarrow> pollfd \<Rightarrow> bool" where
  "requests s rule p \<longleftrightarrow> events p = POLLIN \<and> (\<exists>w. fd_heap s (rule_fd rule) = Some w \<and> fdw_fd w = pfd_fd p)"

lemma drains_requests: "drains input got s s' \<Longrightarrow> rule \<in> set (ev_rules s') \<Longrightarrow> requests s rule p \<Longrightarrow> requests s' rule p"
  unfolding drains_def requests_def by metis

lemma setup_drains_step:
  assumes k: "stream_kernel os t input got" and d: "draining input got A T s" and i: "i < length (ev_rules s)"
  obtains (erased) s' where "at_end s (ev_rules s ! i)" "setup_rule os (fd_closures os) i s = (Inr None, s')"
      "ev_rules s' = take i (ev_rules s) @ drop (Suc i) (ev_rules s)" "draining input got A T s'" "work input s' \<le> work input s"
      "\<And>rule. at_end s' rule \<Longrightarrow> at_end s rule" "drains input got s s'"
    | (polled) p where "\<not> at_end s (ev_rules s ! i)" "requests s (ev_rules s ! i) p"
      "setup_rule os (fd_closures os) i s = (Inr (Some (p, True)), s)"
proof -
  let ?rule = "ev_rules s ! i"
  have inv: "ev_inv s" and reading: "reading ?rule" using d i by (auto simp: draining_def)
  obtain w where w: "fd_heap s (rule_fd ?rule) = Some w" using rule_live [OF inv nth_mem [OF i]] by blast
  have "wrapper_ok w" using inv w by (auto simp: ev_inv_def ev_keep_def fd_wf_def)
  then have closed: "fdw_closed w \<Longrightarrow> fdw_eof w" by (simp add: wrapper_ok_def)
  have at: "at_end s ?rule \<longleftrightarrow> fdw_eof w" using w by (simp add: at_end_def)
  show ?thesis
  proof (cases "fdw_eof w")
    case True
    then have "input (kern s) (fdw_fd w) = []"
      using d i w unfolding draining_def by (meson nth_mem)
    then obtain s' where s': "erase_rule os i s = (Inr (), s')" "ev_rules s' = take i (ev_rules s) @ drop (Suc i) (ev_rules s)"
        "ev_inv s'" "drains input got s s'"
        "\<forall>q v'. fd_heap s' q = Some v' \<longrightarrow> (\<exists>v. fd_heap s q = Some v \<and> fdw_fd v' = fdw_fd v \<and> fdw_eof v' = fdw_eof v)"
      using erase_drains [OF k d i w] by blast
    have run: "setup_rule os (fd_closures os) i s = (Inr None, s')"
      using True w i reading s'(1)
      by (simp add: setup_rule_def rule_at_def em_simps fd_eof_def reading_def cancel_rule_def fd_closures_def)
    have "at_end s' rule \<Longrightarrow> at_end s rule" for rule
      using s'(5) by (auto simp: at_end_def)
    then show ?thesis
      using erased [OF _ run s'(2) drains_draining [OF d s'(4,3)]] drains_work [OF s'(4) inv] subseq_erased [OF i] s'(2,4) at True by simp
  next
    case False
    then have run: "setup_rule os (fd_closures os) i s = (Inr (Some (\<lparr>pfd_fd = fdw_fd w, events = POLLIN, revents = 0\<rparr>, True)), s)"
      using closed w i reading
      by (auto simp: setup_rule_def rule_at_def em_simps fd_eof_def fd_closed_def reading_def fd_closures_def direction_events_def)
    show ?thesis using polled [OF _ _ run] at False w by (simp add: requests_def)
  qed
qed

lemma setup_drains:
  assumes "stream_kernel os t input got" and "draining input got A T s" and "i \<le> length (ev_rules s)"
    and "\<forall>rule \<in> set (take i (ev_rules s)). \<not> at_end s rule" and "list_all2 (requests s) (take i (ev_rules s)) ps"
  shows "\<exists>qs s'. setup_loop os (fd_closures os) i ps b s = Some (Inr (ps @ qs, b \<or> qs \<noteq> []), s') \<and> draining input got A T s' \<and>
    work input s' \<le> work input s \<and> (\<forall>rule \<in> set (ev_rules s'). \<not> at_end s' rule) \<and> list_all2 (requests s') (ev_rules s') (ps @ qs)"
  using assms
proof (induction "length (ev_rules s) - i" arbitrary: s i ps b)
  case 0
  then show ?case by (subst setup_loop.simps) (auto intro!: exI [of _ "[]"])
next
  case (Suc n)
  then have i: "i < length (ev_rules s)" by simp
  show ?case
  proof (cases rule: setup_drains_step [OF Suc.prems(1,2) i])
    case (1 s1)
    have step: "setup_loop os (fd_closures os) i ps b s = setup_loop os (fd_closures os) i ps b s1"
      using i 1(2) by (simp add: setup_loop.simps [of _ _ i _ _ s])
    have *: "n = length (ev_rules s1) - i" "i \<le> length (ev_rules s1)" "take i (ev_rules s1) = take i (ev_rules s)"
      using Suc.hyps(2) i 1(3) by auto
    moreover from this have "\<forall>rule \<in> set (take i (ev_rules s1)). \<not> at_end s1 rule"
      using Suc.prems(4) 1(6) by auto
    moreover have "list_all2 (requests s1) (take i (ev_rules s1)) ps"
      unfolding *(3) using Suc.prems(5) by (rule list.rel_mono_strong) (metis drains_requests [OF 1(7)] *(3) in_set_takeD)
    ultimately show ?thesis
      unfolding step using Suc.hyps(1) [of s1 i ps b, OF _ Suc.prems(1) 1(4)] 1(5) by (meson order_trans)
  next
    case (2 p)
    have step: "setup_loop os (fd_closures os) i ps b s = setup_loop os (fd_closures os) (Suc i) (ps @ [p]) True s"
      using i 2(3) by (simp add: setup_loop.simps [of _ _ i _ _ s])
    have "n = length (ev_rules s) - Suc i" "Suc i \<le> length (ev_rules s)"
        "\<forall>rule \<in> set (take (Suc i) (ev_rules s)). \<not> at_end s rule" "list_all2 (requests s) (take (Suc i) (ev_rules s)) (ps @ [p])"
      using Suc.hyps(2) Suc.prems(4,5) i 2(1,2) by (auto simp: take_Suc_conv_app_nth intro: list_all2_appendI)
    then obtain qs s' where "setup_loop os (fd_closures os) (Suc i) (ps @ [p]) True s = Some (Inr ((ps @ [p]) @ qs, True), s')"
        "draining input got A T s'" "work input s' \<le> work input s" "\<forall>rule \<in> set (ev_rules s'). \<not> at_end s' rule"
        "list_all2 (requests s') (ev_rules s') ((ps @ [p]) @ qs)"
      using Suc.hyps(1) [of s "Suc i" "ps @ [p]" True, OF _ Suc.prems(1,2)] by auto
    then show ?thesis
      unfolding step by (intro exI [of _ "p # qs"] exI [of _ s']) simp
  qed
qed

section \<open>The second loop\<close>

lemma sum_list_less:
  "\<forall>x \<in> set xs. f x \<le> g x \<Longrightarrow> \<exists>x \<in> set xs. f x < g x \<Longrightarrow> sum_list (map f xs) < (sum_list (map g xs) :: nat)"
proof (induction xs)
  case (Cons x xs)
  have le: "sum_list (map f xs) \<le> sum_list (map g xs)" by (rule sum_list_mono) (simp add: Cons.prems(1))
  show ?case
  proof (cases "f x < g x")
    case True
    with le show ?thesis by (simp add: add_less_le_mono)
  next
    case False
    then have "sum_list (map f xs) < sum_list (map g xs)" using Cons by auto
    with Cons.prems(1) show ?thesis by (simp add: add_le_less_mono)
  qed
qed simp

lemma sum_list_erased: "i < length xs \<Longrightarrow> sum_list (map f xs) = f (xs ! i) + (sum_list (map f (take i xs @ drop (Suc i) xs)) :: nat)"
  by (subst id_take_nth_drop [of i xs]) simp_all

text \<open>The callback of a rule reads once, which is work done unless the descriptor was at its end.\<close>

lemma read_drains:
  assumes k: "stream_kernel os t input got" and d: "draining input got A T s" and rule: "rule \<in> set (ev_rules s)"
  obtains (fails) e s' where "call (fd_closures os) (rule_callback rule) s = (Inl e, s')" "read_failure os e (kern s')" "draining input got A T s'"
    | (reads) s' n where "call (fd_closures os) (rule_callback rule) s = (Inr (), s')" "service_count rule s = (Inr n, s)"
      "service_count rule s' = (Inr (n + 1), s')" "ev_rules s' = ev_rules s" "drains input got s s'" "draining input got A T s'"
      "work input s' \<le> work input s" "\<not> at_end s rule \<Longrightarrow> work input s' < work input s"
proof -
  have inv: "ev_inv s" and reading: "reading rule" using d rule by (auto simp: draining_def)
  obtain limit where limit: "limit > 0" "rule_callback rule = Read_from (rule_fd rule) limit" and dir: "rule_direction rule = In"
    using reading by (auto simp: reading_def)
  let ?r = "rule_fd rule" and ?n = "min READ_BUFFER_SIZE (unat limit)"
  obtain w where w: "fd_heap s ?r = Some w" using rule_live [OF inv rule] by blast
  show ?thesis
  proof (cases rule: stream_read [OF k, of "fdw_fd w" ?n "kern s"])
    case (1 err data k')
    let ?s = "s\<lparr>kern := k', errno := err\<rparr>"
    have "narrow_int (- 1) = - 1" by (rule narrow_int_id) simp_all
    then have "sys_call ''read'' (os_read os (fdw_fd w) ?n) s = (Inl (unix_error ''read'' err), ?s)"
      using sys_call_fails [of "os_read os (fdw_fd w) ?n", OF 1(1) _ 1(2)] by simp
    then have run: "call (fd_closures os) (rule_callback rule) s = (Inl (unix_error ''read'' err), ?s)"
      using w by (simp add: limit fd_closures_def fd_read_def fd_read_into_def Let_def em_simps)
    have "read_failure os (unix_error ''read'' err) (kern ?s)"
      unfolding read_failure_def using 1(1,2) by simp blast
    moreover have "draining input got A T ?s" using d 1(3,4) by (simp add: draining_def ev_inv_def)
    ultimately show ?thesis using fails [OF run] by blast
  next
    case (2 m err k')
    have "?n \<noteq> 0" using limit(1) by (simp add: READ_BUFFER_SIZE_def word_less_nat_alt)
    then have m0: "m = 0 \<Longrightarrow> input (kern s) (fdw_fd w) = []" using 2(4) by blast
    let ?w = "w\<lparr>fdw_eof := fdw_eof w \<or> (limit > 0 \<and> m = 0), fdw_read_count := fdw_read_count w + 1\<rparr>"
    let ?s = "s\<lparr>kern := k', errno := err, fd_heap := (fd_heap s)(?r := Some ?w)\<rparr>"
    have "fd_read os ?r limit s = (Inr (take m (input (kern s) (fdw_fd w))), ?s)"
      using 2(2,3) by (intro fd_read_ok [OF w 2(1)]) simp_all
    then have run: "call (fd_closures os) (rule_callback rule) s = (Inr (), ?s)"
      by (simp add: limit fd_closures_def em_simps)
    have inv': "ev_inv ?s"
      using keepsD [OF fd_client.call_keeps inv [unfolded ev_inv_def] run] by (simp add: ev_keep_inv)
    have drains: "drains input got s ?s"
      using w m0 by (auto simp: drains_def 2(5,6))
    note rule_work = drains_rule_work [OF drains inv]
    have "rule_work input ?s rule < rule_work input s rule" if "\<not> at_end s rule"
      using that w 2(3) m0 limit(1) by (cases "m = 0") (auto simp: rule_work_def at_end_def 2(5))
    then have "work input ?s < work input s" if "\<not> at_end s rule"
      unfolding work_def using that rule rule_work by (auto intro!: sum_list_less)
    moreover have "work input ?s \<le> work input s"
      unfolding work_def using rule_work by (auto intro!: sum_list_mono)
    moreover have "service_count rule s = (Inr (fdw_read_count w), s)" "service_count rule ?s = (Inr (fdw_read_count w + 1), ?s)"
      using w dir by (simp_all add: service_count_def fd_read_count_def em_simps)
    ultimately show ?thesis
      using reads [OF run _ _ _ drains drains_draining [OF d drains inv']] by simp
  qed
qed

text \<open>The answers of a stream kernel to a request for input: a mere hangup is reported only when nothing is left to read.\<close>

definition answered :: "('k \<Rightarrow> int \<Rightarrow> byte list) \<Rightarrow> ('k, 'c, 'z) loop_world_scheme \<Rightarrow> 'c rule \<Rightarrow> pollfd \<Rightarrow> bool" where
  "answered input s rule p \<longleftrightarrow> requests s rule p \<and> (defunct p \<and> \<not> poll_failed p \<longrightarrow> input (kern s) (pfd_fd p) = [])"

definition active :: "pollfd \<Rightarrow> bool" where
  "active p \<longleftrightarrow> ready p \<or> defunct p \<or> poll_failed p"

lemma drains_answered:
  assumes "drains input got s s'" and "rule \<in> set (ev_rules s')" and "answered input s rule p"
  shows "answered input s' rule p"
proof -
  have "length (input (kern s') (pfd_fd p)) \<le> length (input (kern s) (pfd_fd p))" using assms(1) by (simp add: drains_def)
  with assms(3) drains_requests [OF assms(1,2)] show ?thesis by (auto simp: answered_def)
qed

lemma hangup_drains:
  assumes k: "stream_kernel os t input got" and d: "draining input got A T s" and i: "i < length (ev_rules s)"
    and p: "answered input s (ev_rules s ! i) p" "defunct p" "\<not> poll_failed p"
  shows "\<exists>s'. handle_result os (fd_closures os) i p s = (Inr True, s') \<and> ev_rules s' = take i (ev_rules s) @ drop (Suc i) (ev_rules s) \<and>
    drains input got s s' \<and> draining input got A T s' \<and> work input s' \<le> work input s \<and>
    (\<not> at_end s (ev_rules s ! i) \<longrightarrow> work input s' < work input s)"
proof -
  let ?rule = "ev_rules s ! i"
  have inv: "ev_inv s" and reading: "reading ?rule" using d i by (auto simp: draining_def)
  obtain w where w: "fd_heap s (rule_fd ?rule) = Some w" "input (kern s) (fdw_fd w) = []"
    using p by (auto simp: answered_def requests_def)
  then obtain s' where s': "erase_rule os i s = (Inr (), s')" "ev_rules s' = take i (ev_rules s) @ drop (Suc i) (ev_rules s)"
      "ev_inv s'" "drains input got s s'"
    using erase_drains [OF k d i] by blast
  have run: "handle_result os (fd_closures os) i p s = (Inr True, s')"
    using p(2,3) i reading s'(1) by (simp add: handle_result_eq rule_at_def em_simps reading_def cancel_rule_def fd_closures_def)
  have "rule_work input s ?rule > 0" if "\<not> at_end s ?rule"
    using that w by (simp add: rule_work_def at_end_def)
  moreover have "work input s' \<le> sum_list (map (rule_work input s) (ev_rules s'))"
    unfolding work_def by (rule sum_list_mono) (rule drains_rule_work [OF s'(4) inv])
  ultimately have "work input s' \<le> work input s" "\<not> at_end s ?rule \<longrightarrow> work input s' < work input s"
    using sum_list_erased [OF i, of "rule_work input s"] s'(2) by (auto simp: work_def)
  with run s' drains_draining [OF d s'(4,3)] show ?thesis by blast
qed

lemma handle_drains:
  assumes k: "stream_kernel os t input got" and d: "draining input got A T s" and i: "i < length (ev_rules s)"
    and p: "answered input s (ev_rules s ! i) p"
  obtains (fails) e s' where "handle_result os (fd_closures os) i p s = (Inl e, s')" "draining input got A T s'"
      "e = poll_error \<and> poll_failed p \<or> read_failure os e (kern s')"
    | (goes_on) erased s' where "handle_result os (fd_closures os) i p s = (Inr erased, s')"
      "ev_rules s' = (if erased then take i (ev_rules s) @ drop (Suc i) (ev_rules s) else ev_rules s)" "draining input got A T s'"
      "work input s' \<le> work input s" "drains input got s s'"
      "if active p then \<not> at_end s (ev_rules s ! i) \<longrightarrow> work input s' < work input s else s' = s"
proof (cases "poll_failed p")
  case True
  then show ?thesis using fails [of poll_error s] d by (simp add: handle_result_eq em_simps)
next
  case nf: False
  show ?thesis
  proof (cases "defunct p")
    case True
    then show ?thesis
      using hangup_drains [OF k d i p True nf] goes_on [where erased = True] by (auto simp: active_def)
  next
    case nd: False
    show ?thesis
    proof (cases "ready p")
      case False
      have "drains input got s s" by (simp add: drains_def)
      then show ?thesis
        using nf nd False d i goes_on [of False s] by (auto simp: active_def handle_result_eq rule_at_def em_simps)
    next
      case True
      show ?thesis
      proof (cases rule: read_drains [OF k d nth_mem [OF i]])
        case (1 e s')
        obtain n where "service_count (ev_rules s ! i) s = (Inr n, s)"
          using p d i by (auto simp: answered_def requests_def draining_def reading_def service_count_def fd_read_count_def em_simps)
        with 1 True nf nd i show ?thesis
          using fails [of e s'] by (simp add: handle_result_eq rule_at_def em_simps)
      next
        case (2 s' n)
        then have "handle_result os (fd_closures os) i p s = (Inr False, s')"
          using True nf nd i by (simp add: handle_result_eq rule_at_def busy_check_def em_simps)
        with 2 True show ?thesis
          using goes_on [of False s'] by (simp add: active_def)
      qed
    qed
  qed
qed

lemma results_drain:
  assumes "stream_kernel os t input got" and "draining input got A T s" and "i \<le> length (ev_rules s)"
    and "list_all2 (answered input s) (drop i (ev_rules s)) ps"
  shows "\<exists>x s'. results_loop os (fd_closures os) i ps s = (x, s') \<and> draining input got A T s' \<and>
    (case x of
       Inl e \<Rightarrow> e = poll_error \<and> (\<exists>p \<in> set ps. poll_failed p) \<or> read_failure os e (kern s')
     | Inr _ \<Rightarrow> work input s' \<le> work input s \<and>
         ((\<exists>p \<in> set ps. active p) \<and> (\<forall>rule \<in> set (ev_rules s). \<not> at_end s rule) \<longrightarrow> work input s' < work input s))"
  using assms
proof (induction ps arbitrary: i s)
  case Nil
  then show ?case by simp
next
  case (Cons p ps)
  then have "drop i (ev_rules s) \<noteq> []" by auto
  then have i: "i < length (ev_rules s)" by simp
  with Cons.prems(4) have p: "answered input s (ev_rules s ! i) p" "list_all2 (answered input s) (drop (Suc i) (ev_rules s)) ps"
    by (simp_all add: Cons_nth_drop_Suc [symmetric])
  show ?case
  proof (cases rule: handle_drains [OF Cons.prems(1,2) i p(1)])
    case (1 e s')
    then show ?thesis using i by auto
  next
    case (2 erased s1)
    let ?i = "if erased then i else Suc i"
    have step: "results_loop os (fd_closures os) i (p # ps) s = results_loop os (fd_closures os) ?i ps s1"
      using i 2(1) by simp
    have rest: "?i \<le> length (ev_rules s1)" "drop ?i (ev_rules s1) = drop (Suc i) (ev_rules s)"
      using i 2(2) by auto
    have "list_all2 (answered input s1) (drop ?i (ev_rules s1)) ps"
      unfolding rest(2) using p(2) by (rule list.rel_mono_strong) (metis drains_answered [OF 2(5)] rest(2) in_set_dropD)
    then obtain x s' where s': "results_loop os (fd_closures os) ?i ps s1 = (x, s')" "draining input got A T s'"
        "case x of
           Inl e \<Rightarrow> e = poll_error \<and> (\<exists>p \<in> set ps. poll_failed p) \<or> read_failure os e (kern s')
         | Inr _ \<Rightarrow> work input s' \<le> work input s1 \<and>
             ((\<exists>p \<in> set ps. active p) \<and> (\<forall>rule \<in> set (ev_rules s1). \<not> at_end s1 rule) \<longrightarrow> work input s' < work input s1)"
      using Cons.IH [OF Cons.prems(1) 2(3) rest(1)] by blast
    have "work input s' < work input s"
      if "x = Inr u" "\<exists>p \<in> set (p # ps). active p" and fresh: "\<forall>rule \<in> set (ev_rules s). \<not> at_end s rule" for u
    proof (cases "active p")
      case True
      with 2(6) fresh i have "work input s1 < work input s" by simp
      with s'(3) that(1) show ?thesis by simp
    next
      case False
      with 2(6) s'(3) that show ?thesis by simp
    qed
    with s' 2(4) show ?thesis unfolding step by (auto split: sum.splits)
  qed
qed

section \<open>The loop\<close>

lemma poll_active:
  assumes "events q = POLLIN" and "r AND (events q OR POLLERR OR POLLHUP OR POLLNVAL) \<noteq> 0"
  shows "active (q\<lparr>revents := r\<rparr>)"
proof -
  have "POLLIN \<noteq> 0" by (simp add: POLLIN_def)
  with assms show ?thesis
    by (auto simp: active_def ready_def defunct_def poll_failed_def bit.conj_disj_distrib)
qed

lemma poll_answered:
  assumes "list_all2 (requests s) (ev_rules s) qs" and "length rs = length qs" and "fd_heap s' = fd_heap s" and "ev_rules s' = ev_rules s"
    and "\<forall>i < length qs. events (qs ! i) = POLLIN \<and> rs ! i AND POLLHUP \<noteq> 0 \<and> rs ! i AND (POLLIN OR POLLERR OR POLLNVAL) = 0 \<longrightarrow>
      input (kern s') (pfd_fd (qs ! i)) = []"
  shows "list_all2 (answered input s') (ev_rules s') (store_revents qs rs)"
proof (rule list_all2_all_nthI)
  fix i assume i: "i < length (ev_rules s')"
  with assms(1,4) have q: "i < length qs" "requests s (ev_rules s ! i) (qs ! i)"
    by (auto simp: list_all2_conv_all_nth)
  with assms(2-5) show "answered input s' (ev_rules s' ! i) (store_revents qs rs ! i)"
    by (auto simp: store_revents_def answered_def requests_def defunct_def ready_def poll_failed_def bit.conj_disj_distrib)
qed (use assms(1,4) in \<open>simp add: list_all2_lengthD\<close>)

lemma wait_drains:
  assumes k: "stream_kernel os t input got" and d: "draining input got A T s"
  shows "\<exists>x s'. wait_next_event os (fd_closures os) t s = Some (x, s') \<and> draining input got A T s' \<and>
    (x = Inr Exit \<and> ev_rules s' = [] \<or> x = Inr Success \<and> work input s' < work input s \<or> cut_short os t x (kern s'))"
proof -
  obtain qs s1 where s1: "setup_loop os (fd_closures os) 0 [] False s = Some (Inr (qs, qs \<noteq> []), s1)" "draining input got A T s1"
      "work input s1 \<le> work input s" "\<forall>rule \<in> set (ev_rules s1). \<not> at_end s1 rule" "list_all2 (requests s1) (ev_rules s1) qs"
    using setup_drains [OF k d, of 0 "[]" False] by auto
  show ?thesis
  proof (cases "qs = []")
    case True
    with s1 show ?thesis by (auto simp: wait_setup(2) [of _ _ s qs s1])
  next
    case False
    then have qs: "for_input qs"
      using s1(5) by (auto simp: for_input_def list_all2_conv_all_nth requests_def in_set_conv_nth)
    from False have su: "setup_loop os (fd_closures os) 0 [] False s = Some (Inr (qs, True), s1)" using s1(1) by simp
    show ?thesis
    proof (cases rule: stream_poll [OF k, of qs "kern s1"])
      case (1 ret err rs k')
      then have "draining input got A T (s1\<lparr>kern := k', errno := err\<rparr>)"
        using s1(2) by (simp add: draining_def ev_inv_def)
      moreover have "poll_outcome ret err = Some (if ret = 0 then Timeout else Exit)"
        using 1(4) narrow_int_id [of ret] by (auto simp: poll_outcome_def)
      ultimately show ?thesis
        using wait_poll [OF su 1(1)] qs 1(1,4) by (auto simp: cut_short_def)
    next
      case (2 ret err rs k')
      let ?s = "s1\<lparr>kern := k', errno := err\<rparr>" and ?ps = "store_revents qs rs"
      have "poll_outcome ret err = None" using 2(4,5) narrow_int_id [of ret] by (simp add: poll_outcome_def)
      then have wait: "wait_next_event os (fd_closures os) t s = Some (case results_loop os (fd_closures os) 0 ?ps ?s of
          (Inl e, s') \<Rightarrow> (Inl e, s') | (Inr _, s') \<Rightarrow> (Inr Success, s'))"
        using wait_poll [OF su 2(1)] by simp
      have answered: "list_all2 (answered input ?s) (ev_rules ?s) ?ps"
        using s1(5) 2(2,6,8) by (intro poll_answered) simp_all
      obtain i where i: "i < length qs" "rs ! i AND (events (qs ! i) OR POLLERR OR POLLHUP OR POLLNVAL) \<noteq> 0"
        using 2(7) by blast
      then have "active (?ps ! i)"
        using s1(5) 2(6) poll_active [of "qs ! i"] by (auto simp: store_revents_def list_all2_conv_all_nth requests_def)
      then have active: "\<exists>p \<in> set ?ps. active p" using i(1) by (metis length_store_revents nth_mem)
      have "rule_work input ?s = rule_work input s1"
        using 2(2) by (simp add: fun_eq_iff rule_work_def cong: option.case_cong)
      then have "work input ?s = work input s1" by (simp add: work_def)
      moreover have dr: "draining input got A T ?s" and "\<forall>rule \<in> set (ev_rules ?s). \<not> at_end ?s rule"
        using s1(2,4) 2(2,3) by (simp_all add: draining_def at_end_def ev_inv_def)
      moreover have "cut_short os t (Inl poll_error) kx" if "\<exists>p \<in> set ?ps. poll_failed p" for kx
        using that qs 2(1,6) unfolding cut_short_def by (force simp: store_revents_def poll_failed_def set_zip)
      moreover obtain x s' where s': "results_loop os (fd_closures os) 0 ?ps ?s = (x, s')" "draining input got A T s'"
          "case x of
             Inl e \<Rightarrow> e = poll_error \<and> (\<exists>p \<in> set ?ps. poll_failed p) \<or> read_failure os e (kern s')
           | Inr _ \<Rightarrow> work input s' \<le> work input ?s \<and>
               ((\<exists>p \<in> set ?ps. active p) \<and> (\<forall>rule \<in> set (ev_rules ?s). \<not> at_end ?s rule) \<longrightarrow> work input s' < work input ?s)"
        using results_drain [OF k dr, of 0 ?ps] answered by auto
      moreover have "cut_short os t (Inl e) kx" if "read_failure os e kx" for e kx
        using that by (simp add: cut_short_def)
      ultimately show ?thesis
        using active s1(3) wait by (cases x) auto
    qed
  qed
qed

lemma serve_drains:
  assumes "stream_kernel os t input got" and "draining input got A T s" and "work input s < n"
  shows "\<exists>x s'. serve os (fd_closures os) t n s = Some (x, s') \<and> draining input got A T s' \<and>
    (x = Inr Exit \<and> ev_rules s' = [] \<or> cut_short os t x (kern s'))"
  using assms
proof (induction n arbitrary: s)
  case (Suc n)
  obtain x s' where s': "wait_next_event os (fd_closures os) t s = Some (x, s')" "draining input got A T s'"
      "x = Inr Exit \<and> ev_rules s' = [] \<or> x = Inr Success \<and> work input s' < work input s \<or> cut_short os t x (kern s')"
    using wait_drains [OF Suc.prems(1,2)] by blast
  show ?case
  proof (cases "x = Inr Success")
    case True
    with s' have "work input s' < n" using Suc.prems(3) by (simp add: cut_short_def)
    with Suc.IH [OF Suc.prems(1) s'(2)] s'(1) True show ?thesis by simp
  next
    case False
    then have "serve os (fd_closures os) t (Suc n) s = Some (x, s')"
      using s'(1) by (auto split: sum.splits ev_result.splits)
    with s'(2,3) False show ?thesis by blast
  qed
qed simp

text \<open>C14. An event loop reads everything and ends. Over descriptors that deliver finitely many
  bytes and then end of file, a loop with a reading rule for each descriptor, called until it
  no longer returns \<open>Success\<close>, ends after at most as many calls as there are bytes and
  rules (and one more), however little each \<open>read\<close> returns, in whatever order the descriptors
  become ready, and whether the end is reported as readable or as a hangup only. Nothing that
  was to come is lost: what has been read from each descriptor and what is still to come make up
  what was to come at first, and a descriptor with anything left still has a rule. Unless the
  kernel cuts it short (a timeout, a signal, an error on a descriptor or a failing \<open>read\<close>, each
  reported as such), the last result is \<open>Exit\<close>, no rule is left, and everything that was to
  come on each rule's descriptor has been read, in order.\<close>

theorem event_loop_drains:
  assumes "stream_kernel os t input got" and "ev_inv s" and "\<forall>rule \<in> set (ev_rules s). reading rule \<and> \<not> at_end s rule"
    and "sum_list (map (rule_work input s) (ev_rules s)) < n"
  shows "\<exists>x s'. serve os (fd_closures os) t n s = Some (x, s') \<and>
    (\<forall>fd. got (kern s') fd @ input (kern s') fd = got (kern s) fd @ input (kern s) fd) \<and>
    (\<forall>rule \<in> set (ev_rules s). \<forall>w. fd_heap s (rule_fd rule) = Some w \<longrightarrow> input (kern s') (fdw_fd w) = [] \<or>
       (\<exists>rule' \<in> set (ev_rules s'). \<exists>w'. fd_heap s' (rule_fd rule') = Some w' \<and> fdw_fd w' = fdw_fd w)) \<and>
    (x = Inr Exit \<and> ev_rules s' = [] \<and>
      (\<forall>rule \<in> set (ev_rules s). \<forall>w. fd_heap s (rule_fd rule) = Some w \<longrightarrow> input (kern s') (fdw_fd w) = [] \<and>
         got (kern s') (fdw_fd w) = got (kern s) (fdw_fd w) @ input (kern s) (fdw_fd w)) \<or>
     cut_short os t x (kern s'))"
proof -
  let ?A = "\<lambda>f. got (kern s) f @ input (kern s) f"
  let ?T = "{fdw_fd w |w. \<exists>rule \<in> set (ev_rules s). fd_heap s (rule_fd rule) = Some w}"
  have "draining input got ?A ?T s"
    using assms(2,3) by (auto simp: draining_def at_end_def)
  then obtain x s' where s': "serve os (fd_closures os) t n s = Some (x, s')" "draining input got ?A ?T s'"
      "x = Inr Exit \<and> ev_rules s' = [] \<or> cut_short os t x (kern s')"
    using serve_drains [OF assms(1), where s = s and n = n] assms(4) unfolding work_def by blast
  have all: "\<forall>f. got (kern s') f @ input (kern s') f = ?A f"
    and left: "\<forall>f \<in> ?T. input (kern s') f = [] \<or> (\<exists>rule \<in> set (ev_rules s'). \<exists>w. fd_heap s' (rule_fd rule) = Some w \<and> fdw_fd w = f)"
    using s'(2) by (simp_all add: draining_def)
  have T: "fdw_fd w \<in> ?T" if "rule \<in> set (ev_rules s)" "fd_heap s (rule_fd rule) = Some w" for rule w
    using that by blast
  have "input (kern s') f = [] \<and> got (kern s') f = ?A f" if "ev_rules s' = []" "f \<in> ?T" for f
    using that all [rule_format, of f] left by auto
  with s'(1,3) all left T show ?thesis
    by (intro exI [of _ x] exI [of _ s']) (simp, blast)
qed

text \<open>A kernel of pipes that hands out at most two bytes at a time and reports the end of one as a hangup only.\<close>

definition pipe_revents :: "(int \<Rightarrow> byte list) \<Rightarrow> pollfd \<Rightarrow> uint16" where
  "pipe_revents i p = (if i (pfd_fd p) = [] then POLLHUP else events p AND POLLIN)"

definition pipe_os :: "((int \<Rightarrow> byte list) \<times> (int \<Rightarrow> byte list)) ev_os" where
  "pipe_os = \<lparr>os_close = (\<lambda>fd (i, g). ((0, 0, ()), (i(fd := []), g))),
     os_read = (\<lambda>fd n (i, g). let m = min n (min 2 (length (i fd))) in
       ((int m, 0, take m (i fd)), (i(fd := drop m (i fd)), g(fd := g fd @ take m (i fd))))),
     os_writev = (\<lambda>fd iov k. ((-1, 9, ()), k)), os_getfl = (\<lambda>fd k. ((0, 0, ()), k)), os_setfl = (\<lambda>fd fl k. ((0, 0, ()), k)),
     os_message = (\<lambda>_ _. ''error''),
     os_poll = (\<lambda>ps t (i, g). ((min (2 ^ 31 - 1) (int (length (filter (\<lambda>p. pipe_revents i p \<noteq> 0) ps))), 0,
       map (pipe_revents i) ps), (i, g)))\<rparr>"

lemma pipe_read: "os_read pipe_os fd n (i, g) = (let m = min n (min 2 (length (i fd))) in
    ((int m, 0, take m (i fd)), (i(fd := drop m (i fd)), g(fd := g fd @ take m (i fd)))))"
  by (simp add: pipe_os_def)

lemma pipe_poll: "os_poll pipe_os ps t (i, g) =
    ((min (2 ^ 31 - 1) (int (length (filter (\<lambda>p. pipe_revents i p \<noteq> 0) ps))), 0, map (pipe_revents i) ps), (i, g))"
  by (simp add: pipe_os_def)

lemma pipe_revents_bits:
  "pipe_revents i p AND (POLLERR OR POLLNVAL) = 0"
  "pipe_revents i p \<noteq> 0 \<Longrightarrow> pipe_revents i p AND (events p OR POLLERR OR POLLHUP OR POLLNVAL) \<noteq> 0"
  "pipe_revents i p AND POLLHUP \<noteq> 0 \<Longrightarrow> i (pfd_fd p) = []"
  "events p = POLLIN \<Longrightarrow> pipe_revents i p \<noteq> 0"
proof -
  have "(e AND POLLIN) AND e = e AND POLLIN" for e :: uint16
    by (simp add: ac_simps)
  then show "pipe_revents i p \<noteq> 0 \<Longrightarrow> pipe_revents i p AND (events p OR POLLERR OR POLLHUP OR POLLNVAL) \<noteq> 0"
    by (auto simp: pipe_revents_def bit.conj_disj_distrib or_eq_0_iff split: if_splits)
qed (auto simp: pipe_revents_def POLLIN_def POLLERR_def POLLHUP_def POLLNVAL_def and.assoc split: if_splits)

lemma pipe_os_stream: "stream_kernel pipe_os t fst snd"
  unfolding stream_kernel_def
proof (intro conjI)
  have "\<exists>m err k'. os_read pipe_os fd n k = ((int m, err, take m (fst k fd)), k') \<and> m \<le> n \<and> m \<le> length (fst k fd) \<and>
      (m = 0 \<longrightarrow> n = 0 \<or> fst k fd = []) \<and> fst k' = (fst k)(fd := drop m (fst k fd)) \<and>
      snd k' = (snd k)(fd := snd k fd @ take m (fst k fd))" for fd n k
    by (cases k, intro exI [of _ "min n (min 2 (length (fst k fd)))"]) (simp add: pipe_read Let_def min_def)
  then show "read_behaves pipe_os fst snd" unfolding read_behaves_def by blast
  show "close_behaves pipe_os fst snd"
    unfolding close_behaves_def by (auto simp: pipe_os_def intro!: exI [of _ "[]"])
  show "poll_behaves pipe_os t fst snd"
    unfolding poll_behaves_def
  proof (intro allI)
    fix ps and k :: "(int \<Rightarrow> byte list) \<times> (int \<Rightarrow> byte list)"
    obtain i g where k: "k = (i, g)" by fastforce
    let ?n = "length (filter (\<lambda>p. pipe_revents i p \<noteq> 0) ps)"
    have "?n = 0 \<or> 0 < ?n \<and> (\<exists>j < length ps. pipe_revents i (ps ! j) \<noteq> 0)"
      by (auto simp: filter_empty_conv in_set_conv_nth)
    then show "\<exists>ret err rs k'. os_poll pipe_os ps t k = ((ret, err, rs), k') \<and> fst k' = fst k \<and> snd k' = snd k \<and>
       (ret = 0 \<or> ret = - 1 \<and> err = EINTR \<or> 0 < ret \<and> ret < 2 ^ 31 \<and> length rs = length ps \<and>
       (\<exists>i < length ps. rs ! i AND (events (ps ! i) OR POLLERR OR POLLHUP OR POLLNVAL) \<noteq> 0) \<and>
       (\<forall>i < length ps. events (ps ! i) = POLLIN \<and> rs ! i AND POLLHUP \<noteq> 0 \<and> rs ! i AND (POLLIN OR POLLERR OR POLLNVAL) = 0 \<longrightarrow>
          fst k (pfd_fd (ps ! i)) = []))"
      using pipe_revents_bits(2,3) [of i] by (fastforce simp: k pipe_poll)
  qed
qed

definition two_pipes :: "((int \<Rightarrow> byte list) \<times> (int \<Rightarrow> byte list), fd_closure) loop_world" where
  "two_pipes = \<lparr>kern = ((\<lambda>_. [])(3 := [1, 2, 3], 4 := [5]), \<lambda>_. []), errno = 0, cerr = [],
     fd_heap = [0 \<mapsto> demo_wrapper, 1 \<mapsto> demo_wrapper\<lparr>fdw_fd := 4, fdw_uses := 1\<rparr>], fd_next = 2,
     ev_rules = [demo_rule (Read_from 0 10), (demo_rule (Read_from 1 1))\<lparr>rule_fd := 1\<rparr>]\<rparr>"

text \<open>A poll of pipes for input always finds something, so nothing cuts the loop short.\<close>

lemma pipe_never_cut: "\<not> cut_short pipe_os t x k'"
proof -
  have "os_poll pipe_os ps t k \<noteq> ((0, err, rs), k1) \<and> os_poll pipe_os ps t k \<noteq> ((- 1, err, rs), k1) \<and>
      (os_poll pipe_os ps t k = ((ret, err, rs), k1) \<longrightarrow> (\<forall>r \<in> set rs. r AND (POLLERR OR POLLNVAL) = 0))"
    if ps: "for_input ps" for ps k k1 err rs ret
  proof (cases k)
    case (Pair i g)
    have "ps \<noteq> []" "filter (\<lambda>p. pipe_revents i p \<noteq> 0) ps = ps"
      using ps pipe_revents_bits(4) by (auto simp: for_input_def filter_id_conv)
    then show ?thesis using pipe_revents_bits(1) by (auto simp: Pair pipe_poll min_def split: if_splits)
  qed
  moreover have "\<not> read_failure pipe_os e k'" for e
    by (auto simp: read_failure_def pipe_read Let_def)
  ultimately show ?thesis by (auto simp: cut_short_def split: sum.splits ev_result.splits)
qed

theorem event_loop_drains_witness:
  "\<exists>s'. serve pipe_os (fd_closures pipe_os) (- 1) 7 two_pipes = Some (Inr Exit, s') \<and> ev_rules s' = [] \<and>
     snd (kern s') 3 = [1, 2, 3] \<and> snd (kern s') 4 = [5]"
proof -
  have "ev_inv two_pipes"
    by (auto simp: ev_inv_def ev_keep_def fd_wf_def two_pipes_def demo_wrapper_def wrapper_ok_def uses_of_def demo_rule_def)
  moreover have "\<forall>rule \<in> set (ev_rules two_pipes). reading rule \<and> \<not> at_end two_pipes rule"
    by (simp add: two_pipes_def reading_def at_end_def demo_rule_def demo_wrapper_def)
  moreover have "sum_list (map (rule_work fst two_pipes) (ev_rules two_pipes)) < 7"
    by (simp add: two_pipes_def rule_work_def demo_rule_def demo_wrapper_def)
  ultimately show ?thesis
    using event_loop_drains [OF pipe_os_stream, of two_pipes 7 "- 1"] pipe_never_cut
    by (auto simp: two_pipes_def demo_rule_def demo_wrapper_def)
qed

end
