(* ===== verification/Address.thy ===== *)
theory Address
  imports Sys_Util
begin

text \<open>
  \<open>libsponge/util/address.hh\<close> and \<open>address.cc\<close>: a socket address, its constructors (from raw
  bytes and through the resolver), its conversions and its comparison. A \<open>sockaddr_storage\<close> is
  its 128 bytes; the resolver functions of the C library are parameters.
\<close>

section \<open>State\<close>

definition STORAGE_SIZE :: nat where
  "STORAGE_SIZE = 128"

record address =
  addr_size :: uint32
  addr_storage :: "byte list"

record hints =
  ai_flags :: int
  ai_family :: int

text \<open>\<open>getaddrinfo\<close> hands back the first entry of its result, the memory at \<open>ai_addr\<close> with
  \<open>ai_addrlen\<close>, or no entry; \<open>getnameinfo\<close> the two strings it stored.\<close>

record 'k addr_os =
  os_getaddrinfo :: "string \<Rightarrow> string \<Rightarrow> hints \<Rightarrow> 'k \<Rightarrow> (int \<times> (byte list \<times> uint32) option) \<times> 'k"
  os_freeaddrinfo :: "byte list \<times> uint32 \<Rightarrow> 'k \<Rightarrow> 'k"
  os_getnameinfo :: "byte list \<Rightarrow> uint32 \<Rightarrow> nat \<Rightarrow> nat \<Rightarrow> int \<Rightarrow> 'k \<Rightarrow> (int \<times> string \<times> string) \<times> 'k"

definition AF_INET :: int where
  "AF_INET = 2"

definition AI_NUMERICHOST :: int where
  "AI_NUMERICHOST = 4"

definition AI_ALL :: int where
  "AI_ALL = 16"

definition AI_NUMERICSERV :: int where
  "AI_NUMERICSERV = 1024"

definition NI_NUMERICHOST :: int where
  "NI_NUMERICHOST = 1"

definition NI_NUMERICSERV :: int where
  "NI_NUMERICSERV = 2"

definition NI_MAXHOST :: nat where
  "NI_MAXHOST = 1025"

definition NI_MAXSERV :: nat where
  "NI_MAXSERV = 32"

section \<open>The standard library\<close>

text \<open>\<open>c_str()\<close> as a C function reads it.\<close>

definition c_string :: "string \<Rightarrow> string" where
  "c_string s = takeWhile (\<lambda>c. of_char c \<noteq> (0 :: nat)) s"

definition is_space :: "char \<Rightarrow> bool" where
  "is_space c \<longleftrightarrow> of_char c = (32 :: nat) \<or> of_char c \<in> {9 .. (13 :: nat)}"

definition is_digit :: "char \<Rightarrow> bool" where
  "is_digit c \<longleftrightarrow> of_char c \<in> {48 .. (57 :: nat)}"

definition decimal :: "string \<Rightarrow> nat" where
  "decimal ds = foldl (\<lambda>n c. 10 * n + (of_char c - 48)) 0 ds"

definition sign_split :: "string \<Rightarrow> bool \<times> string" where
  "sign_split s = (case s of
       [] \<Rightarrow> (False, [])
     | c # cs \<Rightarrow> if of_char c = (45 :: nat) then (True, cs) else if of_char c = (43 :: nat) then (False, cs) else (False, s))"

definition stoi :: "string \<Rightarrow> int result" where
  "stoi s =
     (let (neg, rest) = sign_split (dropWhile is_space (c_string s));
          ds = takeWhile is_digit rest;
          v = (if neg then - int (decimal ds) else int (decimal ds))
      in if ds = [] then Inl (Invalid_argument ''stoi'')
         else if v < - (2 ^ 31) \<or> v > INT_MAX then Inl (Out_of_range ''stoi'')
         else Inr v)"

section \<open>Address\<close>

text \<open>The constructor from a \<open>sockaddr *\<close>; \<open>mem\<close> is the memory that can be read there.\<close>

definition addr_of_sockaddr :: "byte list \<Rightarrow> size_t \<Rightarrow> address result" where
  "addr_of_sockaddr mem len =
     (if len > of_nat STORAGE_SIZE then Inl (Runtime_error ''invalid sockaddr size'')
      else if length mem < unat len then Inl (Undefined_behaviour ''memcpy past the end of the source'')
      else Inr \<lparr>addr_size = ucast len,
             addr_storage = take (unat len) mem @ replicate (STORAGE_SIZE - unat len) 0\<rparr>)"

definition gai_error :: "string \<Rightarrow> int \<Rightarrow> exn" where
  "gai_error attempt code = Tagged_error Gai_category attempt code"

definition addr_resolve :: "('k, 'y) addr_os_scheme \<Rightarrow> string \<Rightarrow> string \<Rightarrow> hints \<Rightarrow>
    (('k, 'z) sys_scheme, address) em" where
  "addr_resolve os node service h = (\<lambda>s.
     let ((gai_ret, resolved), k) = os_getaddrinfo os (c_string node) (c_string service) h (kern s);
         s = s\<lparr>kern := k\<rparr>
     in if gai_ret \<noteq> 0 then
          (Inl (gai_error (''getaddrinfo('' @ node @ '', '' @ service @ '')'') gai_ret), s)
        else case resolved of
          None \<Rightarrow> (Inl (Runtime_error ''getaddrinfo returned successfully but with no results''), s)
        | Some (mem, len) \<Rightarrow>
            (addr_of_sockaddr mem (ucast len), s\<lparr>kern := os_freeaddrinfo os (mem, len) (kern s)\<rparr>))"

definition make_hints :: "int \<Rightarrow> int \<Rightarrow> hints" where
  "make_hints flags family = \<lparr>ai_flags = flags, ai_family = family\<rparr>"

definition addr_of_host :: "('k, 'y) addr_os_scheme \<Rightarrow> string \<Rightarrow> string \<Rightarrow> (('k, 'z) sys_scheme, address) em" where
  "addr_of_host os hostname service = addr_resolve os hostname service (make_hints AI_ALL AF_INET)"

definition addr_of_ip :: "('k, 'y) addr_os_scheme \<Rightarrow> string \<Rightarrow> uint16 \<Rightarrow> (('k, 'z) sys_scheme, address) em" where
  "addr_of_ip os ip port = addr_resolve os ip (nat_to_string (unat port))
     (make_hints (AI_NUMERICHOST OR AI_NUMERICSERV) AF_INET)"

definition ip_port :: "('k, 'y) addr_os_scheme \<Rightarrow> address \<Rightarrow> (('k, 'z) sys_scheme, string \<times> uint16) em" where
  "ip_port os a = (\<lambda>s.
     let ((gni_ret, ip, port), k) = os_getnameinfo os (addr_storage a) (addr_size a) NI_MAXHOST NI_MAXSERV
           (NI_NUMERICHOST OR NI_NUMERICSERV) (kern s);
         s = s\<lparr>kern := k\<rparr>
     in if gni_ret \<noteq> 0 then (Inl (gai_error ''getnameinfo'' gni_ret), s)
        else case stoi (c_string port) of
          Inl e \<Rightarrow> (Inl e, s)
        | Inr n \<Rightarrow> (Inr (c_string ip, word_of_int n), s))"

definition addr_ip :: "('k, 'y) addr_os_scheme \<Rightarrow> address \<Rightarrow> (('k, 'z) sys_scheme, string) em" where
  "addr_ip os a = bindM (ip_port os a) (\<lambda>(ip, port). returnM ip)"

definition addr_port :: "('k, 'y) addr_os_scheme \<Rightarrow> address \<Rightarrow> (('k, 'z) sys_scheme, uint16) em" where
  "addr_port os a = bindM (ip_port os a) (\<lambda>(ip, port). returnM port)"

definition addr_to_string :: "('k, 'y) addr_os_scheme \<Rightarrow> address \<Rightarrow> (('k, 'z) sys_scheme, string) em" where
  "addr_to_string os a = bindM (ip_port os a) (\<lambda>(ip, port). returnM (ip @ '':'' @ nat_to_string (unat port)))"

text \<open>Loads from memory on a little-endian machine, and \<open>be32toh\<close> there.\<close>

fun load :: "byte list \<Rightarrow> 'a::len word" where
  "load [] = 0"
| "load (b # bs) = ucast b OR push_bit 8 (load bs)"

declare load.simps [simp del]

definition be32toh :: "uint32 \<Rightarrow> uint32" where
  "be32toh w = push_bit 24 (take_bit 8 w) OR push_bit 16 (take_bit 8 (drop_bit 8 w)) OR
     push_bit 8 (take_bit 8 (drop_bit 16 w)) OR take_bit 8 (drop_bit 24 w)"

definition ss_family :: "address \<Rightarrow> uint16" where
  "ss_family a = load (take 2 (addr_storage a))"

definition ipv4_numeric :: "address \<Rightarrow> uint32 result" where
  "ipv4_numeric a =
     (if uint (ss_family a) \<noteq> AF_INET \<or> addr_size a \<noteq> 16
      then Inl (Runtime_error ''ipv4_numeric called on non-IPV4 address'')
      else Inr (be32toh (load (take 4 (drop 4 (take (unat (addr_size a)) (addr_storage a)))))))"

text \<open>\<open>operator==\<close>; \<open>memcmp\<close> compares the first \<open>_size\<close> bytes.\<close>

definition addr_eq :: "address \<Rightarrow> address \<Rightarrow> bool" where
  "addr_eq a b =
     (if addr_size a \<noteq> addr_size b then False
      else take (unat (addr_size a)) (addr_storage a) = take (unat (addr_size a)) (addr_storage b))"

definition addr_ne :: "address \<Rightarrow> address \<Rightarrow> bool" where
  "addr_ne a b = (\<not> addr_eq a b)"

section \<open>Conventions of the resolver\<close>

text \<open>A dotted quad and a \<open>sockaddr_in\<close>: family, port and address in network byte order, padding.\<close>

definition dotted :: "byte list \<Rightarrow> string" where
  "dotted q = concat (map (\<lambda>b. nat_to_string (unat b) @ ''.'') (butlast q)) @ nat_to_string (unat (last q))"

definition sockaddr_in :: "byte list \<Rightarrow> uint16 \<Rightarrow> byte list" where
  "sockaddr_in q port = [2, 0, ucast (drop_bit 8 port), ucast port] @ q @ replicate 8 0"

text \<open>\<open>getaddrinfo(3)\<close> with numeric host and service, and \<open>getnameinfo(3)\<close> with numeric output, on
  IPv4: no lookup takes place, the strings and the bytes are converted into each other.\<close>

definition numeric_resolver :: "('k, 'y) addr_os_scheme \<Rightarrow> bool" where
  "numeric_resolver os \<longleftrightarrow>
     (\<forall>q port k. length q = 4 \<longrightarrow> (\<exists>k'. os_getaddrinfo os (dotted q) (nat_to_string (unat port))
        \<lparr>ai_flags = 1028, ai_family = 2\<rparr> k = ((0, Some (sockaddr_in q port, 16)), k'))) \<and>
     (\<forall>q port pad k. length q = 4 \<longrightarrow> (\<exists>k'. os_getnameinfo os (sockaddr_in q port @ pad) 16 1025 32 3 k =
        ((0, dotted q, nat_to_string (unat port)), k')))"

section \<open>Lemmas\<close>

lemma of_char_digit: "d < 10 \<Longrightarrow> of_char (digit_char d) = 48 + (d :: nat)"
  by (simp add: digit_char_def)

lemma digits_nat_to_string: "c \<in> set (nat_to_string n) \<Longrightarrow> is_digit c"
proof (induction n rule: nat_to_string.induct)
  case (1 n)
  then show ?case
    by (cases "n < 10") (auto simp: nat_to_string.simps [of n] is_digit_def of_char_digit)
qed

lemma nat_to_string_nonempty: "nat_to_string n \<noteq> []"
  by (simp add: nat_to_string.simps [of n])

lemma decimal_nat_to_string: "decimal (nat_to_string n) = n"
proof (induction n rule: nat_to_string.induct)
  case (1 n)
  then show ?case
    by (cases "n < 10") (simp_all add: nat_to_string.simps [of n] decimal_def of_char_digit)
qed

lemma c_string_id: "(\<And>c. c \<in> set s \<Longrightarrow> of_char c \<noteq> (0 :: nat)) \<Longrightarrow> c_string s = s"
  by (simp add: c_string_def takeWhile_eq_all_conv)

lemma c_string_digits: "c_string (nat_to_string n) = nat_to_string n"
  using digits_nat_to_string by (intro c_string_id) (fastforce simp: is_digit_def)

lemma c_string_dotted: "c_string (dotted q) = dotted q"
proof (rule c_string_id)
  fix c
  assume "c \<in> set (dotted q)"
  then have "is_digit c \<or> c = CHR ''.''"
    using digits_nat_to_string by (auto simp: dotted_def split: if_splits)
  then show "of_char c \<noteq> (0 :: nat)"
    by (auto simp: is_digit_def)
qed

lemma stoi_nat_to_string: "n < 2 ^ 31 \<Longrightarrow> stoi (nat_to_string n) = Inr (int n)"
proof -
  assume n: "n < 2 ^ 31"
  let ?s = "nat_to_string n"
  obtain c cs where s: "?s = c # cs"
    using nat_to_string_nonempty by (cases ?s) auto
  have c: "is_digit c" using digits_nat_to_string [of c n] s by simp
  then have space: "\<not> is_space c" by (auto simp: is_digit_def is_space_def)
  have sign: "sign_split ?s = (False, ?s)"
    using s c by (auto simp: sign_split_def is_digit_def)
  have "dropWhile is_space ?s = ?s"
    using space s by simp
  moreover have "takeWhile is_digit ?s = ?s"
    using digits_nat_to_string by (simp add: takeWhile_eq_all_conv)
  ultimately show ?thesis
    using sign n by (simp add: stoi_def Let_def takeWhile_eq_all_conv [THEN iffD2] c_string_digits decimal_nat_to_string INT_MAX_def nat_to_string_nonempty)
qed

lemma load_Cons: "load (b # bs) = ucast b + 256 * load bs"
proof -
  have "load (b # bs) = ucast b + push_bit 8 (load bs)"
    by (simp add: load.simps, rule sym, rule disjunctive_add) (auto simp: bit_simps dest: bit_imp_le_length)
  then show ?thesis by (simp add: push_bit_eq_mult mult.commute)
qed

lemma unat_load2: "unat (load [a, b] :: uint16) = unat a + 256 * unat b"
proof -
  have "load [a, b] = (of_nat (unat a + 256 * unat b) :: uint16)"
    unfolding load_Cons load.simps(1) by simp
  moreover have "unat a + 256 * unat b < 2 ^ 16"
    using byte_le [of a] byte_le [of b] by simp
  moreover have "unat (of_nat k :: uint16) = k" if "k < 2 ^ 16" for k
    using that by (simp add: unat_of_nat)
  ultimately show ?thesis by metis
qed

lemma bit_load4:
  "bit (load [a, b, c, d] :: uint32) n \<longleftrightarrow>
     (if n < 8 then bit a n else if n < 16 then bit b (n - 8) else if n < 24 then bit c (n - 16)
      else n < 32 \<and> bit d (n - 24))"
proof -
  have byte: "bit x m \<Longrightarrow> m < 8" for x :: byte and m
    using bit_imp_le_length by fastforce
  show ?thesis
    by (auto simp: load.simps bit_simps diff_diff_left not_less dest: byte)
qed

lemma bit_be32toh:
  "bit (be32toh w) n \<longleftrightarrow> (if n < 8 then bit w (24 + n) else if n < 16 then bit w (n + 8)
     else if n < 24 then bit w (n - 8) else n < 32 \<and> bit w (n - 24))"
proof -
  consider "n < 8" | "8 \<le> n" "n < 16" | "16 \<le> n" "n < 24" | "24 \<le> n" by linarith
  then show ?thesis
    by cases (auto simp: be32toh_def bit_simps add.commute)
qed

lemma be32toh_load: "be32toh (load [a, b, c, d]) = load [d, c, b, a]"
  by (rule bit_word_eqI) (auto simp: bit_be32toh bit_load4)

lemma addr_of_sockaddr_ok:
  assumes "addr_of_sockaddr mem n = Inr a"
  shows "unat n \<le> 128" "unat n \<le> length mem" "addr_size a = ucast n" "unat (addr_size a) = unat n"
    "take (unat n) (addr_storage a) = take (unat n) mem"
    "addr_storage a = take (unat n) mem @ replicate (128 - unat n) 0"
proof -
  have n: "\<not> n > 128" "\<not> length mem < unat n"
    and a: "a = \<lparr>addr_size = ucast n, addr_storage = take (unat n) mem @ replicate (128 - unat n) 0\<rparr>"
    using assms by (auto simp: addr_of_sockaddr_def STORAGE_SIZE_def split: if_splits)
  show le: "unat n \<le> 128" "unat n \<le> length mem"
    using n by (simp_all add: word_less_nat_alt)
  then have "unat n < 2 ^ 32" by simp
  then show "addr_size a = ucast n" "unat (addr_size a) = unat n"
    "take (unat n) (addr_storage a) = take (unat n) mem"
    "addr_storage a = take (unat n) mem @ replicate (128 - unat n) 0"
    using a le by (simp_all add: unsigned_ucast_eq take_bit_nat_eq_self)
qed

lemma eight_bytes: "8 \<le> length xs \<Longrightarrow> \<exists>a b c d e f g h ys. xs = a # b # c # d # e # f # g # h # ys"
  by (simp add: numeral_eq_Suc Suc_le_length_iff, elim exE conjE) simp

lemma ipv4_numeric_bytes:
  assumes "addr_size a = 16" and "take 16 (addr_storage a) = m0 # m1 # m2 # m3 # m4 # m5 # m6 # m7 # ms"
  shows "ipv4_numeric a = (if m0 = 2 \<and> m1 = 0
    then Inr (of_nat (2 ^ 24 * unat m4 + 2 ^ 16 * unat m5 + 2 ^ 8 * unat m6 + unat m7))
    else Inl (Runtime_error ''ipv4_numeric called on non-IPV4 address''))"
proof -
  have "take 2 (addr_storage a) = take 2 (take 16 (addr_storage a))" by (simp add: min_def)
  then have "take 2 (addr_storage a) = [m0, m1]"
    unfolding assms(2) by simp
  then have "unat (ss_family a) = unat m0 + 256 * unat m1"
    by (simp only: ss_family_def unat_load2)
  moreover have "uint (ss_family a) = int (unat (ss_family a))"
    by simp
  ultimately have "uint (ss_family a) = AF_INET \<longleftrightarrow> unat m0 + 256 * unat m1 = 2"
    unfolding AF_INET_def by presburger
  also have "\<dots> \<longleftrightarrow> unat m0 = 2 \<and> unat m1 = 0" by (cases "unat m1") auto
  finally have fam: "uint (ss_family a) = AF_INET \<longleftrightarrow> m0 = 2 \<and> m1 = 0"
    by (simp add: word_unat_eq_iff)
  have v: "be32toh (load [m4, m5, m6, m7]) = (of_nat (2 ^ 24 * unat m4 + 2 ^ 16 * unat m5 + 2 ^ 8 * unat m6 + unat m7) :: uint32)"
    unfolding be32toh_load
    by (simp only: load_Cons load.simps(1) of_nat_add of_nat_mult of_nat_unat of_nat_numeral of_nat_power) (simp add: algebra_simps)
  have "take (unat (addr_size a)) (addr_storage a) = m0 # m1 # m2 # m3 # m4 # m5 # m6 # m7 # ms"
    using assms by simp
  then have "take 4 (drop 4 (take (unat (addr_size a)) (addr_storage a))) = [m4, m5, m6, m7]"
    by simp
  then have "ipv4_numeric a = (if \<not> (m0 = 2 \<and> m1 = 0) \<or> (16 :: uint32) \<noteq> 16
      then Inl (Runtime_error ''ipv4_numeric called on non-IPV4 address'') else Inr (be32toh (load [m4, m5, m6, m7])))"
    unfolding ipv4_numeric_def fam assms(1) by simp
  then show ?thesis unfolding v by simp
qed

section \<open>Properties\<close>

text \<open>C28. Comparison of addresses: two addresses made from raw socket addresses compare equal exactly
  when the given bytes are the same, and then the whole objects are the same, because the rest
  of the storage is zero. So equality is an equivalence, and equal addresses cannot be told
  apart by any other operation.\<close>

theorem address_equality:
  assumes "addr_of_sockaddr mem1 n1 = Inr a" and "addr_of_sockaddr mem2 n2 = Inr b"
  shows "(addr_eq a b \<longleftrightarrow> n1 = n2 \<and> take (unat n1) mem1 = take (unat n2) mem2) \<and> (addr_eq a b \<longleftrightarrow> a = b) \<and>
    (addr_ne a b \<longleftrightarrow> a \<noteq> b)"
proof -
  note a = addr_of_sockaddr_ok [OF assms(1)] and b = addr_of_sockaddr_ok [OF assms(2)]
  have size: "addr_size a = addr_size b \<longleftrightarrow> n1 = n2"
    using a(3,4) b(3,4) by (metis word_unat_eq_iff)
  have "addr_eq a b \<longleftrightarrow> n1 = n2 \<and> take (unat n1) mem1 = take (unat n2) mem2"
    using size a(4,5) b(4,5) by (auto simp: addr_eq_def)
  moreover have "a = b" if "n1 = n2" "take (unat n1) mem1 = take (unat n2) mem2"
    using that size a(6) b(6) by (intro address.equality) auto
  ultimately show ?thesis by (auto simp: addr_eq_def addr_ne_def)
qed

theorem address_equality_witness:
  "\<exists>a b. addr_of_sockaddr [2, 0, 0, 80, 1, 1, 1, 1, 9] 8 = Inr a \<and> addr_of_sockaddr [2, 0, 0, 80, 1, 1, 1, 1, 7] 8 = Inr b \<and>
     addr_eq a b \<and> \<not> addr_ne a b \<and> a = b"
proof -
  obtain a b where a: "addr_of_sockaddr [2, 0, 0, 80, 1, 1, 1, 1, 9] 8 = Inr a"
    and b: "addr_of_sockaddr [2, 0, 0, 80, 1, 1, 1, 1, 7] 8 = Inr b"
    by (simp add: addr_of_sockaddr_def STORAGE_SIZE_def)
  show ?thesis
    using a b address_equality [OF a b] by auto
qed

text \<open>\<open>ipv4_numeric\<close> of an address made from a raw socket address succeeds exactly for a 16-byte
  address whose family bytes are those of \<open>AF_INET\<close>, and is then the big-endian number in the
  address field, the four bytes from offset 4; otherwise it throws.\<close>

lemma ipv4_numeric_correct:
  assumes "addr_of_sockaddr mem n = Inr a" and "8 \<le> length mem"
  shows "ipv4_numeric a =
    (if n = 16 \<and> mem ! 0 = 2 \<and> mem ! 1 = 0
     then Inr (of_nat (2 ^ 24 * unat (mem ! 4) + 2 ^ 16 * unat (mem ! 5) + 2 ^ 8 * unat (mem ! 6) + unat (mem ! 7)))
     else Inl (Runtime_error ''ipv4_numeric called on non-IPV4 address''))"
proof (cases "n = 16")
  case False
  have "addr_size a \<noteq> 16"
  proof
    assume "addr_size a = 16"
    then have "unat n = unat (16 :: size_t)"
      using addr_of_sockaddr_ok(4) [OF assms(1)] by simp
    then show False using False by (simp only: word_unat_eq_iff)
  qed
  with False show ?thesis by (simp add: ipv4_numeric_def)
next
  case True
  note a = addr_of_sockaddr_ok [OF assms(1)]
  obtain m0 m1 m2 m3 m4 m5 m6 m7 ms where mem: "mem = m0 # m1 # m2 # m3 # m4 # m5 # m6 # m7 # ms"
    using eight_bytes [OF assms(2)] by blast
  have n: "unat n = 16" "addr_size a = 16"
    using True a(3) by simp_all
  then have "take 16 (addr_storage a) = m0 # m1 # m2 # m3 # m4 # m5 # m6 # m7 # take 8 ms"
    using a(5) by (simp add: mem)
  note ipv4_numeric_bytes [OF n(2) this]
  moreover have "mem ! 0 = m0" "mem ! 1 = m1" "mem ! 4 = m4" "mem ! 5 = m5" "mem ! 6 = m6" "mem ! 7 = m7"
    by (simp_all add: mem)
  ultimately show ?thesis
    using True by simp
qed

lemma addr_of_sockaddr_in:
  "length q = 4 \<Longrightarrow> addr_of_sockaddr (sockaddr_in q port) 16 =
     Inr \<lparr>addr_size = 16, addr_storage = sockaddr_in q port @ replicate 112 0\<rparr>"
  by (simp add: addr_of_sockaddr_def sockaddr_in_def STORAGE_SIZE_def word_less_nat_alt)

lemma ip_port_numeric:
  assumes "numeric_resolver os" and "length q = 4"
  shows "\<exists>k. ip_port os \<lparr>addr_size = 16, addr_storage = sockaddr_in q port @ replicate 112 0\<rparr> s = (Inr (dotted q, port), s\<lparr>kern := k\<rparr>)"
proof -
  obtain k where "os_getnameinfo os (sockaddr_in q port @ replicate 112 0) 16 1025 32 3 (kern s) =
      ((0, dotted q, nat_to_string (unat port)), k)"
    using assms unfolding numeric_resolver_def by blast
  moreover have "unat port < 2 ^ 31"
    using unsigned_less [of port, where 'a = nat] by simp
  ultimately show ?thesis
    by (auto simp: ip_port_def NI_MAXHOST_def NI_MAXSERV_def NI_NUMERICHOST_def NI_NUMERICSERV_def c_string_digits
        c_string_dotted stoi_nat_to_string)
qed

lemma addr_of_ip_dotted:
  assumes "numeric_resolver os" and "length q = 4"
  shows "addr_of_ip os (dotted q) port s = (Inr \<lparr>addr_size = 16, addr_storage = sockaddr_in q port @ replicate 112 0\<rparr>,
    s\<lparr>kern := os_freeaddrinfo os (sockaddr_in q port, 16)
      (snd (os_getaddrinfo os (dotted q) (nat_to_string (unat port)) \<lparr>ai_flags = 1028, ai_family = 2\<rparr> (kern s)))\<rparr>)"
proof -
  obtain k where k: "os_getaddrinfo os (dotted q) (nat_to_string (unat port)) \<lparr>ai_flags = 1028, ai_family = 2\<rparr> (kern s) =
      ((0, Some (sockaddr_in q port, 16)), k)"
    using assms unfolding numeric_resolver_def by blast
  have h: "make_hints (AI_NUMERICHOST OR AI_NUMERICSERV) AF_INET = \<lparr>ai_flags = 1028, ai_family = 2\<rparr>"
    by (simp add: make_hints_def AI_NUMERICHOST_def AI_NUMERICSERV_def AF_INET_def)
  show ?thesis
    unfolding addr_of_ip_def addr_resolve_def h c_string_digits c_string_dotted k by (simp add: addr_of_sockaddr_in [OF assms(2)])
qed

lemma dotted_roundtrip:
  assumes "numeric_resolver os" and "length q = 4"
  shows "\<exists>a k s2 s3. addr_of_ip os (dotted q) port s = (Inr a, s\<lparr>kern := k\<rparr>) \<and> ip_port os a (s\<lparr>kern := k\<rparr>) = (Inr (dotted q, port), s2) \<and>
    addr_to_string os a (s\<lparr>kern := k\<rparr>) = (Inr (dotted q @ '':'' @ nat_to_string (unat port)), s3) \<and>
    ipv4_numeric a = Inr (of_nat (2 ^ 24 * unat (q ! 0) + 2 ^ 16 * unat (q ! 1) + 2 ^ 8 * unat (q ! 2) + unat (q ! 3)))"
proof -
  let ?sa = "sockaddr_in q port"
  let ?a = "\<lparr>addr_size = 16, addr_storage = ?sa @ replicate 112 0\<rparr>"
  obtain k where mk: "addr_of_ip os (dotted q) port s = (Inr ?a, s\<lparr>kern := k\<rparr>)"
    using addr_of_ip_dotted [OF assms] by blast
  let ?s1 = "s\<lparr>kern := k\<rparr>"
  obtain k2 where ip: "ip_port os ?a ?s1 = (Inr (dotted q, port), ?s1\<lparr>kern := k2\<rparr>)"
    using ip_port_numeric [OF assms] by blast
  have "ipv4_numeric ?a = Inr (of_nat (2 ^ 24 * unat (q ! 0) + 2 ^ 16 * unat (q ! 1) + 2 ^ 8 * unat (q ! 2) + unat (q ! 3)))"
  proof -
    obtain q0 q1 q2 q3 where q: "q = [q0, q1, q2, q3]"
      using assms(2) by (auto simp: numeral_eq_Suc length_Suc_conv)
    have "take 16 (addr_storage ?a) = 2 # 0 # ucast (drop_bit 8 port) # ucast port # q0 # q1 # q2 # q3 # replicate 8 0"
      by (simp add: sockaddr_in_def q)
    moreover have "q ! 0 = q0" "q ! 1 = q1" "q ! 2 = q2" "q ! 3 = q3" by (simp_all add: q)
    ultimately show ?thesis
      using ipv4_numeric_bytes [of ?a] by simp
  qed
  with mk ip show ?thesis
    by (auto simp: addr_to_string_def em_simps)
qed

text \<open>C27. An address made from a dotted quad and a port reads back: with a resolver that converts
  numeric strings, \<open>Address(ip, port)\<close> succeeds, \<open>ip_port()\<close> returns the same string and the
  same port, \<open>to_string()\<close> is the string, a colon and the port in decimal, and
  \<open>ipv4_numeric()\<close> is the quad as a number.\<close>

theorem address_roundtrip:
  assumes "numeric_resolver os" and "length q = 4"
  shows "\<exists>a s1 s2 s3. addr_of_ip os (dotted q) port s = (Inr a, s1) \<and> ip_port os a s1 = (Inr (dotted q, port), s2) \<and>
    addr_to_string os a s1 = (Inr (dotted q @ '':'' @ nat_to_string (unat port)), s3) \<and>
    ipv4_numeric a = Inr (of_nat (2 ^ 24 * unat (q ! 0) + 2 ^ 16 * unat (q ! 1) + 2 ^ 8 * unat (q ! 2) + unat (q ! 3)))"
  using dotted_roundtrip [OF assms] by blast

text \<open>A resolver that converts numeric strings.\<close>

function split_dot :: "string \<Rightarrow> string list" where
  "split_dot s = (case dropWhile (\<lambda>c. c \<noteq> CHR ''.'') s of
       [] \<Rightarrow> [takeWhile (\<lambda>c. c \<noteq> CHR ''.'') s]
     | c # rest \<Rightarrow> takeWhile (\<lambda>c. c \<noteq> CHR ''.'') s # split_dot rest)"
  by pat_completeness auto
termination
proof (relation "measure length", goal_cases)
  case 1
  show ?case by simp
next
  case (2 s c rest)
  then have "length (c # rest) \<le> length s"
    by (metis length_dropWhile_le)
  then show ?case by simp
qed

declare split_dot.simps [simp del]

definition numeric_os :: "'k addr_os" where
  "numeric_os = \<lparr>
     os_getaddrinfo = (\<lambda>node service h k.
       ((0, Some (sockaddr_in (map (\<lambda>d. of_nat (decimal d)) (split_dot node)) (of_nat (decimal service)), 16)), k)),
     os_freeaddrinfo = (\<lambda>_ k. k),
     os_getnameinfo = (\<lambda>st sz m n flags k.
       ((0, dotted (take 4 (drop 4 st)), nat_to_string (256 * unat (st ! 2) + unat (st ! 3))), k))\<rparr>"

lemma split_dot_digits:
  "split_dot (nat_to_string n @ CHR ''.'' # s) = nat_to_string n # split_dot s"
  "split_dot (nat_to_string n) = [nat_to_string n]"
proof -
  have d: "\<forall>c \<in> set (nat_to_string n). c \<noteq> CHR ''.''"
    using digits_nat_to_string by (fastforce simp: is_digit_def)
  then show "split_dot (nat_to_string n @ CHR ''.'' # s) = nat_to_string n # split_dot s"
    by (simp add: split_dot.simps [of "nat_to_string n @ CHR ''.'' # s"] takeWhile_append2 dropWhile_append2)
  have e: "dropWhile (\<lambda>c. c \<noteq> CHR ''.'') (nat_to_string n) = []"
      "takeWhile (\<lambda>c. c \<noteq> CHR ''.'') (nat_to_string n) = nat_to_string n"
    using d by (auto simp only: dropWhile_eq_Nil_conv takeWhile_eq_all_conv)
  show "split_dot (nat_to_string n) = [nat_to_string n]"
    unfolding split_dot.simps [of "nat_to_string n"] e by simp
qed

lemma port_bytes: "256 * unat (ucast (drop_bit 8 port) :: byte) + unat (ucast port :: byte) = unat (port :: uint16)"
proof -
  have "unat port < 2 ^ 16"
    using unsigned_less [of port, where 'a = nat] by simp
  then have "unat port div 256 < 256" by simp
  then show ?thesis
    by (simp add: unsigned_ucast_eq unsigned_drop_bit_eq drop_bit_eq_div take_bit_eq_mod unat_div_distrib)
qed

lemma numeric_os_resolves: "numeric_resolver numeric_os"
proof -
  have q: "map (\<lambda>d. of_nat (decimal d)) (split_dot (dotted q)) = q" if l: "length q = 4" for q :: "byte list"
  proof -
    obtain a b c d where "q = [a, b, c, d]"
      using l by (auto simp: numeral_eq_Suc length_Suc_conv)
    then show ?thesis
      by (simp add: dotted_def split_dot_digits decimal_nat_to_string)
  qed
  show ?thesis
    unfolding numeric_resolver_def numeric_os_def
    using q port_bytes by (simp add: decimal_nat_to_string sockaddr_in_def)
qed

theorem address_roundtrip_witness:
  "numeric_resolver numeric_os \<and>
   (\<exists>a s1 s2. addr_of_ip numeric_os (dotted [18, 243, 0, 1]) 443 \<lparr>kern = (), errno = 0, cerr = []\<rparr> = (Inr a, s1) \<and>
      ip_port numeric_os a s1 = (Inr (dotted [18, 243, 0, 1], 443), s2) \<and> ipv4_numeric a = Inr 317915137)"
proof -
  have "length [18, 243, 0, 1 :: byte] = 4" by simp
  from address_roundtrip [OF numeric_os_resolves this, of 443 "\<lparr>kern = (), errno = 0, cerr = []\<rparr>"] show ?thesis
    using numeric_os_resolves by auto
qed

end
