(* ===== verification/Socket.thy ===== *)
theory Socket
  imports File_Descriptor Address
begin

text \<open>
  \<open>libsponge/util/socket.hh\<close> and \<open>socket.cc\<close>: sockets as file descriptors with an address, the
  datagram operations of \<open>UDPSocket\<close> and the listening side of \<open>TCPSocket\<close>. A socket is the
  handle of its \<open>FileDescriptor\<close> base; the socket calls of the kernel are parameters.
\<close>

section \<open>State\<close>

text \<open>Calls that fill in an address hand back the bytes stored and the length reported;
  \<open>recvfrom\<close> the payload bytes too.\<close>

record 'k sock_os = "'k fd_os" +
  os_socket :: "int \<Rightarrow> int \<Rightarrow> int \<Rightarrow> ('k, unit) syscall"
  os_getsockopt :: "int \<Rightarrow> int \<Rightarrow> int \<Rightarrow> uint32 \<Rightarrow> ('k, int \<times> uint32) syscall"
  os_setsockopt :: "int \<Rightarrow> int \<Rightarrow> int \<Rightarrow> byte list \<Rightarrow> ('k, unit) syscall"
  os_getsockname :: "int \<Rightarrow> uint32 \<Rightarrow> ('k, byte list \<times> uint32) syscall"
  os_getpeername :: "int \<Rightarrow> uint32 \<Rightarrow> ('k, byte list \<times> uint32) syscall"
  os_bind :: "int \<Rightarrow> byte list \<Rightarrow> uint32 \<Rightarrow> ('k, unit) syscall"
  os_connect :: "int \<Rightarrow> byte list \<Rightarrow> uint32 \<Rightarrow> ('k, unit) syscall"
  os_shutdown :: "int \<Rightarrow> int \<Rightarrow> ('k, unit) syscall"
  os_recvfrom :: "int \<Rightarrow> nat \<Rightarrow> int \<Rightarrow> uint32 \<Rightarrow> ('k, byte list \<times> byte list \<times> uint32) syscall"
  os_sendmsg :: "int \<Rightarrow> (byte list \<times> uint32) option \<Rightarrow> iovec list \<Rightarrow> int \<Rightarrow> ('k, unit) syscall"
  os_listen :: "int \<Rightarrow> int \<Rightarrow> ('k, unit) syscall"
  os_accept :: "int \<Rightarrow> ('k, unit) syscall"

record received_datagram =
  source_address :: address
  payload :: "byte list"

definition AF_UNIX :: int where
  "AF_UNIX = 1"

definition SOCK_STREAM :: int where
  "SOCK_STREAM = 1"

definition SOCK_DGRAM :: int where
  "SOCK_DGRAM = 2"

definition SOL_SOCKET :: int where
  "SOL_SOCKET = 1"

definition SO_REUSEADDR :: int where
  "SO_REUSEADDR = 2"

definition SO_TYPE :: int where
  "SO_TYPE = 3"

definition SO_DOMAIN :: int where
  "SO_DOMAIN = 39"

definition MSG_TRUNC :: int where
  "MSG_TRUNC = 32"

section \<open>Socket\<close>

definition sock_make :: "('k, 'y) sock_os_scheme \<Rightarrow> int \<Rightarrow> int \<Rightarrow> (('k, 'z) world_scheme, nat) em" where
  "sock_make os domain type = bindM (sys_call ''socket'' (os_socket os domain type 0)) (\<lambda>(fd, _). fd_make fd)"

definition verify_sockopt :: "('k, 'y) sock_os_scheme \<Rightarrow> nat \<Rightarrow> int \<Rightarrow> int \<Rightarrow> string \<Rightarrow>
    (('k, 'z) world_scheme, unit) em" where
  "verify_sockopt os r option expected what =
     bindM (fd_num r) (\<lambda>fd.
     bindM (sys_call ''getsockopt'' (os_getsockopt os fd SOL_SOCKET option 4)) (\<lambda>(_, actual_value, len).
     if len \<noteq> 4 \<or> actual_value \<noteq> expected then throwM (Runtime_error what) else returnM ()))"

definition sock_of_fd :: "('k, 'y) sock_os_scheme \<Rightarrow> nat \<Rightarrow> int \<Rightarrow> int \<Rightarrow> (('k, 'z) world_scheme, nat) em" where
  "sock_of_fd os r domain type = releasing os r
     (seqM (verify_sockopt os r SO_DOMAIN domain ''socket domain mismatch'')
     (seqM (verify_sockopt os r SO_TYPE type ''socket type mismatch'')
     (returnM r)))"

definition get_address :: "nat \<Rightarrow> string \<Rightarrow> (int \<Rightarrow> uint32 \<Rightarrow> ('k, byte list \<times> uint32) syscall) \<Rightarrow>
    (('k, 'z) world_scheme, address) em" where
  "get_address r name_of_function f =
     bindM (fd_num r) (\<lambda>fd.
     bindM (sys_call name_of_function (f fd (of_nat STORAGE_SIZE))) (\<lambda>(_, bytes, len).
     liftR (addr_of_sockaddr (overlay bytes (replicate STORAGE_SIZE 0)) (ucast len))))"

definition local_address :: "('k, 'y) sock_os_scheme \<Rightarrow> nat \<Rightarrow> (('k, 'z) world_scheme, address) em" where
  "local_address os r = get_address r ''getsockname'' (os_getsockname os)"

definition peer_address :: "('k, 'y) sock_os_scheme \<Rightarrow> nat \<Rightarrow> (('k, 'z) world_scheme, address) em" where
  "peer_address os r = get_address r ''getpeername'' (os_getpeername os)"

definition sock_bind :: "('k, 'y) sock_os_scheme \<Rightarrow> nat \<Rightarrow> address \<Rightarrow> (('k, 'z) world_scheme, unit) em" where
  "sock_bind os r a = bindM (fd_num r) (\<lambda>fd.
     bindM (sys_call ''bind'' (os_bind os fd (addr_storage a) (addr_size a))) (\<lambda>_. returnM ()))"

definition sock_connect :: "('k, 'y) sock_os_scheme \<Rightarrow> nat \<Rightarrow> address \<Rightarrow> (('k, 'z) world_scheme, unit) em" where
  "sock_connect os r a = bindM (fd_num r) (\<lambda>fd.
     bindM (sys_call ''connect'' (os_connect os fd (addr_storage a) (addr_size a))) (\<lambda>_. returnM ()))"

text \<open>\<open>how\<close> is \<open>SHUT_RD\<close> (0), \<open>SHUT_WR\<close> (1) or \<open>SHUT_RDWR\<close> (2).\<close>

definition sock_shutdown :: "('k, 'y) sock_os_scheme \<Rightarrow> nat \<Rightarrow> int \<Rightarrow> (('k, 'z) world_scheme, unit) em" where
  "sock_shutdown os r how = bindM (fd_num r) (\<lambda>fd.
     bindM (sys_call ''shutdown'' (os_shutdown os fd how)) (\<lambda>_.
     if how = 0 then register_read r
     else if how = 1 then register_write r
     else if how = 2 then seqM (register_read r) (register_write r)
     else throwM (Runtime_error ''Socket::shutdown() called with invalid `how`'')))"

definition sock_setsockopt :: "('k, 'y) sock_os_scheme \<Rightarrow> nat \<Rightarrow> int \<Rightarrow> int \<Rightarrow> byte list \<Rightarrow>
    (('k, 'z) world_scheme, unit) em" where
  "sock_setsockopt os r level option option_value = bindM (fd_num r) (\<lambda>fd.
     bindM (sys_call ''setsockopt'' (os_setsockopt os fd level option option_value)) (\<lambda>_. returnM ()))"

definition set_reuseaddr :: "('k, 'y) sock_os_scheme \<Rightarrow> nat \<Rightarrow> (('k, 'z) world_scheme, unit) em" where
  "set_reuseaddr os r = sock_setsockopt os r SOL_SOCKET SO_REUSEADDR [1, 0, 0, 0]"

section \<open>UDPSocket, TCPSocket, LocalStreamSocket\<close>

definition udp_make :: "('k, 'y) sock_os_scheme \<Rightarrow> (('k, 'z) world_scheme, nat) em" where
  "udp_make os = sock_make os AF_INET SOCK_DGRAM"

definition udp_of_fd :: "('k, 'y) sock_os_scheme \<Rightarrow> nat \<Rightarrow> (('k, 'z) world_scheme, nat) em" where
  "udp_of_fd os r = sock_of_fd os r AF_INET SOCK_DGRAM"

definition tcp_make :: "('k, 'y) sock_os_scheme \<Rightarrow> (('k, 'z) world_scheme, nat) em" where
  "tcp_make os = sock_make os AF_INET SOCK_STREAM"

definition tcp_of_fd :: "('k, 'y) sock_os_scheme \<Rightarrow> nat \<Rightarrow> (('k, 'z) world_scheme, nat) em" where
  "tcp_of_fd os r = sock_of_fd os r AF_INET SOCK_STREAM"

definition local_stream_of_fd :: "('k, 'y) sock_os_scheme \<Rightarrow> nat \<Rightarrow> (('k, 'z) world_scheme, nat) em" where
  "local_stream_of_fd os r = sock_of_fd os r AF_UNIX SOCK_STREAM"

text \<open>\<open>recv\<close> into a caller's datagram, which keeps what was stored in it also when \<open>recv\<close> throws:
  the state is the world with the datagram.\<close>

definition on_world :: "('s, 'a) em \<Rightarrow> ('s \<times> 'd, 'a) em" where
  "on_world m = (\<lambda>(s, d). case m s of (x, s') \<Rightarrow> (x, (s', d)))"

definition set_payload :: "(byte list \<Rightarrow> byte list) \<Rightarrow> ('s \<times> received_datagram, unit) em" where
  "set_payload f = modifyM (\<lambda>(s, d). (s, d\<lparr>payload := f (payload d)\<rparr>))"

definition udp_recv_into :: "('k, 'y) sock_os_scheme \<Rightarrow> nat \<Rightarrow> size_t \<Rightarrow>
    (('k, 'z) world_scheme \<times> received_datagram, unit) em" where
  "udp_recv_into os r mtu =
     seqM (set_payload (\<lambda>p. resize p (unat mtu)))
     (bindM (on_world (fd_num r)) (\<lambda>fd.
     bindM (on_world (sys_call ''recvfrom'' (os_recvfrom os fd (unat mtu) MSG_TRUNC (of_nat STORAGE_SIZE))))
       (\<lambda>(recv_len, data, from, fromlen).
     seqM (set_payload (overlay data))
     (if recv_len > sint mtu then throwM (Runtime_error ''recvfrom (oversized datagram)'')
      else seqM (on_world (register_read r))
       (bindM (liftR (addr_of_sockaddr (overlay from (replicate STORAGE_SIZE 0)) (ucast fromlen))) (\<lambda>a.
        seqM (modifyM (\<lambda>(s, d). (s, d\<lparr>source_address := a\<rparr>)))
         (if recv_len < 0 then throwM (Length_error ''basic_string::_M_replace_aux'')
          else set_payload (\<lambda>p. resize p (nat recv_len)))))))))"

definition udp_recv :: "('k, 'y) sock_os_scheme \<Rightarrow> nat \<Rightarrow> size_t \<Rightarrow> (('k, 'z) world_scheme, received_datagram) em" where
  "udp_recv os r mtu = bindM (liftR (addr_of_sockaddr [] 0)) (\<lambda>a s.
     case udp_recv_into os r mtu (s, \<lparr>source_address = a, payload = []\<rparr>) of
       (Inl e, (s', ret)) \<Rightarrow> (Inl e, s')
     | (Inr _, (s', ret)) \<Rightarrow> (Inr ret, s'))"

definition sendmsg_helper :: "('k, 'y) sock_os_scheme \<Rightarrow> int \<Rightarrow> (byte list \<times> uint32) option \<Rightarrow> buffer_view_list \<Rightarrow>
    (('k, 'z) world_scheme, unit) em" where
  "sendmsg_helper os fd destination data =
     bindM (sys_call ''sendmsg'' (os_sendmsg os fd destination (bvl_as_iovecs data) 0)) (\<lambda>(bytes_sent, _).
     if size_of_int bytes_sent \<noteq> bvl_size data
     then throwM (Runtime_error ''datagram payload too big for sendmsg()'') else returnM ())"

definition udp_sendto :: "('k, 'y) sock_os_scheme \<Rightarrow> nat \<Rightarrow> address \<Rightarrow> buffer_view_list \<Rightarrow>
    (('k, 'z) world_scheme, unit) em" where
  "udp_sendto os r destination data = bindM (fd_num r) (\<lambda>fd.
     seqM (sendmsg_helper os fd (Some (addr_storage destination, addr_size destination)) data) (register_write r))"

definition udp_send :: "('k, 'y) sock_os_scheme \<Rightarrow> nat \<Rightarrow> buffer_view_list \<Rightarrow> (('k, 'z) world_scheme, unit) em" where
  "udp_send os r data = bindM (fd_num r) (\<lambda>fd. seqM (sendmsg_helper os fd None data) (register_write r))"

definition tcp_listen :: "('k, 'y) sock_os_scheme \<Rightarrow> nat \<Rightarrow> int \<Rightarrow> (('k, 'z) world_scheme, unit) em" where
  "tcp_listen os r backlog = bindM (fd_num r) (\<lambda>fd.
     bindM (sys_call ''listen'' (os_listen os fd backlog)) (\<lambda>_. returnM ()))"

definition tcp_accept :: "('k, 'y) sock_os_scheme \<Rightarrow> nat \<Rightarrow> (('k, 'z) world_scheme, nat) em" where
  "tcp_accept os r = seqM (register_read r)
     (bindM (fd_num r) (\<lambda>fd.
     bindM (sys_call ''accept'' (os_accept os fd)) (\<lambda>(n, _).
     bindM (fd_make n) (tcp_of_fd os))))"

section \<open>Programs\<close>

text \<open>The calls a program makes on descriptors and sockets.\<close>

datatype sock_op =
    Fd fd_op
  | Make_socket int int
  | Of_fd nat int int
  | Bind nat address
  | Connect nat address
  | Shutdown nat int
  | Reuseaddr nat
  | Local_address nat
  | Peer_address nat
  | Recv nat size_t
  | Sendto nat address buffer_view_list
  | Send nat buffer_view_list
  | Listen nat int
  | Accept nat

fun sock_exec :: "('k, 'y) sock_os_scheme \<Rightarrow> sock_op \<Rightarrow> (('k, 'z) world_scheme, unit) em" where
  "sock_exec os (Fd op) = fd_exec os op"
| "sock_exec os (Make_socket domain type) = bindM (sock_make os domain type) (\<lambda>_. returnM ())"
| "sock_exec os (Of_fd r domain type) = bindM (sock_of_fd os r domain type) (\<lambda>_. returnM ())"
| "sock_exec os (Bind r a) = sock_bind os r a"
| "sock_exec os (Connect r a) = sock_connect os r a"
| "sock_exec os (Shutdown r how) = sock_shutdown os r how"
| "sock_exec os (Reuseaddr r) = set_reuseaddr os r"
| "sock_exec os (Local_address r) = bindM (local_address os r) (\<lambda>_. returnM ())"
| "sock_exec os (Peer_address r) = bindM (peer_address os r) (\<lambda>_. returnM ())"
| "sock_exec os (Recv r mtu) = bindM (udp_recv os r mtu) (\<lambda>_. returnM ())"
| "sock_exec os (Sendto r a data) = udp_sendto os r a data"
| "sock_exec os (Send r data) = udp_send os r data"
| "sock_exec os (Listen r backlog) = tcp_listen os r backlog"
| "sock_exec os (Accept r) = bindM (tcp_accept os r) (\<lambda>_. returnM ())"

section \<open>Invariant\<close>

lemma keeps_sock_of_fd: "keeps fd_wf (sock_of_fd os r domain type)"
  unfolding sock_of_fd_def verify_sockopt_def by (intro keeps_releasing keeps_intro)

lemma keeps_sock_make: "keeps fd_wf (sock_make os domain type)"
  unfolding sock_make_def by (intro keeps_intro keeps_fd_make)

lemma keeps_get_address: "keeps fd_wf (get_address r name f)"
  unfolding get_address_def by (intro keeps_intro)

lemma keeps_on_world: "keeps P m \<Longrightarrow> keeps (\<lambda>(s, d). P s) (on_world m)"
  by (auto simp: keeps_def on_world_def split: prod.splits)

lemma keeps_set_payload: "keeps (\<lambda>(s, d). P s) (set_payload f)"
  by (simp add: keeps_def set_payload_def modifyM_def split: prod.splits)

lemma keeps_udp_recv_gen:
  assumes "\<And>r. keeps P (fd_num r)" and "\<And>r. keeps P (register_read r)"
    and "\<And>c :: ('k, byte list \<times> byte list \<times> uint32) syscall. keeps P (sys_call ''recvfrom'' c)"
  shows "keeps P (udp_recv os r mtu :: (('k, 'z) world_scheme, received_datagram) em)"
proof -
  have "keeps (\<lambda>(s, d). P s) (udp_recv_into os r mtu :: (('k, 'z) world_scheme \<times> received_datagram, unit) em)"
    unfolding udp_recv_into_def
    by (intro keeps_intro keeps_on_world keeps_set_payload keeps_modifyM assms) auto
  then have "P (fst (snd (udp_recv_into os r mtu (s, d))))" if "P s" for s :: "('k, 'z) world_scheme" and d
    using that by (simp add: keeps_def split_beta)
  then show ?thesis
    by (auto simp: keeps_def udp_recv_def bindM_apply liftR_apply split: sum.splits prod.splits) (metis fst_conv snd_conv)+
qed

lemma keeps_udp_recv: "keeps fd_wf (udp_recv os r mtu :: (('k, 'z) world_scheme, received_datagram) em)"
  by (intro keeps_udp_recv_gen keeps_intro)

lemma keeps_sendmsg_helper: "keeps fd_wf (sendmsg_helper os fd destination data)"
  unfolding sendmsg_helper_def by (intro keeps_intro)

lemma keeps_tcp_accept: "keeps fd_wf (tcp_accept os r)"
  unfolding tcp_accept_def tcp_of_fd_def by (intro keeps_intro keeps_fd_make keeps_sock_of_fd)

interpretation socks: op_system "sock_exec os" fd_wf for os
proof unfold_locales
  fix x
  show "keeps fd_wf (sock_exec os x)"
    by (cases x) (auto simp: sock_bind_def sock_connect_def sock_shutdown_def set_reuseaddr_def sock_setsockopt_def
        local_address_def peer_address_def udp_sendto_def udp_send_def tcp_listen_def
        intro!: keeps_intro fds.exec_keeps keeps_sock_of_fd keeps_sock_make keeps_get_address keeps_udp_recv
          keeps_sendmsg_helper keeps_tcp_accept)
qed

section \<open>Conventions of the kernel\<close>

text \<open>\<open>recvfrom(2)\<close> with \<open>MSG_TRUNC\<close>: an error code, or the real length of the datagram, of which as
  much as fits is stored, and the sender's address.\<close>

definition recvfrom_contract :: "('k, 'y) sock_os_scheme \<Rightarrow> bool" where
  "recvfrom_contract os \<longleftrightarrow> (\<forall>fd n len k ret err data from fromlen k'.
     os_recvfrom os fd n MSG_TRUNC len k = ((ret, err, data, from, fromlen), k') \<longrightarrow>
       - (2 ^ 31) \<le> ret \<and> ret < 2 ^ 31 \<and> (ret < 0 \<longrightarrow> err \<noteq> 0) \<and>
       (0 \<le> ret \<longrightarrow> length data = min n (nat ret) \<and> length from \<le> unat len \<and> fromlen = of_nat (length from)))"

text \<open>\<open>sendmsg(2)\<close> on a datagram socket: an error code and nothing sent, or one datagram with the
  gathered bytes, as many as the returned number.\<close>

definition sendmsg_contract :: "('k, 'y) sock_os_scheme \<Rightarrow>
    ('k \<Rightarrow> (int \<times> (byte list \<times> uint32) option \<times> byte list) list) \<Rightarrow> bool" where
  "sendmsg_contract os sent \<longleftrightarrow> (\<forall>fd name iov fl k ret err k'. os_sendmsg os fd name iov fl k = ((ret, err, ()), k') \<longrightarrow>
     - (2 ^ 31) \<le> ret \<and> ret < 2 ^ 31 \<and> ret \<le> int (length (iovecs_bytes iov)) \<and>
     (if ret < 0 then err \<noteq> 0 \<and> sent k' = sent k
      else sent k' = sent k @ [(fd, name, take (nat ret) (iovecs_bytes iov))]))"

section \<open>A concrete kernel\<close>

text \<open>A kernel that logs the datagrams sent, of which it takes at most four bytes, accepts descriptor
  5, and always has the same datagram waiting.\<close>

definition demo_sock_os :: "(int \<times> (byte list \<times> uint32) option \<times> byte list) list sock_os" where
  "demo_sock_os = \<lparr>os_close = (\<lambda>fd k. ((0, 0, ()), k)), os_read = (\<lambda>fd n k. ((0, 0, []), k)),
     os_writev = (\<lambda>fd iov k. ((- 1, 22, ()), k)), os_getfl = (\<lambda>fd k. ((2, 0, ()), k)), os_setfl = (\<lambda>fd fl k. ((0, 0, ()), k)),
     os_message = (\<lambda>_ _. ''error''), os_socket = (\<lambda>d t p k. ((4, 0, ()), k)),
     os_getsockopt = (\<lambda>fd l opt n k. ((0, 0, if opt = SO_DOMAIN then 2 else 1, 4), k)),
     os_setsockopt = (\<lambda>fd l opt v k. ((0, 0, ()), k)),
     os_getsockname = (\<lambda>fd n k. ((0, 0, [2, 0, 0, 80], 4), k)), os_getpeername = (\<lambda>fd n k. ((- 1, 107, [], 0), k)),
     os_bind = (\<lambda>fd a n k. ((0, 0, ()), k)), os_connect = (\<lambda>fd a n k. ((0, 0, ()), k)),
     os_shutdown = (\<lambda>fd h k. ((0, 0, ()), k)),
     os_recvfrom = (\<lambda>fd n fl len k. ((3, 0, take n [7, 8, 9], [], 0), k)),
     os_sendmsg = (\<lambda>fd name iov fl k. let d = take 4 (iovecs_bytes iov) in ((int (length d), 0, ()), k @ [(fd, name, d)])),
     os_listen = (\<lambda>fd n k. ((0, 0, ()), k)), os_accept = (\<lambda>fd k. ((5, 0, ()), k))\<rparr>"

definition demo_socket :: fd_wrapper where
  "demo_socket = \<lparr>fdw_fd = 3, fdw_eof = False, fdw_closed = False, fdw_read_count = 0, fdw_write_count = 0, fdw_uses = 1\<rparr>"

definition demo_sock_world :: "(int \<times> (byte list \<times> uint32) option \<times> byte list) list world" where
  "demo_sock_world = \<lparr>kern = [], errno = 0, cerr = [], fd_heap = [0 \<mapsto> demo_socket], fd_next = 1\<rparr>"

lemma demo_sock_world_facts:
  "fd_heap demo_sock_world 0 = Some demo_socket" "kern demo_sock_world = []" "fd_wf demo_sock_world"
  by (simp_all add: demo_sock_world_def demo_socket_def fd_wf_def wrapper_ok_def)

section \<open>Lemmas\<close>

lemma ucast_up_down: "(ucast (ucast x :: size_t) :: uint32) = x"
  by (rule bit_word_eqI) (simp add: bit_simps)

lemma verify_sockopt_run:
  fixes s :: "('k, 'z) world_scheme"
  assumes "fd_heap s r = Some w"
  shows "\<exists>x k e. verify_sockopt os r option expected what s = (x, s\<lparr>kern := k, errno := e\<rparr>)"
proof -
  obtain ret err v len k where "os_getsockopt os (fdw_fd w) SOL_SOCKET option 4 (kern s) = ((ret, err, v, len), k)"
    by (metis prod.exhaust)
  then show ?thesis
    using assms by (auto simp: verify_sockopt_def em_simps sys_call_apply)
qed

lemma sock_of_fd_run:
  fixes s :: "('k, 'z) world_scheme"
  assumes w: "fd_heap s r = Some w" "fdw_uses w = 1"
  shows "case sock_of_fd os r domain type s of
      (Inl e, s') \<Rightarrow> fd_heap s' = (fd_heap s)(r := None)
    | (Inr r', s') \<Rightarrow> r' = r \<and> fd_heap s' = fd_heap s"
proof -
  obtain x k e where 1: "verify_sockopt os r SO_DOMAIN domain ''socket domain mismatch'' s = (x, s\<lparr>kern := k, errno := e\<rparr>)"
    using verify_sockopt_run [OF w(1)] by blast
  let ?s = "s\<lparr>kern := k, errno := e\<rparr>"
  have w1: "fd_heap ?s r = Some w" using w by simp
  then obtain y k2 e2 where 2: "verify_sockopt os r SO_TYPE type ''socket type mismatch'' ?s = (y, ?s\<lparr>kern := k2, errno := e2\<rparr>)"
    using verify_sockopt_run by blast
  let ?s2 = "?s\<lparr>kern := k2, errno := e2\<rparr>"
  have w2: "fd_heap ?s2 r = Some w" using w by simp
  obtain a where "fd_release os r ?s = (Inr (), a)" "fd_heap a = (fd_heap s)(r := None)"
    using fd_release_last [OF w1 w(2), of os] by auto
  moreover obtain b where "fd_release os r ?s2 = (Inr (), b)" "fd_heap b = (fd_heap s)(r := None)"
    using fd_release_last [OF w2 w(2), of os] by auto
  ultimately show ?thesis
    using 1 2 by (cases x; cases y) (auto simp: sock_of_fd_def releasing_def em_simps)
qed

text \<open>Every sequence of calls on descriptors and sockets keeps the store of wrappers well formed, also when calls throw.\<close>

lemma socket_store_invariant:
  assumes "fd_wf s" and "run_ops (sock_exec os) xs s = (r, s')"
  shows "fd_wf s'"
  using socks.run_invar assms by blast

section \<open>Properties\<close>

text \<open>C26. \<open>TCPSocket::accept\<close> leaks no descriptor: if it returns, the new socket is a fresh wrapper with one owner
  around the accepted descriptor; if it throws, because \<open>accept\<close> failed or because the accepted
  descriptor is not an IPv4 stream socket, the store holds no new wrapper. In every case the
  only other change to the store is the read count of the listening socket.\<close>

theorem tcp_accept_no_leak:
  fixes s :: "('k, 'z) world_scheme"
  assumes "fd_wf s" and "fd_heap s r = Some w"
  shows "case tcp_accept os r s of
      (Inl e, s') \<Rightarrow> fd_heap s' = (fd_heap s)(r := Some (w\<lparr>fdw_read_count := fdw_read_count w + 1\<rparr>))
    | (Inr r', s') \<Rightarrow> fd_heap s r' = None \<and> 0 \<le> narrow_int (fst (fst (os_accept os (fdw_fd w) (kern s)))) \<and>
        fd_heap s' = (fd_heap s)(r := Some (w\<lparr>fdw_read_count := fdw_read_count w + 1\<rparr>),
         r' := Some \<lparr>fdw_fd = narrow_int (fst (fst (os_accept os (fdw_fd w) (kern s)))), fdw_eof = False, fdw_closed = False,
           fdw_read_count = 0, fdw_write_count = 0, fdw_uses = 1\<rparr>)"
proof -
  let ?w = "w\<lparr>fdw_read_count := fdw_read_count w + 1\<rparr>"
  let ?s = "s\<lparr>fd_heap := (fd_heap s)(r := Some ?w)\<rparr>"
  obtain ret err k where call: "os_accept os (fdw_fd w) (kern s) = ((ret, err, ()), k)"
    by (metis prod.exhaust unit.exhaust)
  have fresh: "fd_heap s (fd_next s) = None"
    using assms(1) by (cases "fd_heap s (fd_next s)") (auto simp: fd_wf_def)
  have run: "tcp_accept os r s = bindM (sys_call ''accept'' (os_accept os (fdw_fd w))) (\<lambda>(n, _). bindM (fd_make n) (tcp_of_fd os)) ?s"
    using assms(2) by (simp add: tcp_accept_def register_read_def em_simps)
  show ?thesis
  proof (cases "narrow_int ret \<ge> 0")
    case False
    then show ?thesis
      using call by (auto simp: run bindM_apply sys_call_apply fd_make_def fdw_make_def em_simps)
  next
    case True
    let ?n = "\<lparr>fdw_fd = narrow_int ret, fdw_eof = False, fdw_closed = False, fdw_read_count = 0, fdw_write_count = 0, fdw_uses = 1\<rparr>"
    let ?s2 = "?s\<lparr>kern := k, errno := err, fd_heap := (fd_heap ?s)(fd_next s := Some ?n), fd_next := Suc (fd_next s)\<rparr>"
    have eq: "tcp_accept os r s = sock_of_fd os (fd_next s) AF_INET SOCK_STREAM ?s2"
      using True call by (simp add: run bindM_apply sys_call_apply fd_make_def fdw_make_def em_simps tcp_of_fd_def)
    have "fd_heap ?s2 (fd_next s) = Some ?n" "fdw_uses ?n = 1" by simp_all
    moreover have "((fd_heap s)(r := Some ?w))(fd_next s := None) = (fd_heap s)(r := Some ?w)"
      using fresh assms(2) by (intro fun_upd_idem) auto
    ultimately show ?thesis
      using sock_of_fd_run [of ?s2 "fd_next s" ?n os AF_INET SOCK_STREAM] fresh True call
      unfolding eq by (auto split: prod.splits sum.splits)
  qed
qed

text \<open>The accepted descriptor 5 is a datagram socket to this kernel, and the constructor refuses it.\<close>

lemma tcp_accept_no_leak_witness:
  "\<exists>e s'. tcp_accept (demo_sock_os\<lparr>os_getsockopt := (\<lambda>fd l opt n k. ((0, 0, 2, 4), k))\<rparr>) 0 demo_sock_world = (Inl e, s') \<and>
     fd_heap s' = [0 \<mapsto> demo_socket\<lparr>fdw_read_count := 1\<rparr>]"
proof -
  let ?os = "demo_sock_os\<lparr>os_getsockopt := (\<lambda>fd l opt n k. ((0, 0, 2, 4), k))\<rparr>"
  have "\<exists>e s'. tcp_accept ?os 0 demo_sock_world = (Inl e, s')"
    by (simp add: tcp_accept_def tcp_of_fd_def sock_of_fd_def releasing_def verify_sockopt_def em_simps demo_sock_world_def demo_socket_def
        register_read_def sys_call_apply demo_sock_os_def narrow_int_id fd_make_def fdw_make_def fd_release_def fdw_destruct_def
        fdw_close_def AF_INET_def SOCK_STREAM_def)
  then show ?thesis
    using tcp_accept_no_leak [OF demo_sock_world_facts(3,1), of ?os]
    by (auto simp: demo_sock_world_def demo_socket_def)
qed

lemma sint_small: "unat (mtu :: size_t) < 2 ^ 63 \<Longrightarrow> sint mtu = int (unat mtu)"
  using sint_size_of [of "replicate (unat mtu) ()"] by (simp add: size_of_def)

lemma udp_recv_success:
  fixes s :: "('k, 'z) world_scheme"
  assumes "fd_heap s r = Some w" and "unat mtu < 2 ^ 63"
    and "os_recvfrom os (fdw_fd w) (unat mtu) MSG_TRUNC 128 (kern s) = ((ret, err, data, from, fromlen), k)"
    and "0 \<le> ret" and "ret < 2 ^ 31" and "ret \<le> int (unat mtu)" and "length data = nat ret"
    and "length from \<le> 128" and "fromlen = of_nat (length from)"
  shows "udp_recv os r mtu s =
    (Inr \<lparr>source_address = \<lparr>addr_size = fromlen, addr_storage = from @ replicate (128 - length from) 0\<rparr>, payload = data\<rparr>,
     s\<lparr>kern := k, errno := err, fd_heap := (fd_heap s)(r := Some (w\<lparr>fdw_read_count := fdw_read_count w + 1\<rparr>))\<rparr>)"
proof -
  have run: "sys_call ''recvfrom'' (os_recvfrom os (fdw_fd w) (unat mtu) MSG_TRUNC 128) s =
      (Inr (ret, data, from, fromlen), s\<lparr>kern := k, errno := err\<rparr>)"
    using assms(3-5) by (intro sys_call_ok) simp_all
  have "unat (ucast fromlen :: size_t) = length from"
    using assms(8,9) by (simp add: unsigned_ucast_eq unat_of_nat take_bit_nat_eq_self)
  then have addr: "addr_of_sockaddr (overlay from (replicate 128 0)) (ucast fromlen) =
      Inr \<lparr>addr_size = fromlen, addr_storage = from @ replicate (128 - length from) 0\<rparr>"
    using assms(8) by (simp add: addr_of_sockaddr_def STORAGE_SIZE_def overlay_def word_less_nat_alt ucast_up_down)
  have start: "addr_of_sockaddr [] 0 = Inr \<lparr>addr_size = 0, addr_storage = replicate 128 0\<rparr>"
    by (simp add: addr_of_sockaddr_def STORAGE_SIZE_def)
  have "nat ret \<le> unat mtu" using assms(6) by linarith
  then have data: "resize (overlay data (resize [] (unat mtu))) (nat ret) = data"
    using assms(7) by (simp add: resize_def overlay_def)
  show ?thesis
    using assms(1,4,6) start run addr data sint_small [OF assms(2)]
    by (simp add: udp_recv_def udp_recv_into_def em_simps on_world_def set_payload_def STORAGE_SIZE_def register_read_def)
qed

text \<open>C24. \<open>UDPSocket::recv\<close> returns exactly the waiting datagram and its sender, and counts one read,
  if the datagram is not longer than \<open>mtu\<close>; a longer one is reported by an exception, as is a
  failing call, and neither counts as a read.\<close>

theorem udp_recv_correct:
  fixes s :: "('k, 'z) world_scheme"
  assumes "recvfrom_contract os" and "fd_heap s r = Some w" and "unat mtu < 2 ^ 63"
    and "os_recvfrom os (fdw_fd w) (unat mtu) MSG_TRUNC 128 (kern s) = ((ret, err, data, from, fromlen), k)"
  shows "udp_recv os r mtu s =
    (if ret < 0 then (Inl (unix_error ''recvfrom'' err), s\<lparr>kern := k, errno := err\<rparr>)
     else if ret > int (unat mtu) then
       (Inl (Runtime_error ''recvfrom (oversized datagram)''), s\<lparr>kern := k, errno := err\<rparr>)
     else (Inr \<lparr>source_address = \<lparr>addr_size = fromlen, addr_storage = from @ replicate (128 - length from) 0\<rparr>,
            payload = data\<rparr>,
          s\<lparr>kern := k, errno := err, fd_heap := (fd_heap s)(r := Some (w\<lparr>fdw_read_count := fdw_read_count w + 1\<rparr>))\<rparr>))"
proof -
  let ?call = "os_recvfrom os (fdw_fd w) (unat mtu) MSG_TRUNC 128"
  have c: "- (2 ^ 31) \<le> ret" "ret < 2 ^ 31" "ret < 0 \<Longrightarrow> err \<noteq> 0"
    "0 \<le> ret \<Longrightarrow> length data = min (unat mtu) (nat ret)"
    "0 \<le> ret \<Longrightarrow> length from \<le> unat (128 :: uint32)" "0 \<le> ret \<Longrightarrow> fromlen = of_nat (length from)"
    using assms(1,4) unfolding recvfrom_contract_def by metis+
  note mtu = sint_small [OF assms(3)]
  have start: "addr_of_sockaddr [] 0 = Inr \<lparr>addr_size = 0, addr_storage = replicate 128 0\<rparr>"
    by (simp add: addr_of_sockaddr_def STORAGE_SIZE_def)
  show ?thesis
  proof (cases "ret < 0")
    case True
    then have "sys_call ''recvfrom'' ?call s = (Inl (unix_error ''recvfrom'' err), s\<lparr>kern := k, errno := err\<rparr>)"
      using c(3) assms(4) narrow_int_id [OF c(1,2)] by (intro sys_call_fails) auto
    then show ?thesis
      using True assms(2) start
      by (simp add: udp_recv_def udp_recv_into_def em_simps on_world_def set_payload_def STORAGE_SIZE_def)
  next
    case False
    show ?thesis
    proof (cases "ret > int (unat mtu)")
      case oversized: True
      have "sys_call ''recvfrom'' ?call s = (Inr (ret, data, from, fromlen), s\<lparr>kern := k, errno := err\<rparr>)"
        using False c(2) assms(4) by (intro sys_call_ok) simp_all
      with oversized False assms(2) start mtu show ?thesis
        by (simp add: udp_recv_def udp_recv_into_def em_simps on_world_def set_payload_def STORAGE_SIZE_def)
    next
      case fit: False
      then have "nat ret \<le> unat mtu" by linarith
      with False fit c show ?thesis
        using udp_recv_success [OF assms(2-4)] by simp
    qed
  qed
qed

theorem udp_recv_correct_witness:
  "recvfrom_contract demo_sock_os \<and>
   (\<exists>s'. udp_recv demo_sock_os 0 65536 demo_sock_world =
     (Inr \<lparr>source_address = \<lparr>addr_size = 0, addr_storage = replicate 128 0\<rparr>, payload = [7, 8, 9]\<rparr>, s')) \<and>
   (\<exists>s'. udp_recv demo_sock_os 0 2 demo_sock_world = (Inl (Runtime_error ''recvfrom (oversized datagram)''), s'))"
proof -
  have c: "recvfrom_contract demo_sock_os"
    by (auto simp: recvfrom_contract_def demo_sock_os_def)
  have call: "os_recvfrom demo_sock_os (fdw_fd demo_socket) (unat n) MSG_TRUNC 128 (kern demo_sock_world) =
      ((3, 0, take (unat n) [7, 8, 9], [], 0), [])" for n :: size_t
    by (simp add: demo_sock_os_def demo_sock_world_facts)
  show ?thesis
    using c udp_recv_correct [OF c demo_sock_world_facts(1) _ call, of 65536]
      udp_recv_correct [OF c demo_sock_world_facts(1) _ call, of 2] by simp
qed

text \<open>C25. \<open>sendto\<close> against any kernel that keeps to \<open>sendmsg\<close>'s contract: if it returns, exactly one
  datagram has been sent, to the given address and with exactly the bytes of the payload, and
  one write has been counted; if it throws, nothing was sent or a truncated datagram was, and
  no write has been counted.\<close>

theorem udp_sendto_correct:
  fixes s :: "('k, 'z) world_scheme"
  assumes "sendmsg_contract os sent" and "bvl_wf data" and "fits (bvl_contents data)" and "fd_heap s r = Some w"
  shows "case udp_sendto os r a data s of
      (Inr _, s') \<Rightarrow> fd_heap s' = (fd_heap s)(r := Some (w\<lparr>fdw_write_count := fdw_write_count w + 1\<rparr>)) \<and>
        sent (kern s') = sent (kern s) @ [(fdw_fd w, Some (addr_storage a, addr_size a), bvl_contents data)]
    | (Inl e, s') \<Rightarrow> fd_heap s' = fd_heap s \<and> (sent (kern s') = sent (kern s) \<or>
        (\<exists>m < length (bvl_contents data).
           sent (kern s') = sent (kern s) @ [(fdw_fd w, Some (addr_storage a, addr_size a), take m (bvl_contents data))]))"
proof -
  let ?c = "bvl_contents data" and ?a = "Some (addr_storage a, addr_size a)"
  let ?call = "os_sendmsg os (fdw_fd w) ?a (bvl_as_iovecs data) 0"
  obtain ret err k where call: "?call (kern s) = ((ret, err, ()), k)"
    by (metis prod.exhaust unit.exhaust)
  have ret: "- (2 ^ 31) \<le> ret" "ret < 2 ^ 31" "ret \<le> int (length ?c)"
    and sent: "if ret < 0 then err \<noteq> 0 \<and> sent k = sent (kern s)
      else sent k = sent (kern s) @ [(fdw_fd w, ?a, take (nat ret) ?c)]"
    using assms(1) call unfolding sendmsg_contract_def by (metis iovecs_of_views [OF assms(2)])+
  show ?thesis
  proof (cases "ret < 0")
    case True
    then have "sys_call ''sendmsg'' ?call s = (Inl (unix_error ''sendmsg'' err), s\<lparr>kern := k, errno := err\<rparr>)"
      using call sent narrow_int_id [OF ret(1,2)] by (intro sys_call_fails) auto
    then show ?thesis
      using True sent assms(4) by (simp add: udp_sendto_def sendmsg_helper_def em_simps)
  next
    case False
    then have run: "sys_call ''sendmsg'' ?call s = (Inr (ret, ()), s\<lparr>kern := k, errno := err\<rparr>)"
      using call ret(2) by (intro sys_call_ok) simp_all
    have whole: "size_of_int ret = bvl_size data \<longleftrightarrow> nat ret = length ?c"
      using False ret(2) assms(3) unat_size_of_int [of ret] bvl.size_law [OF assms(2)]
      by (simp add: word_unat_eq_iff)
    have "nat ret < length ?c" if "nat ret \<noteq> length ?c"
      using that ret(3) by linarith
    then show ?thesis
      using False sent assms(4) run whole
      by (auto simp: udp_sendto_def sendmsg_helper_def em_simps register_write_def)
  qed
qed

theorem udp_sendto_correct_witness:
  "sendmsg_contract demo_sock_os (\<lambda>k. k) \<and>
   (\<exists>s'. udp_sendto demo_sock_os 0 \<lparr>addr_size = 0, addr_storage = replicate 128 0\<rparr> (bvl_of_string [1, 2, 3]) demo_sock_world = (Inr (), s') \<and>
      kern s' = [(3, Some (replicate 128 0, 0), [1, 2, 3])])"
proof -
  let ?a = "\<lparr>addr_size = 0, addr_storage = replicate 128 0\<rparr>" and ?b = "bvl_of_string [1, 2, 3]"
  have c: "sendmsg_contract demo_sock_os (\<lambda>k. k)"
    by (auto simp: sendmsg_contract_def demo_sock_os_def Let_def min_def)
  have b: "bvl_wf ?b" "fits (bvl_contents ?b)" "bvl_contents ?b = [1, 2, 3]"
    by (simp_all add: bvl_wf_def bvl_of_string_def bvl_of_view_def fits_def bvl_contents_def)
  have "is_error (fst (udp_sendto demo_sock_os 0 ?a ?b demo_sock_world)) = False"
    using iovecs_of_views [OF b(1)] b(3) bvl.size_law [OF b(1)]
    by (simp add: udp_sendto_def sendmsg_helper_def em_simps sys_call_apply demo_sock_world_facts demo_sock_os_def Let_def
        narrow_int_id register_write_def size_of_def size_of_int_def)
  then show ?thesis
    using c udp_sendto_correct [OF c b(1,2) demo_sock_world_facts(1), of ?a]
    by (auto simp: b(3) demo_sock_world_facts demo_socket_def split: prod.splits sum.splits)
qed

end
