(* ===== verification/Tun.thy ===== *)
theory Tun
  imports File_Descriptor
begin

text \<open>
  \<open>libsponge/util/tun.hh\<close> and \<open>tun.cc\<close>: opening a TUN device. The constructor opens the clone
  device, fills in an interface request and attaches the descriptor with \<open>ioctl\<close>.
\<close>

section \<open>State\<close>

record ifreq =
  ifr_name :: "byte list"
  ifr_flags :: uint16

record 'k tun_os = "'k fd_os" +
  os_open :: "string \<Rightarrow> int \<Rightarrow> ('k, unit) syscall"
  os_ioctl :: "int \<Rightarrow> int \<Rightarrow> ifreq \<Rightarrow> ('k, unit) syscall"

definition CLONEDEV :: string where
  "CLONEDEV = ''/dev/net/tun''"

definition O_RDWR :: int where
  "O_RDWR = 2"

definition IFNAMSIZ :: nat where
  "IFNAMSIZ = 16"

definition IFF_TUN :: uint16 where
  "IFF_TUN = 1"

definition IFF_NO_PI :: uint16 where
  "IFF_NO_PI = 4096"

definition TUNSETIFF :: int where
  "TUNSETIFF = 1074025674"

section \<open>TunFD\<close>

text \<open>\<open>strncpy\<close>: at most \<open>n\<close> bytes up to the terminating NUL of the source, padded with NULs.\<close>

definition strncpy :: "byte list \<Rightarrow> byte list \<Rightarrow> nat \<Rightarrow> byte list" where
  "strncpy dst src n = take n (takeWhile (\<lambda>c. c \<noteq> 0) src @ replicate n 0) @ drop n dst"

definition tun_request :: "byte list \<Rightarrow> ifreq" where
  "tun_request devname =
     (let tun_req = \<lparr>ifr_name = replicate IFNAMSIZ 0, ifr_flags = 0\<rparr>;
          tun_req = tun_req\<lparr>ifr_flags := IFF_TUN OR IFF_NO_PI\<rparr>;
          tun_req = tun_req\<lparr>ifr_name := strncpy (ifr_name tun_req) devname (IFNAMSIZ - 1)\<rparr>
      in tun_req\<lparr>ifr_name := (ifr_name tun_req)[IFNAMSIZ - 1 := 0]\<rparr>)"

definition tun_make :: "('k, 'y) tun_os_scheme \<Rightarrow> byte list \<Rightarrow> (('k, 'z) world_scheme, nat) em" where
  "tun_make os devname =
     bindM (sys_call ''open'' (os_open os CLONEDEV O_RDWR)) (\<lambda>(fd, _).
     bindM (fd_make fd) (\<lambda>r. releasing os r
       (bindM (fd_num r) (\<lambda>n.
        bindM (sys_call ''ioctl'' (os_ioctl os n TUNSETIFF (tun_request devname))) (\<lambda>_. returnM r)))))"

section \<open>Lemmas\<close>

lemma tun_request_eq:
  "tun_request devname =
     \<lparr>ifr_name = (let name = take 15 (takeWhile (\<lambda>c. c \<noteq> 0) devname) in name @ replicate (16 - length name) 0), ifr_flags = 4097\<rparr>"
proof -
  let ?n = "takeWhile (\<lambda>c. c \<noteq> 0) devname"
  have "(strncpy (replicate 16 0) devname 15)[15 := 0] = take 15 (?n @ replicate 15 0) @ [0]"
    by (simp add: strncpy_def list_update_append eval_nat_numeral)
  also have "\<dots> = take 15 ?n @ replicate (16 - length (take 15 ?n)) 0"
  proof -
    have "replicate (15 - length ?n) 0 @ [0 :: byte] = replicate (16 - length (take 15 ?n)) 0"
    proof -
      have "16 - length (take 15 ?n) = Suc (15 - length ?n)"
        by (cases "length ?n < 15") (simp_all add: min_def)
      then show ?thesis by (simp add: replicate_append_same)
    qed
    then show ?thesis by simp
  qed
  finally show ?thesis
    by (simp add: tun_request_def Let_def IFNAMSIZ_def IFF_TUN_def IFF_NO_PI_def)
qed

section \<open>Properties\<close>

text \<open>C30. The constructor asks the kernel for the device named by the first 15 bytes of the name up to
  its first NUL, in a 16-byte field that is always NUL-terminated, as a TUN device without
  packet information. If the kernel refuses, the descriptor that had been opened is closed
  again and nothing is left in the store; otherwise the new wrapper is its only change.\<close>

theorem tun_make_correct:
  fixes s :: "('k, 'z) world_scheme"
  assumes "fd_wf s" and "name = take 15 (takeWhile (\<lambda>c. c \<noteq> 0) devname)"
    and "os_open os ''/dev/net/tun'' 2 (kern s) = ((fd, err1, ()), k1)" and "0 \<le> fd" and "fd < 2 ^ 31"
    and "os_ioctl os fd TUNSETIFF \<lparr>ifr_name = name @ replicate (16 - length name) 0, ifr_flags = 4097\<rparr> k1 = ((ret, err2, ()), k2)"
    and "- (2 ^ 31) \<le> ret" and "ret < 2 ^ 31" and "ret < 0 \<longrightarrow> err2 \<noteq> 0"
  shows "case tun_make os devname s of
      (Inr r, s') \<Rightarrow> 0 \<le> ret \<and> kern s' = k2 \<and> fd_heap s' = (fd_heap s)(r := Some
        \<lparr>fdw_fd = fd, fdw_eof = False, fdw_closed = False, fdw_read_count = 0, fdw_write_count = 0, fdw_uses = 1\<rparr>)
    | (Inl e, s') \<Rightarrow> ret < 0 \<and> e = unix_error ''ioctl'' err2 \<and> kern s' = snd (os_close os fd k2) \<and> fd_heap s' = fd_heap s"
proof -
  let ?r = "fd_next s"
  let ?w = "\<lparr>fdw_fd = fd, fdw_eof = False, fdw_closed = False, fdw_read_count = 0, fdw_write_count = 0, fdw_uses = 1\<rparr>"
  let ?s1 = "s\<lparr>kern := k1, errno := err1, fd_heap := (fd_heap s)(?r := Some ?w), fd_next := Suc ?r\<rparr>"
  let ?s2 = "?s1\<lparr>kern := k2, errno := err2\<rparr>"
  let ?io = "sys_call ''ioctl'' (os_ioctl os fd TUNSETIFF (tun_request devname))"
  have fresh: "fd_heap s ?r = None"
    using assms(1) by (cases "fd_heap s ?r") (auto simp: fd_wf_def)
  have "sys_call ''open'' (os_open os CLONEDEV O_RDWR) s = (Inr (fd, ()), s\<lparr>kern := k1, errno := err1\<rparr>)"
    using assms(3-5) by (intro sys_call_ok) (simp_all add: CLONEDEV_def O_RDWR_def)
  then have run: "tun_make os devname s = releasing os ?r (bindM ?io (\<lambda>_. returnM ?r)) ?s1"
    using assms(4) by (simp add: tun_make_def em_simps fd_make_def fdw_make_def releasing_def split: prod.splits sum.splits)
  have io: "os_ioctl os fd TUNSETIFF (tun_request devname) (kern ?s1) = ((ret, err2, ()), k2)"
    using assms(2,6) by (simp add: tun_request_eq Let_def)
  show ?thesis
  proof (cases "ret < 0")
    case False
    then have "?io ?s1 = (Inr (ret, ()), ?s2)"
      using io assms(8) sys_call_ok [of "os_ioctl os fd TUNSETIFF (tun_request devname)" ?s1 ret err2 "()" k2] by simp
    with False run show ?thesis
      by (simp add: releasing_def em_simps)
  next
    case True
    then have "?io ?s1 = (Inl (unix_error ''ioctl'' err2), ?s2)"
      using io assms(9) narrow_int_id [OF assms(7,8)] 
        sys_call_fails [of "os_ioctl os fd TUNSETIFF (tun_request devname)" ?s1 ret err2 "()" k2] by auto
    moreover have "fd_heap ?s2 ?r = Some ?w" "fdw_uses ?w = 1" by simp_all
    then obtain s' where "fd_release os ?r ?s2 = (Inr (), s')" "fd_heap s' = (fd_heap s)(?r := None)"
        "kern s' = snd (os_close os fd k2)"
      using fd_release_last [of ?s2 ?r ?w os] by auto
    moreover have "(fd_heap s)(?r := None) = fd_heap s"
      using fresh by auto
    ultimately show ?thesis
      using True run by (simp add: releasing_def em_simps)
  qed
qed

text \<open>A kernel whose TUN devices have names of more than three bytes, that logs the descriptors closed.\<close>

definition demo_tun_os :: "int list tun_os" where
  "demo_tun_os = \<lparr>os_close = (\<lambda>fd k. ((0, 0, ()), k @ [fd])), os_read = (\<lambda>fd n k. ((0, 0, []), k)),
     os_writev = (\<lambda>fd iov k. ((- 1, 22, ()), k)), os_getfl = (\<lambda>fd k. ((2, 0, ()), k)), os_setfl = (\<lambda>fd fl k. ((0, 0, ()), k)),
     os_message = (\<lambda>_ _. ''error''), os_open = (\<lambda>path fl k. ((4, 0, ()), k)),
     os_ioctl = (\<lambda>fd n req k. if ifr_name req ! 3 \<noteq> 0 then ((0, 0, ()), k) else ((- 1, 1, ()), k))\<rparr>"

theorem tun_make_correct_witness:
  "(\<exists>s'. tun_make demo_tun_os [116, 117, 110] \<lparr>kern = [], errno = 0, cerr = [], fd_heap = Map.empty, fd_next = 0\<rparr> =
      (Inl (unix_error ''ioctl'' 1), s') \<and> kern s' = [4] \<and> fd_heap s' = Map.empty)"
proof -
  let ?s = "\<lparr>kern = [], errno = 0, cerr = [], fd_heap = Map.empty, fd_next = 0\<rparr> :: int list world"
  let ?n = "[116, 117, 110] :: byte list"
  have wf: "fd_wf ?s" by (simp add: fd_wf_def)
  have n: "?n = take 15 (takeWhile (\<lambda>c. c \<noteq> 0) ?n)" by simp
  have op: "os_open demo_tun_os ''/dev/net/tun'' 2 (kern ?s) = ((4, 0, ()), [])"
    by (simp add: demo_tun_os_def)
  have io: "os_ioctl demo_tun_os 4 TUNSETIFF \<lparr>ifr_name = ?n @ replicate (16 - length ?n) 0, ifr_flags = 4097\<rparr> [] = ((- 1, 1, ()), [])"
    by (simp add: demo_tun_os_def)
  show ?thesis
    using tun_make_correct [OF wf n op _ _ io] by (auto simp: demo_tun_os_def split: prod.splits sum.splits)
qed

end
