(* ===== verification/Ownership.thy ===== *)
theory Ownership
  imports Socket Tun
begin

text \<open>
  Scopes. A local variable of type \<open>FileDescriptor\<close>, or of a class derived from it, is destroyed
  when its block is left, by falling off the end or by an exception. Operations on a
  descriptor leave the owner counts alone, a constructor adds one owner to a fresh wrapper or
  throws and adds none, so a block with such a local leaves the counts as they were.
\<close>

section \<open>Scopes\<close>

definition scoped :: "('k, 'y) fd_os_scheme \<Rightarrow> nat \<Rightarrow> (('k, 'z) world_scheme, 'a) em \<Rightarrow> (('k, 'z) world_scheme, 'a) em" where
  "scoped os r m = bindM (releasing os r m) (\<lambda>x. seqM (fd_release os r) (returnM x))"

definition same_uses :: "(nat \<Rightarrow> nat) \<Rightarrow> ('k, 'z) world_scheme \<Rightarrow> bool" where
  "same_uses U s \<longleftrightarrow> fd_wf s \<and> (\<forall>x. uses_of s x = U x)"

lemma uses_of_zero_iff: "fd_wf s \<Longrightarrow> uses_of s r = 0 \<longleftrightarrow> fd_heap s r = None"
  by (cases "fd_heap s r") (auto simp: uses_of_def fd_wf_def wrapper_ok_def)

section \<open>Operations that leave the owner counts alone\<close>

lemma same_uses_sys [simp]:
  "same_uses U (s\<lparr>kern := k, errno := e\<rparr>) = same_uses U s" "same_uses U (s\<lparr>cerr := c\<rparr>) = same_uses U s"
  "same_uses U (s\<lparr>kern := k\<rparr>) = same_uses U s"
  by (simp_all add: same_uses_def uses_of_def fd_wf_def)

lemma uses_sys_call [keeps_intro]: "keeps (same_uses U) (sys_call attempt c)"
  by (simp add: keeps_def sys_call_apply split: prod.splits)

lemma uses_update:
  "(\<And>w. wrapper_ok w \<Longrightarrow> wrapper_ok (f w) \<and> fdw_uses (f w) = fdw_uses w) \<Longrightarrow> keeps (same_uses U) (update_wrapper r f)"
  by (fastforce simp: keeps_def update_wrapper_def deref_def em_simps same_uses_def uses_of_def fd_wf_def
      split: option.splits)

lemma uses_register [keeps_intro]:
  "keeps (same_uses U) (register_read r)" "keeps (same_uses U) (register_write r)"
  unfolding register_read_def register_write_def by (rule uses_update, simp add: wrapper_ok_def)+

lemma uses_close [keeps_intro]: "keeps (same_uses U) (fd_close os r)"
  unfolding fd_close_def fdw_close_def by (intro keeps_intro uses_update) (simp add: wrapper_ok_def)

lemma uses_read [keeps_intro]: "keeps (same_uses U) (fd_read os r limit)"
  unfolding fd_read_def fd_read_into_def Let_def by (intro keeps_intro uses_update) (simp add: wrapper_ok_def)

lemma uses_write [keeps_intro]: "keeps (same_uses U) (fd_write os r buf all)"
proof (rule keeps_fd_write_gen)
  show "keeps (same_uses U) (fd_write_once os r buf)" for buf
    unfolding fd_write_once_def by (intro keeps_intro)
qed

lemma uses_write_c_string [keeps_intro]: "keeps (same_uses U) (fd_write_c_string os r str all)"
  unfolding fd_write_c_string_def by (rule uses_write)

lemma uses_bind [keeps_intro]: "keeps (same_uses U) (sock_bind os r a)"
  and uses_connect [keeps_intro]: "keeps (same_uses U) (sock_connect os r a)"
  and uses_listen [keeps_intro]: "keeps (same_uses U) (tcp_listen os r n)"
  and uses_shutdown [keeps_intro]: "keeps (same_uses U) (sock_shutdown os r how)"
  unfolding sock_bind_def sock_connect_def tcp_listen_def sock_shutdown_def by (intro keeps_intro)+

lemma uses_sendmsg [keeps_intro]: "keeps (same_uses U) (sendmsg_helper os fd a data)"
  unfolding sendmsg_helper_def by (intro keeps_intro)

lemma uses_send [keeps_intro]:
  "keeps (same_uses U) (udp_send os r data)" "keeps (same_uses U) (udp_sendto os r a data)"
  unfolding udp_send_def udp_sendto_def by (intro keeps_intro)+

lemma uses_recv [keeps_intro]: "keeps (same_uses U) (udp_recv os r mtu :: (('k, 'z) world_scheme, received_datagram) em)"
  by (intro keeps_udp_recv_gen keeps_intro)

lemma uses_resolve [keeps_intro]: "keeps (same_uses U) (addr_of_ip aos ip port)"
  by (simp add: keeps_def addr_of_ip_def addr_resolve_def Let_def split: prod.splits option.splits)

lemma uses_verify [keeps_intro]: "keeps (same_uses U) (verify_sockopt os r option expected what)"
  unfolding verify_sockopt_def by (intro keeps_intro)

section \<open>Constructors and blocks\<close>

text \<open>Giving up one handle of a wrapper, and the only one.\<close>

lemma release_owner:
  fixes s :: "('k, 'z) world_scheme"
  assumes "same_uses U s" and "0 < U r"
  shows "\<exists>s'. fd_release os r s = (Inr (), s') \<and> same_uses (U(r := U r - 1)) s'"
proof -
  have "0 < uses_of s r" "fd_wf s" using assms by (simp_all add: same_uses_def)
  then obtain w where w: "fd_heap s r = Some w" "wrapper_ok w"
    by (cases "fd_heap s r") (auto simp: uses_of_def fd_wf_def)
  then obtain s' where s': "fd_release os r s = (Inr (), s')" "\<forall>x. uses_of s' x = uses_of s x - (if x = r then 1 else 0)"
    using fd_release_uses by blast
  moreover have "fd_wf s'"
    using keepsD [OF keeps_fd_release _ s'(1)] assms(1) by (simp add: same_uses_def)
  ultimately show ?thesis
    using assms(1) by (auto simp: same_uses_def)
qed

lemma release_only_owner:
  fixes s :: "('k, 'z) world_scheme"
  assumes "same_uses (U(r := 1)) s" and "U r = 0"
  shows "\<exists>s'. fd_release os r s = (Inr (), s') \<and> same_uses U s'"
proof -
  have "(U(r := 1))(r := (U(r := 1)) r - 1) = U" using assms(2) by (simp add: fun_eq_iff)
  with release_owner [OF assms(1), of r os] show ?thesis by simp
qed

text \<open>The contract of a constructor: one owner on a fresh wrapper, or an exception and no change.\<close>

locale fd_allocator =
  fixes mk :: "(('k, 'z) world_scheme, nat) em"
  assumes alloc: "same_uses U s \<Longrightarrow> case mk s of
    (Inl e, s') \<Rightarrow> same_uses U s' | (Inr r, s') \<Rightarrow> U r = 0 \<and> same_uses (U(r := 1)) s'"
begin

text \<open>A block that declares such a local and otherwise leaves the counts alone leaves them alone.\<close>

lemma block_balanced:
  assumes m: "\<And>r V. keeps (same_uses V) (m r)"
  shows "keeps (same_uses U) (bindM mk (\<lambda>r. scoped os r (m r)))"
proof -
  have "same_uses U (snd (scoped os r (m r) s))" if s: "same_uses (U(r := 1)) s" and r: "U r = 0" for r s
  proof -
    obtain x s1 where run: "m r s = (x, s1)" by force
    have "same_uses (U(r := 1)) s1"
      using keepsD [OF m s run] .
    then obtain s' where "fd_release os r s1 = (Inr (), s')" "same_uses U s'"
      using release_only_owner r by blast
    then show ?thesis
      using run by (cases x) (simp_all add: scoped_def releasing_def em_simps)
  qed
  moreover have "same_uses U s \<Longrightarrow> case mk s of (Inl e, s') \<Rightarrow> same_uses U s' | (Inr r, s') \<Rightarrow> U r = 0 \<and> same_uses (U(r := 1)) s'" for s
    using alloc .
  ultimately show ?thesis
    unfolding keeps_def bindM_apply by (fastforce split: prod.splits sum.splits)
qed

end

text \<open>The constructors of the library.\<close>

lemma fd_make_alloc:
  assumes "same_uses U s"
  shows "case fd_make n s of (Inl e, s') \<Rightarrow> same_uses U s' | (Inr r, s') \<Rightarrow> U r = 0 \<and> same_uses (U(r := 1)) s'"
proof -
  have "fd_heap s (fd_next s) = None"
    using assms by (cases "fd_heap s (fd_next s)") (auto simp: same_uses_def fd_wf_def)
  then have "U (fd_next s) = 0"
    using assms by (auto simp: same_uses_def uses_of_def dest: spec [of _ "fd_next s"])
  then show ?thesis
    using assms keepsD [OF keeps_fd_make, of s n]
    by (auto simp: same_uses_def fd_make_def fdw_make_def em_simps uses_of_def split: prod.splits sum.splits)
qed

interpretation fd_make: fd_allocator "fd_make n" for n
  by unfold_locales (rule fd_make_alloc)

text \<open>A constructor that first makes system calls, and one that then verifies what it got.\<close>

lemma alloc_after:
  assumes "keeps (same_uses U) m" and "\<And>x s. same_uses U s \<Longrightarrow> case mk x s of
      (Inl e, s') \<Rightarrow> same_uses U s' | (Inr r, s') \<Rightarrow> U r = 0 \<and> same_uses (U(r := 1)) s'" and "same_uses U s"
  shows "case bindM m mk s of (Inl e, s') \<Rightarrow> same_uses U s' | (Inr r, s') \<Rightarrow> U r = 0 \<and> same_uses (U(r := 1)) s'"
proof -
  obtain x s1 where run: "m s = (x, s1)" by force
  have "same_uses U s1" using keepsD [OF assms(1,3) run] .
  with assms(2) [of s1] run show ?thesis by (cases x) (auto simp: bindM_apply)
qed

lemma alloc_checked:
  assumes "same_uses U s" and keep: "\<And>r V. keeps (same_uses V) (m r)" and ret: "\<And>r s r' s'. m r s = (Inr r', s') \<Longrightarrow> r' = r"
  shows "case bindM (fd_make n) (\<lambda>r. releasing os r (m r)) s of
    (Inl e, s') \<Rightarrow> same_uses U s' | (Inr r, s') \<Rightarrow> U r = 0 \<and> same_uses (U(r := 1)) s'"
proof (cases "fd_make n s")
  case (Pair x s1)
  note mk = fd_make_alloc [OF assms(1), of n]
  show ?thesis
  proof (cases x)
    case (Inl e)
    with Pair mk show ?thesis by (simp add: bindM_apply)
  next
    case (Inr r)
    with Pair mk have r: "U r = 0" "same_uses (U(r := 1)) s1" by simp_all
    obtain y s2 where run: "m r s1 = (y, s2)" by force
    have s2: "same_uses (U(r := 1)) s2" using keepsD [OF keep r(2) run] .
    then obtain s' where "fd_release os r s2 = (Inr (), s')" "same_uses U s'"
      using release_only_owner r(1) by blast
    with Pair Inr r run s2 ret [of r s1] show ?thesis
      by (cases y) (auto simp: releasing_def em_simps)
  qed
qed

lemma alloc_verified:
  assumes "same_uses U s"
  shows "case bindM (fd_make n) (\<lambda>r. sock_of_fd os r domain type) s of
    (Inl e, s') \<Rightarrow> same_uses U s' | (Inr r, s') \<Rightarrow> U r = 0 \<and> same_uses (U(r := 1)) s'"
  unfolding sock_of_fd_def
  by (rule alloc_checked [OF assms]) (intro keeps_intro, auto simp: em_simps split: prod.splits sum.splits)

lemma sock_make_alloc:
  assumes "same_uses U s"
  shows "case sock_make os domain type s of
    (Inl e, s') \<Rightarrow> same_uses U s' | (Inr r, s') \<Rightarrow> U r = 0 \<and> same_uses (U(r := 1)) s'"
  unfolding sock_make_def
proof (rule alloc_after [OF uses_sys_call _ assms])
  show "case (case p of (n, u) \<Rightarrow> fd_make n) s of
      (Inl e, s') \<Rightarrow> same_uses U s' | (Inr r, s') \<Rightarrow> U r = 0 \<and> same_uses (U(r := 1)) s'"
    if "same_uses U s" for p :: "int \<times> unit" and s
    using fd_make_alloc [OF that, of "fst p"] by (cases p) simp
qed

lemma tcp_accept_alloc:
  assumes "same_uses U s"
  shows "case tcp_accept os r s of
    (Inl e, s') \<Rightarrow> same_uses U s' | (Inr r, s') \<Rightarrow> U r = 0 \<and> same_uses (U(r := 1)) s'"
  unfolding tcp_accept_def tcp_of_fd_def seqM_def
proof (intro alloc_after [OF uses_register(1) _ assms] alloc_after [OF keeps_fd_num] alloc_after [OF uses_sys_call])
  show "case (case p of (n, u) \<Rightarrow> bindM (fd_make n) (\<lambda>r. sock_of_fd os r AF_INET SOCK_STREAM)) s of
      (Inl e, s') \<Rightarrow> same_uses U s' | (Inr r, s') \<Rightarrow> U r = 0 \<and> same_uses (U(r := 1)) s'"
    if "same_uses U s" for p :: "int \<times> unit" and s
    using alloc_verified [OF that, of "fst p" os AF_INET SOCK_STREAM] by (cases p) simp
qed

interpretation udp: fd_allocator "udp_make os" for os
  by unfold_locales (simp add: udp_make_def sock_make_alloc)

interpretation tcp: fd_allocator "tcp_make os" for os
  by unfold_locales (simp add: tcp_make_def sock_make_alloc)

interpretation accepted: fd_allocator "tcp_accept os r" for os r
  by unfold_locales (rule tcp_accept_alloc)

lemma tun_alloc:
  assumes "same_uses U s"
  shows "case tun_make os devname s of
    (Inl e, s') \<Rightarrow> same_uses U s' | (Inr r, s') \<Rightarrow> U r = 0 \<and> same_uses (U(r := 1)) s'"
  unfolding tun_make_def
proof (rule alloc_after [OF uses_sys_call _ assms])
  let ?m = "\<lambda>r. bindM (fd_num r) (\<lambda>n. bindM (sys_call ''ioctl'' (os_ioctl os n TUNSETIFF (tun_request devname))) (\<lambda>_. returnM r))"
  have run: "case bindM (fd_make n) (\<lambda>r. releasing os r (?m r)) s of
      (Inl e, s') \<Rightarrow> same_uses U s' | (Inr r, s') \<Rightarrow> U r = 0 \<and> same_uses (U(r := 1)) s'"
    if "same_uses U s" for n s
  proof (rule alloc_checked [OF that])
    show "keeps (same_uses V) (?m r)" for r V
      by (intro keeps_intro)
    show "r' = r" if "?m r s = (Inr r', s')" for r s r' s'
      using that by (auto simp: em_simps split: prod.splits sum.splits)
  qed
  show "case (case p of (fd, u) \<Rightarrow> bindM (fd_make fd) (\<lambda>r. releasing os r (?m r))) s of
      (Inl e, s') \<Rightarrow> same_uses U s' | (Inr r, s') \<Rightarrow> U r = 0 \<and> same_uses (U(r := 1)) s'"
    if "same_uses U s" for p :: "int \<times> unit" and s
    using run [OF that, of "fst p"] by (cases p) simp
qed

interpretation tun: fd_allocator "tun_make os devname" for os devname
  by unfold_locales (rule tun_alloc)

lemma local_stream_alloc:
  assumes "same_uses U s"
  shows "case bindM (fd_make n) (local_stream_of_fd os) s of
    (Inl e, s') \<Rightarrow> same_uses U s' | (Inr r, s') \<Rightarrow> U r = 0 \<and> same_uses (U(r := 1)) s'"
proof -
  have "local_stream_of_fd os = (\<lambda>r. sock_of_fd os r AF_UNIX SOCK_STREAM :: (('a, 'b) world_scheme, nat) em)"
    by (rule ext) (rule local_stream_of_fd_def)
  then show ?thesis
    using alloc_verified [OF assms, of n os AF_UNIX SOCK_STREAM] by simp
qed

interpretation local_stream: fd_allocator "bindM (fd_make n) (local_stream_of_fd os)" for n os
  by unfold_locales (rule local_stream_alloc)

end
