(* ===== verification/Defined_Calls.thy ===== *)
theory Defined_Calls
  imports Ownership
begin

text \<open>
  Absence of undefined behaviour. An operation on a descriptor whose wrapper is alive throws
  exceptions only, whatever the kernel answers: the wrapper is never missing when it is
  dereferenced, and no address is copied past the storage it comes from. A constructor adds
  one owner to the wrapper it returns, or throws and adds none.
\<close>

section \<open>Calls that stay defined\<close>

text \<open>The computation keeps \<open>P\<close> and whatever it throws is an exception, never undefined behaviour.\<close>

definition defined :: "('s \<Rightarrow> bool) \<Rightarrow> ('s, 'a) em \<Rightarrow> bool" where
  "defined P m \<longleftrightarrow> (\<forall>s. P s \<longrightarrow> (case m s of (x, s') \<Rightarrow> P s' \<and> (\<forall>e. x = Inl e \<longrightarrow> is_exception e)))"

named_theorems defined_intro \<open>computations without undefined behaviour\<close>

lemma definedD: "defined P m \<Longrightarrow> P s \<Longrightarrow> m s = (x, s') \<Longrightarrow> P s' \<and> (\<forall>e. x = Inl e \<longrightarrow> is_exception e)"
  unfolding defined_def by (drule spec [of _ s]) simp

lemma defined_returnM [defined_intro]: "defined P (returnM x)"
  by (simp add: defined_def em_simps)

lemma defined_throwM [defined_intro]:
  "defined P (throwM (Runtime_error msg))" "defined P (throwM (Length_error msg))"
  by (simp_all add: defined_def em_simps is_exception_def)

lemma defined_liftR: "(\<And>e. x = Inl e \<Longrightarrow> is_exception e) \<Longrightarrow> defined P (liftR x)"
  by (simp add: defined_def em_simps)

lemma defined_modifyM: "(\<And>s. P s \<Longrightarrow> P (f s)) \<Longrightarrow> defined P (modifyM f)"
  by (simp add: defined_def em_simps)

lemma defined_bindM [defined_intro]:
  assumes m: "defined P m" and k: "\<And>x. defined P (k x)"
  shows "defined P (bindM m k)"
  unfolding defined_def
proof (intro allI impI)
  fix s
  assume s: "P s"
  obtain x s1 where run: "m s = (x, s1)" by force
  note 1 = definedD [OF m s run]
  show "case bindM m k s of (x, s') \<Rightarrow> P s' \<and> (\<forall>e. x = Inl e \<longrightarrow> is_exception e)"
    using 1 run k by (cases x) (simp_all add: bindM_apply defined_def)
qed

lemma defined_seqM [defined_intro]: "defined P m \<Longrightarrow> defined P k \<Longrightarrow> defined P (seqM m k)"
  unfolding seqM_def by (rule defined_bindM)

lemma defined_whenM [defined_intro]: "defined P m \<Longrightarrow> defined P (whenM b m)"
  by (simp add: whenM_def defined_returnM)

lemma defined_if [defined_intro]: "defined P m \<Longrightarrow> defined P k \<Longrightarrow> defined P (if b then m else k)"
  by simp

lemma defined_case_prod [defined_intro]: "(\<And>a b. defined P (f a b)) \<Longrightarrow> defined P (case p of (a, b) \<Rightarrow> f a b)"
  by (cases p) simp

lemma defined_sys_call [defined_intro]: "defined (same_uses U) (sys_call attempt c)"
  by (simp add: defined_def sys_call_apply unix_error_def is_exception_def split: prod.splits)

text \<open>Operations on a wrapper that has an owner.\<close>

lemma live_wrapper: "same_uses U s \<Longrightarrow> 0 < U r \<Longrightarrow> \<exists>w. fd_heap s r = Some w"
  using uses_of_zero_iff [of s r] by (cases "fd_heap s r") (auto simp: same_uses_def)

lemma defined_update:
  assumes "0 < U r" and "\<And>w. wrapper_ok w \<Longrightarrow> wrapper_ok (f w) \<and> fdw_uses (f w) = fdw_uses w"
  shows "defined (same_uses U) (update_wrapper r f)"
  unfolding defined_def
proof (intro allI impI)
  fix s :: "('a, 'b) world_scheme"
  assume s: "same_uses U s"
  then obtain w where "fd_heap s r = Some w" using live_wrapper assms(1) by blast
  then have run: "update_wrapper r f s = (Inr (), s\<lparr>fd_heap := (fd_heap s)(r := Some (f w))\<rparr>)"
    by (rule update_wrapper_Some)
  show "case update_wrapper r f s of (x, s') \<Rightarrow> same_uses U s' \<and> (\<forall>e. x = Inl e \<longrightarrow> is_exception e)"
    using keepsD [OF uses_update [of f U r, OF assms(2)] s run] by (simp add: run)
qed

lemma defined_deref [defined_intro]: "0 < U r \<Longrightarrow> defined (same_uses U) (deref r)"
  unfolding defined_def deref_def by (intro allI impI, frule (1) live_wrapper) auto

lemma defined_fd_num [defined_intro]: "0 < U r \<Longrightarrow> defined (same_uses U) (fd_num r)"
  unfolding fd_num_def by (intro defined_intro)

lemma defined_register [defined_intro]:
  "0 < U r \<Longrightarrow> defined (same_uses U) (register_read r)" "0 < U r \<Longrightarrow> defined (same_uses U) (register_write r)"
  unfolding register_read_def register_write_def by (rule defined_update, assumption, simp add: wrapper_ok_def)+

lemma defined_close [defined_intro]: "0 < U r \<Longrightarrow> defined (same_uses U) (fd_close os r)"
  unfolding fd_close_def fdw_close_def by (intro defined_intro defined_update) (simp_all add: wrapper_ok_def)

lemma defined_read [defined_intro]: "0 < U r \<Longrightarrow> defined (same_uses U) (fd_read os r limit)"
  unfolding fd_read_def fd_read_into_def Let_def by (intro defined_intro defined_update) (simp_all add: wrapper_ok_def)

lemma bvl_remove_loop_throws: "bvl_remove_loop n vs = (Inl e, vs') \<Longrightarrow> is_exception e"
  by (induction n vs rule: bvl_remove_loop.induct) (auto simp: is_exception_def split: if_splits)

lemma bvl_remove_prefix_throws: "bvl_remove_prefix n l = (Inl e, l') \<Longrightarrow> is_exception e"
  by (auto simp: bvl_remove_prefix_def dest: bvl_remove_loop_throws split: prod.splits)

lemma defined_write_once:
  assumes "0 < U r"
  shows "defined (same_uses U) (fd_write_once os r buf)"
proof -
  have drop: "defined (same_uses U) (case bvl_remove_prefix n buf of (Inl e, _) \<Rightarrow> throwM e | (Inr _, rest) \<Rightarrow> returnM (m, rest))"
    for n m
    using bvl_remove_prefix_throws [of n buf] by (auto simp: defined_def em_simps split: prod.splits sum.splits)
  show ?thesis
    unfolding fd_write_once_def
    by (intro defined_bindM defined_seqM defined_if defined_throwM defined_fd_num defined_sys_call defined_register drop assms
        | rule defined_case_prod [where p = "_ :: int \<times> unit"])+
qed

lemma defined_write_loop:
  assumes "\<And>buf. defined P (fd_write_once os r buf)"
  shows "defined P (fd_write_loop os r all t buf)"
proof -
  have "case fd_write_loop os r all t buf s of (x, s') \<Rightarrow> P s' \<and> (\<forall>e. x = Inl e \<longrightarrow> is_exception e)" if "P s" for s
    using that assms
  proof (induction os r all t buf s rule: fd_write_loop.induct)
    case (1 os r all t buf s)
    obtain x s1 where run: "fd_write_once os r buf s = (x, s1)" by force
    have "P s1 \<and> (\<forall>e. x = Inl e \<longrightarrow> is_exception e)"
      using definedD [OF "1.prems"(2,1) run] .
    with run "1.IH" "1.prems"(2) show ?case
      by (cases x; cases "projr x") (simp_all add: fd_write_loop.simps [of os r all t buf s])
  qed
  then show ?thesis by (simp add: defined_def)
qed

lemma defined_write [defined_intro]: "0 < U r \<Longrightarrow> defined (same_uses U) (fd_write_string os r str all)"
  unfolding fd_write_string_def fd_write_def by (intro defined_write_loop defined_write_once)

lemma defined_set_blocking [defined_intro]: "0 < U r \<Longrightarrow> defined (same_uses U) (fd_set_blocking os r b)"
  unfolding fd_set_blocking_def Let_def by (intro defined_intro)

lemma addr_of_storage_throws:
  "addr_of_sockaddr (overlay bytes (replicate STORAGE_SIZE 0)) len = Inl e \<Longrightarrow> is_exception e"
  by (auto simp: addr_of_sockaddr_def overlay_def STORAGE_SIZE_def is_exception_def word_less_nat_alt not_less split: if_splits)

lemma defined_get_address: "0 < U r \<Longrightarrow> defined (same_uses U) (get_address r name f)"
  unfolding get_address_def by (intro defined_intro defined_liftR) (auto intro: addr_of_storage_throws)

lemma defined_socket_calls [defined_intro]:
  assumes "0 < U r"
  shows "defined (same_uses U) (sock_bind os r a)" "defined (same_uses U) (sock_connect os r a)"
    "defined (same_uses U) (sock_shutdown os r how)" "defined (same_uses U) (set_reuseaddr os r)"
    "defined (same_uses U) (local_address os r)" "defined (same_uses U) (peer_address os r)"
    "defined (same_uses U) (udp_sendto os r a data)" "defined (same_uses U) (udp_send os r data)"
    "defined (same_uses U) (tcp_listen os r n)"
  unfolding sock_bind_def sock_connect_def sock_shutdown_def set_reuseaddr_def sock_setsockopt_def local_address_def
    peer_address_def udp_sendto_def udp_send_def sendmsg_helper_def tcp_listen_def
  by (intro defined_intro defined_get_address assms)+

lemma defined_on_world: "defined P m \<Longrightarrow> defined (\<lambda>(s, d). P s) (on_world m)"
  by (fastforce simp: defined_def on_world_def split: prod.splits)

lemma defined_recv [defined_intro]:
  assumes "0 < U r"
  shows "defined (same_uses U) (udp_recv os r mtu)"
proof -
  have "defined (\<lambda>(s, d). same_uses U s) (udp_recv_into os r mtu)"
    unfolding udp_recv_into_def set_payload_def
    by (intro defined_intro defined_on_world defined_modifyM defined_liftR assms) (auto intro: addr_of_storage_throws)
  then show ?thesis
    unfolding udp_recv_def
    by (intro defined_bindM defined_liftR)
      (fastforce simp: defined_def addr_of_sockaddr_def is_exception_def split: prod.splits sum.splits if_splits)+
qed

section \<open>Constructors\<close>

text \<open>A constructor adds one owner to the wrapper it returns, or throws and adds none.\<close>

definition gains :: "(nat \<Rightarrow> nat) \<Rightarrow> (('k, 'z) world_scheme, nat) em \<Rightarrow> bool" where
  "gains U mk \<longleftrightarrow> (\<forall>s. same_uses U s \<longrightarrow> (case mk s of
       (Inl e, s') \<Rightarrow> same_uses U s' \<and> is_exception e
     | (Inr r, s') \<Rightarrow> same_uses (U(r := Suc (U r))) s'))"

lemma gains_bindM:
  fixes m :: "(('k, 'z) world_scheme, 'a) em"
  assumes m: "defined (same_uses U) m" and k: "\<And>x. gains U (k x)"
  shows "gains U (bindM m k)"
  unfolding gains_def
proof (intro allI impI)
  fix s :: "('k, 'z) world_scheme"
  assume s: "same_uses U s"
  obtain x s1 where run: "m s = (x, s1)" by force
  show "case bindM m k s of (Inl e, s') \<Rightarrow> same_uses U s' \<and> is_exception e | (Inr r, s') \<Rightarrow> same_uses (U(r := Suc (U r))) s'"
    using definedD [OF m s run] run k by (cases x) (simp_all add: bindM_apply gains_def)
qed

lemma gains_fd_make: "gains U (fd_make n)"
  unfolding gains_def
proof (intro allI impI)
  fix s :: "('a, 'b) world_scheme"
  assume "same_uses U s"
  then show "case fd_make n s of (Inl e, s') \<Rightarrow> same_uses U s' \<and> is_exception e | (Inr r, s') \<Rightarrow> same_uses (U(r := Suc (U r))) s'"
    using fd_make_alloc [of U s n] by (auto simp: fd_make_def fdw_make_def em_simps is_exception_def split: if_splits)
qed

lemma gains_sock_make: "gains U (sock_make os domain type)"
  unfolding sock_make_def by (intro gains_bindM defined_intro) (auto intro: gains_fd_make)

lemma gains_fd_duplicate:
  assumes "0 < U r"
  shows "gains U (fd_duplicate r)"
  unfolding gains_def
proof (intro allI impI)
  fix s :: "('a, 'b) world_scheme"
  assume s: "same_uses U s"
  then obtain w where w: "fd_heap s r = Some w" using live_wrapper assms by blast
  have "fd_wf (snd (fd_duplicate r s))"
    using s keepsD [OF keeps_fd_duplicate, of s r] by (metis same_uses_def prod.collapse)
  then show "case fd_duplicate r s of (Inl e, s') \<Rightarrow> same_uses U s' \<and> is_exception e | (Inr q, s') \<Rightarrow> same_uses (U(q := Suc (U q))) s'"
    using s w by (auto simp: fd_duplicate_def em_simps same_uses_def uses_of_def dest: spec [of _ r])
qed

text \<open>The verifying constructor takes over the handle it is given, or gives it up and throws.\<close>

lemma sock_of_fd_adopts:
  fixes s :: "('k, 'z) world_scheme"
  assumes "same_uses (U(r := Suc (U r))) s"
  shows "case sock_of_fd os r domain type s of
      (Inl e, s') \<Rightarrow> same_uses U s' \<and> is_exception e | (Inr q, s') \<Rightarrow> q = r \<and> same_uses (U(r := Suc (U r))) s'"
proof -
  let ?U = "U(r := Suc (U r))"
  let ?m = "seqM (verify_sockopt os r SO_DOMAIN domain ''socket domain mismatch'')
     (seqM (verify_sockopt os r SO_TYPE type ''socket type mismatch'') (returnM r))"
  obtain x s1 where run: "?m s = (x, s1)" by force
  have "defined (same_uses ?U) ?m"
    unfolding verify_sockopt_def by (intro defined_intro) simp_all
  from definedD [OF this assms run] have 1: "same_uses ?U s1" "\<forall>e. x = Inl e \<longrightarrow> is_exception e"
    by blast+
  obtain s' where "fd_release os r s1 = (Inr (), s')" "same_uses U s'"
    using release_owner [OF 1(1), of r os] by auto
  then have "case releasing os r ?m s of (Inl e, s') \<Rightarrow> same_uses U s' \<and> is_exception e | (Inr q, s') \<Rightarrow> x = Inr q \<and> same_uses ?U s'"
    using run 1 by (cases x) (simp_all add: releasing_def em_simps)
  moreover have "q = r" if "x = Inr q" for q
    using run that by (auto simp: em_simps split: prod.splits sum.splits)
  ultimately show ?thesis
    unfolding sock_of_fd_def by (auto split: prod.splits sum.splits)
qed

lemma gains_accept:
  assumes "0 < U r"
  shows "gains U (tcp_accept os r :: (('k, 'z) world_scheme, nat) em)"
proof -
  have "gains U (bindM (fd_make n) (tcp_of_fd os) :: (('k, 'z) world_scheme, nat) em)" for n
    unfolding gains_def
  proof (intro allI impI)
    fix s :: "('k, 'z) world_scheme"
    assume s: "same_uses U s"
    obtain x s1 where run: "fd_make n s = (x, s1)" by force
    show "case bindM (fd_make n) (tcp_of_fd os) s of
        (Inl e, s') \<Rightarrow> same_uses U s' \<and> is_exception e | (Inr r, s') \<Rightarrow> same_uses (U(r := Suc (U r))) s'"
    proof (cases x)
      case (Inl e)
      with run gains_fd_make [of U n] s show ?thesis by (force simp: gains_def bindM_apply)
    next
      case (Inr q)
      with run gains_fd_make [of U n] s have "same_uses (U(q := Suc (U q))) s1" by (force simp: gains_def)
      from sock_of_fd_adopts [OF this, of os AF_INET SOCK_STREAM] run Inr show ?thesis
        by (auto simp: bindM_apply tcp_of_fd_def split: prod.splits sum.splits)
    qed
  qed
  then show ?thesis
    unfolding tcp_accept_def seqM_def by (intro gains_bindM defined_intro assms) (auto split: prod.splits)
qed

end
