(* ===== verification/Fd_Variables.thy ===== *)
theory Fd_Variables
  imports Defined_Calls
begin

text \<open>
  Variables of type \<open>FileDescriptor\<close> and of the socket classes derived from it. The class is
  move-only: a handle changes hands by move construction and move assignment
  (\<open>file_descriptor.hh\<close>), by \<open>Socket(FileDescriptor &&, domain, type)\<close>, or is shared by
  \<open>duplicate()\<close>. What a variable holds is its \<open>shared_ptr\<close>, null after a move. The theory shows that
  the owner counts are the numbers of variables that hold a wrapper, whatever a program does
  and whatever exceptions it survives, and that a static analysis of scopes and moves is
  enough to exclude undefined behaviour.
\<close>

section \<open>Variables\<close>

text \<open>No entry: no object of that name is alive. \<open>Some None\<close>: moved from.\<close>

type_synonym fd_vars = "nat \<rightharpoonup> nat option"

definition handle :: "nat \<Rightarrow> ('s \<times> fd_vars, nat) em" where
  "handle x = (\<lambda>(s, V). case V x of
       Some (Some r) \<Rightarrow> (Inr r, (s, V))
     | _ \<Rightarrow> throwM (Undefined_behaviour ''null FDWrapper'') (s, V))"

text \<open>A declaration: the variable begins to live when its constructor returns.\<close>

definition declare_var :: "nat \<Rightarrow> ('s, nat) em \<Rightarrow> ('s \<times> fd_vars, unit) em" where
  "declare_var y mk = (\<lambda>(s, V). if V y \<noteq> None then lifetime_error (s, V)
     else case mk s of
       (Inl e, s') \<Rightarrow> (Inl e, (s', V))
     | (Inr r, s') \<Rightarrow> (Inr (), (s', V(y \<mapsto> Some r))))"

definition release_ptr :: "('k, 'y) fd_os_scheme \<Rightarrow> nat option \<Rightarrow> (('k, 'z) world_scheme \<times> fd_vars, unit) em" where
  "release_ptr os p = (case p of None \<Rightarrow> returnM () | Some r \<Rightarrow> on_world (fd_release os r))"

text \<open>\<open>FileDescriptor y(n)\<close>, \<open>Socket y(domain, type)\<close>, \<open>FileDescriptor y = x.duplicate()\<close>.\<close>

definition fd_construct :: "nat \<Rightarrow> int \<Rightarrow> (('k, 'z) world_scheme \<times> fd_vars, unit) em" where
  "fd_construct y n = declare_var y (fd_make n)"

definition sock_construct :: "('k, 'y) sock_os_scheme \<Rightarrow> nat \<Rightarrow> int \<Rightarrow> int \<Rightarrow> (('k, 'z) world_scheme \<times> fd_vars, unit) em" where
  "sock_construct os y domain type = declare_var y (sock_make os domain type)"

definition fd_duplicate_to :: "nat \<Rightarrow> nat \<Rightarrow> (('k, 'z) world_scheme \<times> fd_vars, unit) em" where
  "fd_duplicate_to y x = (\<lambda>(s, V). case V x of
       None \<Rightarrow> lifetime_error (s, V)
     | Some None \<Rightarrow> if V y \<noteq> None then lifetime_error (s, V) else (Inr (), (s, V(y \<mapsto> None)))
     | Some (Some r) \<Rightarrow> declare_var y (fd_duplicate r) (s, V))"

text \<open>\<open>FileDescriptor y(std::move(x))\<close>.\<close>

definition fd_move_construct :: "nat \<Rightarrow> nat \<Rightarrow> (('k, 'z) world_scheme \<times> fd_vars, unit) em" where
  "fd_move_construct y x = (\<lambda>(s, V). case V x of
       None \<Rightarrow> lifetime_error (s, V)
     | Some p \<Rightarrow> if V y \<noteq> None then lifetime_error (s, V) else (Inr (), (s, V(x \<mapsto> None, y \<mapsto> p))))"

text \<open>\<open>y = std::move(x)\<close>: a temporary takes the pointer of \<open>x\<close>, is swapped with \<open>y\<close>, and dies with what \<open>y\<close> held.\<close>

definition fd_move_assign :: "('k, 'y) fd_os_scheme \<Rightarrow> nat \<Rightarrow> nat \<Rightarrow> (('k, 'z) world_scheme \<times> fd_vars, unit) em" where
  "fd_move_assign os y x = (\<lambda>(s, V). case V x of
       None \<Rightarrow> lifetime_error (s, V)
     | Some p \<Rightarrow> (case (V(x \<mapsto> None)) y of
           None \<Rightarrow> lifetime_error (s, V)
         | Some old \<Rightarrow> release_ptr os old (s, V(x \<mapsto> None, y \<mapsto> p))))"

text \<open>The end of the scope of \<open>x\<close>.\<close>

definition fd_destroy :: "('k, 'y) fd_os_scheme \<Rightarrow> nat \<Rightarrow> (('k, 'z) world_scheme \<times> fd_vars, unit) em" where
  "fd_destroy os x = (\<lambda>(s, V). case V x of
       None \<Rightarrow> lifetime_error (s, V)
     | Some p \<Rightarrow> release_ptr os p (s, V(x := None)))"

text \<open>\<open>Socket y(std::move(x), domain, type)\<close>: \<open>x\<close> is moved from also when the constructor throws.\<close>

definition sock_adopt :: "('k, 'y) sock_os_scheme \<Rightarrow> nat \<Rightarrow> nat \<Rightarrow> int \<Rightarrow> int \<Rightarrow> (('k, 'z) world_scheme \<times> fd_vars, unit) em" where
  "sock_adopt os y x domain type = (\<lambda>(s, V). if V y \<noteq> None then lifetime_error (s, V)
     else bindM (handle x) (\<lambda>r (s, V). declare_var y (sock_of_fd os r domain type) (s, V(x \<mapsto> None))) (s, V))"

text \<open>\<open>TCPSocket y = x.accept()\<close>.\<close>

definition accept_to :: "('k, 'y) sock_os_scheme \<Rightarrow> nat \<Rightarrow> nat \<Rightarrow> (('k, 'z) world_scheme \<times> fd_vars, unit) em" where
  "accept_to os y x = (\<lambda>(s, V). if V y \<noteq> None then lifetime_error (s, V)
     else bindM (handle x) (\<lambda>r. declare_var y (tcp_accept os r)) (s, V))"

section \<open>Programs\<close>

datatype member_call =
    Call_read size_t
  | Call_write "byte list" bool
  | Call_close
  | Call_set_blocking bool
  | Call_bind address
  | Call_connect address
  | Call_shutdown int
  | Call_reuseaddr
  | Call_local_address
  | Call_peer_address
  | Call_recv size_t
  | Call_sendto address buffer_view_list
  | Call_send buffer_view_list
  | Call_listen int

fun member :: "('k, 'y) sock_os_scheme \<Rightarrow> member_call \<Rightarrow> nat \<Rightarrow> (('k, 'z) world_scheme, unit) em" where
  "member os (Call_read limit) r = bindM (fd_read os r limit) (\<lambda>_. returnM ())"
| "member os (Call_write str all) r = bindM (fd_write_string os r str all) (\<lambda>_. returnM ())"
| "member os Call_close r = fd_close os r"
| "member os (Call_set_blocking b) r = fd_set_blocking os r b"
| "member os (Call_bind a) r = sock_bind os r a"
| "member os (Call_connect a) r = sock_connect os r a"
| "member os (Call_shutdown how) r = sock_shutdown os r how"
| "member os Call_reuseaddr r = set_reuseaddr os r"
| "member os Call_local_address r = bindM (local_address os r) (\<lambda>_. returnM ())"
| "member os Call_peer_address r = bindM (peer_address os r) (\<lambda>_. returnM ())"
| "member os (Call_recv mtu) r = bindM (udp_recv os r mtu) (\<lambda>_. returnM ())"
| "member os (Call_sendto a data) r = udp_sendto os r a data"
| "member os (Call_send data) r = udp_send os r data"
| "member os (Call_listen backlog) r = tcp_listen os r backlog"

datatype var_op =
    Construct nat int
  | Construct_socket nat int int
  | Duplicate_to nat nat
  | Move_construct nat nat
  | Move_assign nat nat
  | Adopt nat nat int int
  | Accept_to nat nat
  | Destroy nat
  | Use nat member_call

fun var_exec :: "('k, 'y) sock_os_scheme \<Rightarrow> var_op \<Rightarrow> (('k, 'z) world_scheme \<times> fd_vars, unit) em" where
  "var_exec os (Construct y n) = fd_construct y n"
| "var_exec os (Construct_socket y domain type) = sock_construct os y domain type"
| "var_exec os (Duplicate_to y x) = fd_duplicate_to y x"
| "var_exec os (Move_construct y x) = fd_move_construct y x"
| "var_exec os (Move_assign y x) = fd_move_assign os y x"
| "var_exec os (Adopt y x domain type) = sock_adopt os y x domain type"
| "var_exec os (Accept_to y x) = accept_to os y x"
| "var_exec os (Destroy x) = fd_destroy os x"
| "var_exec os (Use x c) = bindM (handle x) (\<lambda>r. on_world (member os c r))"

text \<open>The states of a program that catches what its calls throw and goes on.\<close>

inductive var_reachable :: "('k, 'y) sock_os_scheme \<Rightarrow> ('k, 'z) world_scheme \<times> fd_vars \<Rightarrow> bool" for os where
    start: "fd_heap s = Map.empty \<Longrightarrow> var_reachable os (s, Map.empty)"
  | call: "var_reachable os c \<Longrightarrow> var_exec os op c = (x, c') \<Longrightarrow> var_reachable os c'"

text \<open>
  The analysis: which names are alive and which of them hold a descriptor (\<open>True\<close>) or were moved
  from (\<open>False\<close>), along a program whose calls return; no result means that it is rejected.
\<close>

fun flow :: "var_op \<Rightarrow> (nat \<rightharpoonup> bool) \<Rightarrow> (nat \<rightharpoonup> bool) option" where
  "flow (Construct y n) A = (if A y = None then Some (A(y \<mapsto> True)) else None)"
| "flow (Construct_socket y domain type) A = (if A y = None then Some (A(y \<mapsto> True)) else None)"
| "flow (Duplicate_to y x) A = (if A x \<noteq> None \<and> A y = None then Some (A(y := A x)) else None)"
| "flow (Move_construct y x) A = (if A x \<noteq> None \<and> A y = None then Some (A(x \<mapsto> False, y := A x)) else None)"
| "flow (Move_assign y x) A = (if A x \<noteq> None \<and> A y \<noteq> None then Some (A(x \<mapsto> False, y := A x)) else None)"
| "flow (Adopt y x domain type) A = (if A x = Some True \<and> A y = None then Some (A(x \<mapsto> False, y \<mapsto> True)) else None)"
| "flow (Accept_to y x) A = (if A x = Some True \<and> A y = None then Some (A(y \<mapsto> True)) else None)"
| "flow (Destroy x) A = (if A x \<noteq> None then Some (A(x := None)) else None)"
| "flow (Use x c) A = (if A x = Some True then Some A else None)"

fun flows :: "var_op list \<Rightarrow> (nat \<rightharpoonup> bool) \<Rightarrow> (nat \<rightharpoonup> bool) option" where
  "flows [] A = Some A"
| "flows (op # ops) A = Option.bind (flow op A) (flows ops)"

definition abs_vars :: "fd_vars \<Rightarrow> (nat \<rightharpoonup> bool)" where
  "abs_vars V = (\<lambda>x. map_option (\<lambda>p. p \<noteq> None) (V x))"

section \<open>Counting owners\<close>

definition owners :: "fd_vars \<Rightarrow> nat \<Rightarrow> nat" where
  "owners V r = card {x. V x = Some (Some r)}"

definition scope_inv :: "('k, 'z) world_scheme \<times> fd_vars \<Rightarrow> bool" where
  "scope_inv = (\<lambda>(s, V). finite (dom V) \<and> same_uses (owners V) s)"

lemma finite_holders: "finite (dom V) \<Longrightarrow> finite {x. V x = Some (Some r)}"
  by (rule finite_subset [of _ "dom V"]) auto

lemma owners_null: "V x = None \<or> V x = Some None \<Longrightarrow> p = None \<or> p = Some None \<Longrightarrow> owners (V(x := p)) = owners V"
  unfolding owners_def by (rule ext, rule arg_cong [of _ _ card]) auto

lemma owners_gain:
  assumes "finite (dom V)" and "V x = None \<or> V x = Some None"
  shows "owners (V(x \<mapsto> Some r)) = (owners V)(r := Suc (owners V r))"
proof
  fix q
  have "{y. (V(x \<mapsto> Some r)) y = Some (Some q)} = (if q = r then insert x {y. V y = Some (Some q)} else {y. V y = Some (Some q)})"
    using assms(2) by auto
  then show "owners (V(x \<mapsto> Some r)) q = ((owners V)(r := Suc (owners V r))) q"
    using assms finite_holders [OF assms(1), of q] by (auto simp: owners_def)
qed

lemma owners_lose:
  assumes "finite (dom V)" and "V x = Some (Some r)" and "p = None \<or> p = Some None"
  shows "owners (V(x := p)) = (owners V)(r := owners V r - 1)" and "0 < owners V r"
proof -
  let ?W = "V(x := p)"
  have "V = ?W(x \<mapsto> Some r)" using assms(2) by auto
  moreover have "owners (?W(x \<mapsto> Some r)) = (owners ?W)(r := Suc (owners ?W r))"
    using assms by (intro owners_gain) auto
  ultimately have "owners V = (owners ?W)(r := Suc (owners ?W r))" by simp
  then show "owners ?W = (owners V)(r := owners V r - 1)" "0 < owners V r"
    by (simp_all add: fun_eq_iff)
qed

lemma owners_positive: "finite (dom V) \<Longrightarrow> 0 < owners V r \<longleftrightarrow> (\<exists>x. V x = Some (Some r))"
  using finite_holders [of V r] by (auto simp: owners_def card_gt_0_iff)

lemma owners_empty [simp]: "owners Map.empty = (\<lambda>_. 0)"
  by (simp add: owners_def fun_eq_iff)


lemma defined_member: "0 < U r \<Longrightarrow> defined (same_uses U) (member os c r)"
  by (cases c) (auto intro!: defined_intro)


section \<open>Steps\<close>

text \<open>A step keeps the count of owners, and ends as the analysis says if that accepts it.\<close>

definition outcome_ok :: "(nat \<rightharpoonup> bool) option \<Rightarrow> unit result \<times> ('k, 'z) world_scheme \<times> fd_vars \<Rightarrow> bool" where
  "outcome_ok \<phi> = (\<lambda>(x, s, V). scope_inv (s, V) \<and> (\<forall>A. \<phi> = Some A \<longrightarrow>
     (case x of Inl e \<Rightarrow> is_exception e | Inr _ \<Rightarrow> abs_vars V = A)))"

definition sound :: "((nat \<rightharpoonup> bool) \<Rightarrow> (nat \<rightharpoonup> bool) option) \<Rightarrow> (('k, 'z) world_scheme \<times> fd_vars, unit) em \<Rightarrow> bool" where
  "sound \<phi> m \<longleftrightarrow> (\<forall>s V. finite (dom V) \<longrightarrow> same_uses (owners V) s \<longrightarrow> outcome_ok (\<phi> (abs_vars V)) (m (s, V)))"

lemma soundI:
  "(\<And>s V. finite (dom V) \<Longrightarrow> same_uses (owners V) s \<Longrightarrow> outcome_ok (\<phi> (abs_vars V)) (m (s, V))) \<Longrightarrow> sound \<phi> m"
  by (simp add: sound_def)

lemma soundD: "sound \<phi> m \<Longrightarrow> scope_inv (s, V) \<Longrightarrow> outcome_ok (\<phi> (abs_vars V)) (m (s, V))"
  by (simp add: sound_def scope_inv_def)

lemma outcome_okI:
  "finite (dom V) \<Longrightarrow> same_uses (owners V) s \<Longrightarrow> \<phi> = None \<Longrightarrow> outcome_ok \<phi> (x, (s, V))"
  "finite (dom V) \<Longrightarrow> same_uses (owners V) s \<Longrightarrow> (\<And>A. \<phi> = Some A \<Longrightarrow> abs_vars V = A) \<Longrightarrow> outcome_ok \<phi> (Inr (), (s, V))"
  by (simp_all add: outcome_ok_def scope_inv_def)

lemma abs_vars_simps [simp]:
  "abs_vars (V(x \<mapsto> p)) = (abs_vars V)(x \<mapsto> p \<noteq> None)" "abs_vars (V(x := None)) = (abs_vars V)(x := None)"
  "abs_vars V x = None \<longleftrightarrow> V x = None" "abs_vars V x = Some True \<longleftrightarrow> (\<exists>r. V x = Some (Some r))"
  "abs_vars V x = Some False \<longleftrightarrow> V x = Some None"
  by (auto simp: abs_vars_def fun_eq_iff)

lemma abs_vars_Some: "V x = Some p \<Longrightarrow> abs_vars V x = Some (p \<noteq> None)"
  by (simp add: abs_vars_def)

lemmas var_simps = lifetime_error_def throwM_apply bindM_apply handle_def

lemma live_owner: "finite (dom V) \<Longrightarrow> V x = Some (Some r) \<Longrightarrow> 0 < owners V r"
  using owners_positive by blast

text \<open>A declaration whose constructor adds one owner or throws.\<close>

lemma declare_outcome:
  assumes "finite (dom V)" and "V y = None"
    and "case mk s of (Inl e, s') \<Rightarrow> same_uses (owners V) s' \<and> is_exception e
      | (Inr r, s') \<Rightarrow> same_uses ((owners V)(r := Suc (owners V r))) s'"
  shows "outcome_ok (Some ((abs_vars V)(y \<mapsto> True))) (declare_var y mk (s, V))"
  using assms owners_gain [OF assms(1), of y]
  by (auto simp: declare_var_def outcome_ok_def scope_inv_def split: prod.splits sum.splits)

lemma declare_gains:
  assumes "V y = None \<Longrightarrow> gains (owners V) mk" and "finite (dom V)" and "same_uses (owners V) s"
  shows "outcome_ok (if V y = None then Some ((abs_vars V)(y \<mapsto> True)) else None) (declare_var y mk (s, V))"
proof (cases "V y = None")
  case True
  have "outcome_ok (Some ((abs_vars V)(y \<mapsto> True))) (declare_var y mk (s, V))"
    by (rule declare_outcome [OF assms(2) True]) (use assms True in \<open>simp add: gains_def\<close>)
  with True show ?thesis by simp
next
  case False
  with assms show ?thesis by (simp add: declare_var_def var_simps outcome_okI)
qed

lemma sound_construct: "sound (flow (Construct y n)) (fd_construct y n)"
  by (rule soundI, drule (1) declare_gains [OF gains_fd_make, where y = y]) (simp add: fd_construct_def if_distrib cong: if_cong)

lemma sound_sock_construct: "sound (flow (Construct_socket y domain type)) (sock_construct os y domain type)"
  by (rule soundI, drule (1) declare_gains [OF gains_sock_make, where y = y]) (simp add: sock_construct_def if_distrib cong: if_cong)

lemma sound_duplicate: "sound (flow (Duplicate_to y x)) (fd_duplicate_to y x)"
proof (rule soundI)
  fix s :: "('a, 'b) world_scheme" and V
  assume V: "finite (dom V)" "same_uses (owners V) s"
  consider "V x = None" | "V x = Some None" | r where "V x = Some (Some r)"
    by (cases "V x") auto
  then show "outcome_ok (flow (Duplicate_to y x) (abs_vars V)) (fd_duplicate_to y x (s, V))"
  proof cases
    case 3
    then show ?thesis
      using declare_gains [OF gains_fd_duplicate [of "owners V" r, OF live_owner [OF V(1) 3]] V, of y]
      by (auto simp: fd_duplicate_to_def abs_vars_Some split: if_splits)
  qed (use V in \<open>auto simp: fd_duplicate_to_def var_simps owners_null abs_vars_Some intro!: outcome_okI\<close>)
qed

lemma owners_move:
  assumes "finite (dom V)" and "V x = Some p" and "V y = None \<or> V y = Some None" and "x \<noteq> y"
  shows "owners (V(x \<mapsto> None, y \<mapsto> p)) = owners V"
proof (cases p)
  case None
  with assms show ?thesis by (simp add: owners_null)
next
  case (Some r)
  have "owners (V(x \<mapsto> None)) = (owners V)(r := owners V r - 1)" "0 < owners V r"
    using owners_lose [of V x r "Some None"] assms Some by simp_all
  moreover have "owners (V(x \<mapsto> None, y \<mapsto> Some r)) = (owners (V(x \<mapsto> None)))(r := Suc (owners (V(x \<mapsto> None)) r))"
    by (rule owners_gain) (use assms in auto)
  ultimately show ?thesis using Some by (simp add: fun_eq_iff)
qed

lemma sound_move_construct: "sound (flow (Move_construct y x)) (fd_move_construct y x)"
proof (rule soundI)
  fix s :: "('a, 'b) world_scheme" and V
  assume V: "finite (dom V)" "same_uses (owners V) s"
  show "outcome_ok (flow (Move_construct y x) (abs_vars V)) (fd_move_construct y x (s, V))"
  proof (cases "V x")
    case None
    with V show ?thesis by (simp add: fd_move_construct_def var_simps outcome_okI)
  next
    case (Some p)
    show ?thesis
    proof (cases "V y = None")
      case True
      then have "owners (V(x \<mapsto> None, y \<mapsto> p)) = owners V" using owners_move [OF V(1) Some, of y] Some by (cases "x = y") simp_all
      with V True Some show ?thesis
        using abs_vars_Some [of V x] by (auto simp: fd_move_construct_def intro!: outcome_okI)
    qed (use V Some in \<open>simp add: fd_move_construct_def var_simps outcome_okI\<close>)
  qed
qed

text \<open>The variable that held \<open>old\<close> no longer does: its share is given up.\<close>

lemma release_outcome:
  assumes "finite (dom W)" and "same_uses U s" and "case old of None \<Rightarrow> owners W = U | Some r \<Rightarrow> 0 < U r \<and> owners W = U(r := U r - 1)"
    and "\<And>A. \<phi> = Some A \<Longrightarrow> abs_vars W = A"
  shows "outcome_ok \<phi> (release_ptr os old (s, W))"
proof (cases old)
  case None
  with assms show ?thesis by (simp add: release_ptr_def returnM_apply outcome_okI)
next
  case (Some r)
  with assms(2,3) obtain s' where "fd_release os r s = (Inr (), s')" "same_uses (owners W) s'"
    using release_owner [of U s r os] by auto
  with Some assms show ?thesis by (simp add: release_ptr_def on_world_def outcome_okI)
qed

lemma sound_destroy: "sound (flow (Destroy x)) (fd_destroy os x)"
proof (rule soundI)
  fix s :: "('a, 'b) world_scheme" and V
  assume V: "finite (dom V)" "same_uses (owners V) s"
  show "outcome_ok (flow (Destroy x) (abs_vars V)) (fd_destroy os x (s, V))"
  proof (cases "V x")
    case None
    with V show ?thesis by (simp add: fd_destroy_def var_simps outcome_okI)
  next
    case (Some p)
    have "case p of None \<Rightarrow> owners (V(x := None)) = owners V
        | Some r \<Rightarrow> 0 < owners V r \<and> owners (V(x := None)) = (owners V)(r := owners V r - 1)"
      using owners_lose [OF V(1), of x _ None] owners_null [of V x None] Some by (cases p) auto
    then have "outcome_ok (flow (Destroy x) (abs_vars V)) (release_ptr os p (s, V(x := None)))"
      by (rule release_outcome [rotated 2]) (use V Some in auto)
    with Some show ?thesis by (simp add: fd_destroy_def)
  qed
qed

lemma owners_update:
  assumes "finite (dom V)" and "V y = Some old"
  shows "case old of None \<Rightarrow> owners (V(y \<mapsto> None)) = owners V
    | Some r \<Rightarrow> 0 < owners V r \<and> owners (V(y \<mapsto> None)) = (owners V)(r := owners V r - 1)"
  using owners_lose [OF assms(1), of y _ "Some None"] owners_null [of V y "Some None"] assms(2) by (cases old) auto

lemma sound_move_assign: "sound (flow (Move_assign y x)) (fd_move_assign os y x)"
proof (rule soundI)
  fix s :: "('a, 'b) world_scheme" and V
  assume V: "finite (dom V)" "same_uses (owners V) s"
  consider "V x = None \<or> V y = None" | p where "x = y" "V x = Some p" | p old where "x \<noteq> y" "V x = Some p" "V y = Some old"
    by (cases "V x"; cases "V y"; cases "x = y") auto
  then show "outcome_ok (flow (Move_assign y x) (abs_vars V)) (fd_move_assign os y x (s, V))"
  proof cases
    case 1
    with V show ?thesis
      by (cases "V x") (auto simp: fd_move_assign_def var_simps intro!: outcome_okI)
  next
    case 2
    then have "V(x \<mapsto> None, y \<mapsto> p) = V" by auto
    with 2 V show ?thesis
      by (auto simp: fd_move_assign_def release_ptr_def returnM_apply abs_vars_Some intro!: outcome_okI)
  next
    case 3
    let ?W = "V(x \<mapsto> None, y \<mapsto> p)"
    have "?W = (V(y \<mapsto> None))(x \<mapsto> None, y \<mapsto> p)" by (auto simp: fun_eq_iff)
    then have "owners ?W = owners (V(y \<mapsto> None))"
      using owners_move [of "V(y \<mapsto> None)" x p y] 3 V(1) by simp
    with owners_update [OF V(1) 3(3)]
    have "case old of None \<Rightarrow> owners ?W = owners V | Some r \<Rightarrow> 0 < owners V r \<and> owners ?W = (owners V)(r := owners V r - 1)"
      by (simp split: option.splits)
    then have "outcome_ok (flow (Move_assign y x) (abs_vars V)) (release_ptr os old (s, ?W))"
      by (rule release_outcome [rotated 2]) (use V 3 in \<open>auto simp: abs_vars_Some\<close>)
    with 3 show ?thesis by (simp add: fd_move_assign_def)
  qed
qed

lemma no_handle: "\<nexists>r. V x = Some (Some r) \<Longrightarrow> \<exists>e. handle x (s, V) = (Inl e, (s, V))"
  by (auto simp: var_simps split: option.splits)

lemma sound_accept: "sound (flow (Accept_to y x)) (accept_to os y x)"
proof (rule soundI)
  fix s :: "('a, 'b) world_scheme" and V
  assume V: "finite (dom V)" "same_uses (owners V) s"
  show "outcome_ok (flow (Accept_to y x) (abs_vars V)) (accept_to os y x (s, V))"
  proof (cases "V y = None \<and> (\<exists>r. V x = Some (Some r))")
    case True
    then obtain r where r: "V x = Some (Some r)" "V y = None" by auto
    show ?thesis
      using declare_gains [OF gains_accept [of "owners V" r os, OF live_owner [OF V(1) r(1)]] V, of y] r
      by (simp add: accept_to_def handle_def bindM_apply)
  next
    case False
    then show ?thesis
      using V no_handle [of V x s] by (auto simp: accept_to_def bindM_apply lifetime_error_def throwM_apply intro!: outcome_okI)
  qed
qed

lemma sound_adopt: "sound (flow (Adopt y x domain type)) (sock_adopt os y x domain type)"
proof (rule soundI)
  fix s :: "('a, 'b) world_scheme" and V
  assume V: "finite (dom V)" "same_uses (owners V) s"
  show "outcome_ok (flow (Adopt y x domain type) (abs_vars V)) (sock_adopt os y x domain type (s, V))"
  proof (cases "V y = None \<and> (\<exists>r. V x = Some (Some r))")
    case True
    then obtain r where r: "V x = Some (Some r)" "V y = None" by auto
    let ?W = "V(x \<mapsto> None)"
    have "owners V = (owners ?W)(r := Suc (owners ?W r))"
      using owners_lose [OF V(1) r(1), of "Some None"] by (simp add: fun_eq_iff)
    with V(2) have "same_uses ((owners ?W)(r := Suc (owners ?W r))) s" by simp
    note adopt = sock_of_fd_adopts [OF this, of os domain type]
    have "outcome_ok (Some ((abs_vars ?W)(y \<mapsto> True))) (declare_var y (sock_of_fd os r domain type) (s, ?W))"
      by (rule declare_outcome) (use V r adopt in \<open>auto split: prod.splits sum.splits\<close>)
    with r show ?thesis by (auto simp: sock_adopt_def handle_def bindM_apply)
  next
    case False
    then show ?thesis
      using V no_handle [of V x s] by (auto simp: sock_adopt_def bindM_apply lifetime_error_def throwM_apply intro!: outcome_okI)
  qed
qed

lemma sound_use: "sound (flow (Use x c)) (bindM (handle x) (\<lambda>r. on_world (member os c r)))"
proof (rule soundI)
  fix s :: "('a, 'b) world_scheme" and V
  assume V: "finite (dom V)" "same_uses (owners V) s"
  show "outcome_ok (flow (Use x c) (abs_vars V)) (bindM (handle x) (\<lambda>r. on_world (member os c r)) (s, V))"
  proof (cases "\<exists>r. V x = Some (Some r)")
    case True
    then obtain r where r: "V x = Some (Some r)" by auto
    obtain y s' where run: "member os c r s = (y, s')" by force
    note d = definedD [OF defined_member [of "owners V" r, OF live_owner [OF V(1) r]] V(2) run]
    show ?thesis
      using d V r run by (simp add: handle_def bindM_apply on_world_def outcome_ok_def scope_inv_def split: sum.splits)
  next
    case False
    then show ?thesis
      using V no_handle [of V x s] by (auto simp: bindM_apply intro!: outcome_okI)
  qed
qed

lemma sound_exec: "sound (flow op) (var_exec os op)"
  by (cases op) (simp_all only: var_exec.simps sound_construct sound_sock_construct sound_duplicate sound_move_construct
      sound_move_assign sound_adopt sound_accept sound_destroy sound_use)

interpretation vars: op_system "var_exec os" scope_inv for os
proof unfold_locales
  show "keeps scope_inv (var_exec os op)" for op
    unfolding keeps_def
  proof (intro allI impI)
    show "scope_inv (snd (var_exec os op c))" if "scope_inv c" for c
      using soundD [OF sound_exec [of op os], of "fst c" "snd c"] that by (auto simp: outcome_ok_def split: prod.splits)
  qed
qed

lemma reachable_scope_inv: "var_reachable os c \<Longrightarrow> scope_inv c"
proof (induction rule: var_reachable.induct)
  case (start s)
  then show ?case by (simp add: scope_inv_def same_uses_def uses_of_def fd_wf_def)
next
  case (call c op x c')
  then show ?case using keepsD [OF vars.exec_keeps] by blast
qed

lemma flows_sound:
  assumes "scope_inv (s, V)" and "flows ops (abs_vars V) = Some A" and "run_ops (var_exec os) ops (s, V) = (x, (s', V'))"
  shows "case x of Inl e \<Rightarrow> is_exception e | Inr _ \<Rightarrow> abs_vars V' = A"
  using assms
proof (induction ops arbitrary: s V x)
  case Nil
  then show ?case by (auto simp: em_simps)
next
  case (Cons op ops)
  obtain B where B: "flow op (abs_vars V) = Some B" "flows ops B = Some A"
    using Cons.prems(2) by (auto simp: bind_eq_Some_conv)
  obtain y s1 V1 where run: "var_exec os op (s, V) = (y, (s1, V1))" by (metis prod.exhaust)
  have "outcome_ok (flow op (abs_vars V)) (var_exec os op (s, V))"
    by (rule soundD [OF sound_exec Cons.prems(1)])
  then have 1: "scope_inv (s1, V1)" "case y of Inl e \<Rightarrow> is_exception e | Inr _ \<Rightarrow> abs_vars V1 = B"
    by (simp_all add: B run outcome_ok_def)
  show ?case
  proof (cases y)
    case (Inl e)
    with 1 run Cons.prems(3) show ?thesis by (auto simp: em_simps)
  next
    case (Inr u)
    obtain z c where rest: "run_ops (var_exec os) ops (s1, V1) = (z, c)" by (metis prod.exhaust)
    with Inr run Cons.prems(3) have "c = (s', V')" by (auto simp: em_simps split: sum.splits)
    with Cons.IH [OF 1(1) _ , of z] 1 Inr B rest run Cons.prems(3) show ?thesis
      by (cases z) (auto simp: em_simps)
  qed
qed

section \<open>Properties\<close>

text \<open>C6. Ownership of descriptors. A program makes descriptors and sockets in its variables, duplicates, moves,
  move-assigns, adopts, accepts, uses and destroys them in any order, and carries on after
  the exceptions it catches. In every state it can reach, each wrapper is owned by exactly as
  many variables as its use count says and by at least one, no variable holds a dead wrapper,
  and so when no variable holds a descriptor, no wrapper is left open.\<close>

theorem descriptor_variables_own:
  assumes "var_reachable os (s, V)"
  shows "(\<forall>x r. V x = Some (Some r) \<longrightarrow> (\<exists>w. fd_heap s r = Some w)) \<and>
    (\<forall>r w. fd_heap s r = Some w \<longrightarrow> fdw_uses w = card {x. V x = Some (Some r)} \<and> (\<exists>x. V x = Some (Some r))) \<and>
    ((\<forall>x. V x = None \<or> V x = Some None) \<longrightarrow> fd_heap s = Map.empty)"
proof -
  have inv: "finite (dom V)" "same_uses (owners V) s"
    using reachable_scope_inv [OF assms] by (simp_all add: scope_inv_def)
  have held: "\<exists>w. fd_heap s r = Some w" if "V x = Some (Some r)" for x r
    using live_wrapper [OF inv(2) live_owner [OF inv(1) that]] .
  have owned: "fdw_uses w = owners V r" "\<exists>x. V x = Some (Some r)" if w: "fd_heap s r = Some w" for r w
  proof -
    have "uses_of s r = owners V r" "wrapper_ok w"
      using inv(2) w by (auto simp: same_uses_def fd_wf_def)
    then show "fdw_uses w = owners V r" "\<exists>x. V x = Some (Some r)"
      using w owners_positive [OF inv(1)] by (auto simp: uses_of_def wrapper_ok_def)
  qed
  have "fd_heap s = Map.empty" if none: "\<forall>x. V x = None \<or> V x = Some None"
  proof (rule ccontr)
    assume "fd_heap s \<noteq> Map.empty"
    then obtain r w where "fd_heap s r = Some w" by (auto simp: fun_eq_iff)
    then obtain x where "V x = Some (Some r)" using owned(2) by blast
    with none show False by (metis option.distinct(1) option.inject)
  qed
  with held owned show ?thesis by (auto simp: owners_def)
qed

text \<open>A descriptor moved, shared, moved again, adopted as a socket and destroyed.\<close>

definition demo_var_world :: "(int \<times> (byte list \<times> uint32) option \<times> byte list) list world" where
  "demo_var_world = \<lparr>kern = [], errno = 0, cerr = [], fd_heap = Map.empty, fd_next = 0\<rparr>"

definition demo_var_program :: "var_op list" where
  "demo_var_program = [Construct 0 3, Move_construct 1 0, Duplicate_to 2 1, Move_assign 0 2, Move_assign 0 0,
     Adopt 3 1 AF_INET SOCK_STREAM, Use 3 (Call_listen 16), Accept_to 4 3, Destroy 0, Destroy 1]"

lemma reachable_run: "var_reachable os c \<Longrightarrow> run_ops (var_exec os) ops c = (x, c') \<Longrightarrow> var_reachable os c'"
proof (induction ops arbitrary: c x)
  case (Cons op ops)
  obtain y c1 where run: "var_exec os op c = (y, c1)" by (metis prod.exhaust)
  then have "var_reachable os c1" using Cons.prems(1) by (rule var_reachable.call [rotated])
  then show ?case
    using Cons run by (cases y; cases "run_ops (var_exec os) ops c1") (auto simp: em_simps split: sum.splits)
qed (simp add: em_simps)

lemma demo_var_run:
  "case run_ops (var_exec demo_sock_os) demo_var_program (demo_var_world, Map.empty) of (x, s, V) \<Rightarrow>
     x = Inr (replicate 10 ()) \<and> map V [0, 1, 2, 3, 4] = [None, None, Some None, Some (Some 0), Some (Some 1)]"
  by code_simp

theorem descriptor_variables_own_witness:
  "\<exists>(s :: (int \<times> (byte list \<times> uint32) option \<times> byte list) list world) V. var_reachable demo_sock_os (s, V) \<and> V 3 = Some (Some 0) \<and> V 4 = Some (Some 1) \<and>
     (\<exists>w. fd_heap s 0 = Some w \<and> fdw_uses w = card {x. V x = Some (Some 0)})"
proof -
  obtain x s V where run: "run_ops (var_exec demo_sock_os) demo_var_program (demo_var_world, Map.empty) = (x, (s, V))"
    by (metis prod.exhaust)
  have V: "V 3 = Some (Some 0)" "V 4 = Some (Some 1)"
    using demo_var_run unfolding run by simp_all
  have reach: "var_reachable demo_sock_os (s, V)"
    by (rule reachable_run [OF var_reachable.start run]) (simp add: demo_var_world_def)
  note own = descriptor_variables_own [OF reach]
  obtain w where w: "fd_heap s 0 = Some w"
    using own [THEN conjunct1, rule_format, OF V(1)] by blast
  have "fdw_uses w = card {x. V x = Some (Some 0)}"
    using own [THEN conjunct2, THEN conjunct1, rule_format, OF w] by simp
  with reach V w show ?thesis by (intro exI conjI)
qed

text \<open>C8. Accepted programs do not go wrong. If the analysis of scopes and moves accepts a program
  that starts with no objects, then over any kernel it runs to its end or to an
  exception, never into undefined behaviour: no null \<open>shared_ptr\<close> is dereferenced and no object is
  used outside its lifetime. If it runs to its end, the analysis predicts which variables
  then live and which were moved from.\<close>

theorem accepted_programs_defined:
  assumes "fd_heap s = Map.empty" and "flows ops Map.empty = Some A"
    and "run_ops (var_exec os) ops (s, Map.empty) = (x, (s', V'))"
  shows "case x of Inl e \<Rightarrow> is_exception e | Inr _ \<Rightarrow> (\<lambda>v. map_option (\<lambda>p. p \<noteq> None) (V' v)) = A"
proof -
  have "scope_inv (s, Map.empty)"
    using reachable_scope_inv [OF var_reachable.start] assms(1) by blast
  moreover have "abs_vars Map.empty = Map.empty" by (simp add: abs_vars_def)
  ultimately show ?thesis
    using flows_sound [of s Map.empty ops A os x s' V'] assms(2,3)
    unfolding abs_vars_def [symmetric] by simp
qed

theorem accepted_programs_defined_witness:
  "flows demo_var_program Map.empty = Some [2 \<mapsto> False, 3 \<mapsto> True, 4 \<mapsto> True] \<and>
   (\<exists>s V. run_ops (var_exec demo_sock_os) demo_var_program (demo_var_world, Map.empty) = (Inr (replicate 10 ()), (s, V)) \<and>
     (\<lambda>v. map_option (\<lambda>p. p \<noteq> None) (V v)) = [2 \<mapsto> False, 3 \<mapsto> True, 4 \<mapsto> True])"
proof -
  have flow: "flows demo_var_program Map.empty = Some [2 \<mapsto> False, 3 \<mapsto> True, 4 \<mapsto> True]"
    by (simp add: demo_var_program_def fun_eq_iff)
  obtain x s V where run: "run_ops (var_exec demo_sock_os) demo_var_program (demo_var_world, Map.empty) = (x, (s, V))"
    by (metis prod.exhaust)
  have x: "x = Inr (replicate 10 ())"
    using demo_var_run unfolding run by simp
  have "fd_heap demo_var_world = Map.empty" by (simp add: demo_var_world_def)
  from accepted_programs_defined [OF this flow run] show ?thesis
    using flow run x by simp
qed

end
