(* ===== verification/Doc_Examples.thy ===== *)
theory Doc_Examples
  imports Ownership
begin

text \<open>
  The programs of \<open>doctests/\<close> for sockets and addresses, which are also the examples of the
  documentation. They compose the socket, address and descriptor components; their local
  sockets are scopes. \<open>random_device\<close> and \<open>socketpair\<close> are parameters.
\<close>

section \<open>The programs\<close>

record 'k doc_os = "'k sock_os" +
  os_socketpair :: "int \<Rightarrow> int \<Rightarrow> int \<Rightarrow> ('k, int \<times> int) syscall"

definition bytes_of :: "string \<Rightarrow> byte list" where
  "bytes_of s = map (\<lambda>c. of_nat (of_char c)) s"

definition random_port :: "('k \<Rightarrow> uint32 \<times> 'k) \<Rightarrow> (('k, 'z) world_scheme, uint16) em" where
  "random_port rd = (\<lambda>s. case rd (kern s) of (x, k) \<Rightarrow> (Inr (ucast (x mod 50000 + 1025)), s\<lparr>kern := k\<rparr>))"

text \<open>\<open>read()\<close> and \<open>recv()\<close> with their default arguments.\<close>

definition read_default :: size_t where
  "read_default = - 1"

definition wrong_data :: exn where
  "wrong_data = Runtime_error ''wrong data received''"

definition udp_talk :: "('k, 'y) doc_os_scheme \<Rightarrow> ('k, 'x) addr_os_scheme \<Rightarrow> uint16 \<Rightarrow> (('k, 'z) world_scheme, unit) em" where
  "udp_talk os aos portnum =
     bindM (udp_make os) (\<lambda>sock1. scoped os sock1
       (bindM (addr_of_ip aos ''127.0.0.1'' portnum) (\<lambda>a.
        seqM (sock_bind os sock1 a)
        (bindM (udp_make os) (\<lambda>sock2. scoped os sock2
          (bindM (addr_of_ip aos ''127.0.0.1'' portnum) (\<lambda>a2.
           seqM (udp_sendto os sock2 a2 (bvl_of_c_string (bytes_of ''hi there'')))
           (bindM (udp_recv os sock1 65536) (\<lambda>recvd.
            seqM (sock_connect os sock1 (source_address recvd))
            (seqM (udp_send os sock1 (bvl_of_c_string (bytes_of ''hi yourself'')))
            (bindM (udp_recv os sock2 65536) (\<lambda>recvd2.
             if payload recvd \<noteq> bytes_of ''hi there'' \<or> payload recvd2 \<noteq> bytes_of ''hi yourself''
             then throwM wrong_data else returnM ()))))))))))))"

definition socket_example_1 :: "('k, 'y) doc_os_scheme \<Rightarrow> ('k, 'x) addr_os_scheme \<Rightarrow> ('k \<Rightarrow> uint32 \<times> 'k) \<Rightarrow>
    (('k, 'z) world_scheme, unit) em" where
  "socket_example_1 os aos rd = bindM (random_port rd) (udp_talk os aos)"

definition tcp_exchange :: "('k, 'y) doc_os_scheme \<Rightarrow> nat \<Rightarrow> nat \<Rightarrow> nat \<Rightarrow> (('k, 'z) world_scheme, unit) em" where
  "tcp_exchange os sock1 sock2 sock3 =
     bindM (fd_write_c_string os sock3 (bytes_of ''hi there'') True) (\<lambda>_.
     bindM (fd_read os sock2 read_default) (\<lambda>recvd.
     bindM (fd_write_c_string os sock2 (bytes_of ''hi yourself'') True) (\<lambda>_.
     bindM (fd_read os sock3 read_default) (\<lambda>recvd2.
     seqM (fd_close os sock1)
     (seqM (fd_close os sock2)
     (seqM (sock_shutdown os sock3 2)
     (if recvd \<noteq> bytes_of ''hi there'' \<or> recvd2 \<noteq> bytes_of ''hi yourself''
      then throwM wrong_data else returnM ())))))))"

definition tcp_talk :: "('k, 'y) doc_os_scheme \<Rightarrow> ('k, 'x) addr_os_scheme \<Rightarrow> uint16 \<Rightarrow> (('k, 'z) world_scheme, unit) em" where
  "tcp_talk os aos portnum =
     bindM (tcp_make os) (\<lambda>sock1. scoped os sock1
       (bindM (addr_of_ip aos ''127.0.0.1'' portnum) (\<lambda>a.
        seqM (sock_bind os sock1 a)
        (seqM (tcp_listen os sock1 1)
        (bindM (tcp_make os) (\<lambda>sock2. scoped os sock2
          (bindM (addr_of_ip aos ''127.0.0.1'' portnum) (\<lambda>a2.
           seqM (sock_connect os sock2 a2)
           (bindM (tcp_accept os sock1) (\<lambda>sock3. scoped os sock3 (tcp_exchange os sock1 sock2 sock3)))))))))))"

definition socket_example_2 :: "('k, 'y) doc_os_scheme \<Rightarrow> ('k, 'x) addr_os_scheme \<Rightarrow> ('k \<Rightarrow> uint32 \<times> 'k) \<Rightarrow>
    (('k, 'z) world_scheme, unit) em" where
  "socket_example_2 os aos rd = bindM (random_port rd) (tcp_talk os aos)"

text \<open>The conversation of the third example, on the two ends of the pair.\<close>

definition pair_talk :: "('k, 'y) doc_os_scheme \<Rightarrow> nat \<Rightarrow> nat \<Rightarrow> (('k, 'z) world_scheme, unit) em" where
  "pair_talk os pipe1 pipe2 =
     bindM (fd_write_c_string os pipe1 (bytes_of ''hi there'') True) (\<lambda>_.
     bindM (fd_read os pipe2 read_default) (\<lambda>recvd.
     bindM (fd_write_c_string os pipe2 (bytes_of ''hi yourself'') True) (\<lambda>_.
     bindM (fd_read os pipe1 read_default) (\<lambda>recvd2.
     if recvd \<noteq> bytes_of ''hi there'' \<or> recvd2 \<noteq> bytes_of ''hi yourself''
     then throwM wrong_data else returnM ()))))"

definition socket_example_3 :: "('k, 'y) doc_os_scheme \<Rightarrow> (('k, 'z) world_scheme, unit) em" where
  "socket_example_3 os =
     bindM (sys_call ''socketpair'' (os_socketpair os AF_UNIX SOCK_STREAM 0)) (\<lambda>(_, fd0, fd1).
     bindM (bindM (fd_make fd0) (local_stream_of_fd os)) (\<lambda>pipe1. scoped os pipe1
       (bindM (bindM (fd_make fd1) (local_stream_of_fd os)) (\<lambda>pipe2. scoped os pipe2
         (pair_talk os pipe1 pipe2)))))"

definition socket_dt_main :: "('k, 'y) doc_os_scheme \<Rightarrow> ('k, 'x) addr_os_scheme \<Rightarrow> ('k \<Rightarrow> uint32 \<times> 'k) \<Rightarrow>
    (('k, 'z) world_scheme, int) em" where
  "socket_dt_main os aos rd =
     catchM (seqM (socket_example_1 os aos rd) (seqM (socket_example_2 os aos rd) (seqM (socket_example_3 os) (returnM 0))))
       (\<lambda>e. if is_exception e then returnM 1 else throwM e)"

definition address_example_1 :: "('k, 'y) addr_os_scheme \<Rightarrow> (('k, 'z) sys_scheme, address) em" where
  "address_example_1 aos = addr_of_host aos ''www.google.com'' ''https''"

definition address_example_2 :: "('k, 'y) addr_os_scheme \<Rightarrow> (('k, 'z) sys_scheme, address) em" where
  "address_example_2 aos = addr_of_ip aos ''18.71.0.151'' 53"

definition address_example_3 :: "address \<Rightarrow> (('k, 'z) sys_scheme, uint32) em" where
  "address_example_3 a_dns_server = liftR (ipv4_numeric a_dns_server)"

definition address_dt_main :: "('k, 'y) addr_os_scheme \<Rightarrow> (error_category \<Rightarrow> int \<Rightarrow> string) \<Rightarrow>
    (('k, 'z) sys_scheme, int) em" where
  "address_dt_main aos message =
     catchM
       (bindM (address_example_1 aos) (\<lambda>google_webserver.
        bindM (address_example_2 aos) (\<lambda>a_dns_server.
        bindM (address_example_3 a_dns_server) (\<lambda>a_dns_server_numeric.
        bindM (addr_port aos google_webserver) (\<lambda>port.
        if port \<noteq> 443 \<or> a_dns_server_numeric \<noteq> 0x12470097
        then throwM (Runtime_error ''unexpected value'') else returnM 0)))))
       (\<lambda>e. if is_exception e
            then seqM (modifyM (\<lambda>s. s\<lparr>cerr := cerr s @ [''This test requires Internet access and working DNS.'' @ [CHR 0x0A],
              ''Error: '' @ tagged_error_what message e @ [CHR 0x0A]]\<rparr>)) (returnM 1)
            else throwM e)"

section \<open>Scopes close everything\<close>

lemma uses_random_port [keeps_intro]: "keeps (same_uses U) (random_port rd)"
  by (simp add: keeps_def random_port_def split: prod.splits)

lemma example_1_balanced [keeps_intro]: "keeps (same_uses U) (socket_example_1 os aos rd)"
  unfolding socket_example_1_def udp_talk_def by (intro keeps_intro udp.block_balanced)

lemma example_2_balanced [keeps_intro]: "keeps (same_uses U) (socket_example_2 os aos rd)"
  unfolding socket_example_2_def tcp_talk_def tcp_exchange_def by (intro keeps_intro tcp.block_balanced accepted.block_balanced)

lemma pair_talk_balanced [keeps_intro]: "keeps (same_uses U) (pair_talk os p q)"
  unfolding pair_talk_def by (intro keeps_intro)

lemma example_3_balanced [keeps_intro]: "keeps (same_uses U) (socket_example_3 os)"
  unfolding socket_example_3_def by (intro keeps_intro local_stream.block_balanced)

lemma socket_dt_main_balanced: "keeps (same_uses U) (socket_dt_main os aos rd)"
  unfolding socket_dt_main_def by (intro keeps_intro)

section \<open>A concrete kernel\<close>

text \<open>A kernel that opens sockets and refuses everything else, and a resolver that does not answer.\<close>

definition demo_doc_os :: "unit doc_os" where
  "demo_doc_os = \<lparr>os_close = (\<lambda>fd k. ((0, 0, ()), k)), os_read = (\<lambda>fd n k. ((- 1, 9, []), k)),
     os_writev = (\<lambda>fd iov k. ((- 1, 9, ()), k)), os_getfl = (\<lambda>fd k. ((2, 0, ()), k)), os_setfl = (\<lambda>fd fl k. ((0, 0, ()), k)),
     os_message = (\<lambda>_ _. ''error''), os_socket = (\<lambda>d t p k. ((3, 0, ()), k)),
     os_getsockopt = (\<lambda>fd l opt n k. ((- 1, 88, 0, 0), k)), os_setsockopt = (\<lambda>fd l opt v k. ((- 1, 88, ()), k)),
     os_getsockname = (\<lambda>fd n k. ((- 1, 88, [], 0), k)), os_getpeername = (\<lambda>fd n k. ((- 1, 88, [], 0), k)),
     os_bind = (\<lambda>fd a n k. ((- 1, 88, ()), k)), os_connect = (\<lambda>fd a n k. ((- 1, 88, ()), k)),
     os_shutdown = (\<lambda>fd h k. ((- 1, 88, ()), k)), os_recvfrom = (\<lambda>fd n fl len k. ((- 1, 88, [], [], 0), k)),
     os_sendmsg = (\<lambda>fd name iov fl k. ((- 1, 88, ()), k)), os_listen = (\<lambda>fd n k. ((- 1, 88, ()), k)),
     os_accept = (\<lambda>fd k. ((- 1, 88, ()), k)), os_socketpair = (\<lambda>d t p k. ((- 1, 97, (0, 0)), k))\<rparr>"

definition demo_no_dns :: "'k addr_os" where
  "demo_no_dns = \<lparr>os_getaddrinfo = (\<lambda>node service h k. ((- 4, None), k)), os_freeaddrinfo = (\<lambda>_ k. k),
     os_getnameinfo = (\<lambda>st sz m n flags k. ((- 4, [], []), k))\<rparr>"

definition demo_doc_world :: "unit world" where
  "demo_doc_world = \<lparr>kern = (), errno = 0, cerr = [], fd_heap = Map.empty, fd_next = 0\<rparr>"

lemma demo_doc_world_wf: "fd_wf demo_doc_world"
  by (simp add: demo_doc_world_def fd_wf_def)

section \<open>Properties\<close>

text \<open>C9. The socket examples leak nothing, whatever the kernel answers and wherever they throw: when
  \<open>main\<close> of \<open>socket_dt\<close> returns, every descriptor that an example opened has lost its wrapper
  again and every older one has the owners it had.\<close>

theorem socket_examples_no_leak:
  assumes "fd_wf s" and "socket_dt_main os aos rd s = (x, s')"
  shows "dom (fd_heap s') = dom (fd_heap s) \<and> (\<forall>r. uses_of s' r = uses_of s r)"
proof -
  have "same_uses (uses_of s) s"
    using assms(1) by (simp add: same_uses_def)
  then have s': "same_uses (uses_of s) s'"
    by (rule keepsD [OF socket_dt_main_balanced _ assms(2)])
  then have "uses_of s' r = uses_of s r" "fd_wf s'" for r
    by (simp_all add: same_uses_def)
  with assms(1) show ?thesis
    by (auto simp: dom_def uses_of_zero_iff [symmetric])
qed

text \<open>The first example opens a socket and fails in the lookup of its address; \<open>main\<close> returns \<open>EXIT_FAILURE\<close> and owns
  nothing.\<close>

lemma socket_examples_no_leak_witness:
  "fd_wf demo_doc_world \<and> (\<exists>s'. socket_dt_main demo_doc_os demo_no_dns (\<lambda>k. (0, k)) demo_doc_world = (Inr 1, s') \<and>
     dom (fd_heap s') = dom (fd_heap demo_doc_world) \<and> (\<forall>r. uses_of s' r = uses_of demo_doc_world r))"
proof -
  let ?w = "\<lparr>fdw_fd = 3, fdw_eof = False, fdw_closed = False, fdw_read_count = 0, fdw_write_count = 0, fdw_uses = 1\<rparr>"
  let ?s = "demo_doc_world\<lparr>fd_heap := [0 \<mapsto> ?w], fd_next := 1\<rparr>"
  obtain e where fails: "addr_of_ip demo_no_dns ''127.0.0.1'' 1025 s = (Inl e, s)" "is_exception e" for s :: "unit world"
    by (auto simp: addr_of_ip_def addr_resolve_def demo_no_dns_def gai_error_def is_exception_def)
  have make: "udp_make demo_doc_os demo_doc_world = (Inr 0, ?s)"
    by (simp add: udp_make_def sock_make_def em_simps sys_call_apply demo_doc_os_def demo_doc_world_def narrow_int_id
        fd_make_def fdw_make_def)
  obtain s' where "fd_release demo_doc_os 0 ?s = (Inr (), s')"
    using fd_release_last [of ?s 0 ?w demo_doc_os] by auto
  then have "\<exists>s'. socket_example_1 demo_doc_os demo_no_dns (\<lambda>k. (0, k)) demo_doc_world = (Inl e, s')"
    using make by (simp add: socket_example_1_def udp_talk_def random_port_def em_simps scoped_def releasing_def fails demo_doc_world_def)
  then have "\<exists>s'. socket_dt_main demo_doc_os demo_no_dns (\<lambda>k. (0, k)) demo_doc_world = (Inr 1, s')"
    using fails(2) by (auto simp: socket_dt_main_def em_simps)
  then show ?thesis
    using socket_examples_no_leak [OF demo_doc_world_wf] demo_doc_world_wf by blast
qed

text \<open>C31. \<open>main\<close> of \<open>address_dt\<close>, for every answer of the lookup of the web server that \<open>getaddrinfo\<close> may give to
  a request for IPv4 addresses, with a resolver that converts numeric strings: it returns 0 and
  prints nothing exactly when the lookup succeeds with port 443. When the lookup fails, has
  no results, or answers with another port, it returns 1 after two lines, the second of
  which names what went wrong.\<close>

theorem address_examples_correct:
  assumes "numeric_resolver os"
    and "os_getaddrinfo os ''www.google.com'' ''https'' \<lparr>ai_flags = 16, ai_family = 2\<rparr> (kern s) = ((err, res), k)"
    and "err = 0 \<longrightarrow> res = None \<or> res = Some (sockaddr_in q port, 16) \<and> length q = 4"
  shows "let problem = (if err \<noteq> 0 then Some (''getaddrinfo(www.google.com, https): '' @ message Gai_category err)
      else if res = None then Some ''getaddrinfo returned successfully but with no results''
      else if port \<noteq> 443 then Some ''unexpected value'' else None)
    in \<exists>s'. address_dt_main os message s = (Inr (if problem = None then 0 else 1), s') \<and>
      cerr s' = cerr s @ (case problem of None \<Rightarrow> [] | Some what \<Rightarrow>
        [''This test requires Internet access and working DNS.'' @ [CHR 0x0A], ''Error: '' @ what @ [CHR 0x0A]])"
proof -
  have host: "addr_of_host os ''www.google.com'' ''https'' s = addr_resolve os ''www.google.com'' ''https'' \<lparr>ai_flags = 16, ai_family = 2\<rparr> s"
    by (simp add: addr_of_host_def make_hints_def AI_ALL_def AF_INET_def)
  have str: "c_string ''www.google.com'' = ''www.google.com''" "c_string ''https'' = ''https''"
    by (simp_all add: c_string_def)
  note resolve = host addr_resolve_def str assms(2)
  note main = address_dt_main_def address_example_1_def em_simps is_exception_def tagged_error_what_def
  consider "err \<noteq> 0" | "err = 0" "res = None" | "err = 0" "res = Some (sockaddr_in q port, 16)" "length q = 4"
    using assms(3) by blast
  then show ?thesis
  proof cases
    case 1
    then have "addr_of_host os ''www.google.com'' ''https'' s =
        (Inl (gai_error ''getaddrinfo(www.google.com, https)'' err), s\<lparr>kern := k\<rparr>)"
      by (simp add: resolve)
    with 1 show ?thesis by (simp add: main gai_error_def)
  next
    case 2
    then have "addr_of_host os ''www.google.com'' ''https'' s =
        (Inl (Runtime_error ''getaddrinfo returned successfully but with no results''), s\<lparr>kern := k\<rparr>)"
      by (simp add: resolve)
    with 2 show ?thesis by (simp add: main)
  next
    case 3
    let ?g = "\<lparr>addr_size = 16, addr_storage = sockaddr_in q port @ replicate 112 0\<rparr>"
    obtain k1 where 1: "addr_of_host os ''www.google.com'' ''https'' s = (Inr ?g, s\<lparr>kern := k1\<rparr>)"
      using 3 by (simp add: resolve addr_of_sockaddr_in [OF 3(3)])
    have dns: "dotted [18, 71, 0, 151] = ''18.71.0.151''"
      by code_simp
    obtain a k2 where 2: "addr_of_ip os ''18.71.0.151'' 53 (s\<lparr>kern := k1\<rparr>) = (Inr a, s\<lparr>kern := k2\<rparr>)" "ipv4_numeric a = Inr 0x12470097"
      using dotted_roundtrip [OF assms(1), of "[18, 71, 0, 151]" 53 "s\<lparr>kern := k1\<rparr>"] by (auto simp: dns)
    obtain k3 where "ip_port os ?g (s\<lparr>kern := k2\<rparr>) = (Inr (dotted q, port), s\<lparr>kern := k3\<rparr>)"
      using ip_port_numeric [OF assms(1) 3(3), of port "s\<lparr>kern := k2\<rparr>"] by auto
    with 3 1 2 show ?thesis
      by (cases "port = 443") (simp_all add: main address_example_2_def address_example_3_def addr_port_def)
  qed
qed

text \<open>A resolver that converts numeric strings and knows one name.\<close>

definition demo_dns :: "unit addr_os" where
  "demo_dns = numeric_os\<lparr>os_getaddrinfo := (\<lambda>node service h k.
     if service = ''https'' then ((0, Some (sockaddr_in [142, 250, 1, 100] 443, 16)), k)
     else os_getaddrinfo numeric_os node service h k)\<rparr>"

lemma demo_dns_resolves: "numeric_resolver demo_dns"
proof -
  have "nat_to_string n \<noteq> ''https''" for n
    using digits_nat_to_string [of "CHR ''h''" n] by (auto simp: is_digit_def)
  then show ?thesis
    using numeric_os_resolves [where 'a = unit] by (simp add: numeric_resolver_def demo_dns_def)
qed

lemma address_examples_correct_witness:
  "numeric_resolver demo_dns \<and>
   (\<exists>s'. address_dt_main demo_dns (\<lambda>_ _. ''error'') \<lparr>kern = (), errno = 0, cerr = []\<rparr> = (Inr 0, s') \<and> cerr s' = [])"
proof -
  have "os_getaddrinfo demo_dns ''www.google.com'' ''https'' \<lparr>ai_flags = 16, ai_family = 2\<rparr> (kern \<lparr>kern = (), errno = 0, cerr = []\<rparr>) =
      ((0, Some (sockaddr_in [142, 250, 1, 100] 443, 16)), ())"
    by (simp add: demo_dns_def)
  from address_examples_correct [OF demo_dns_resolves this, of "[142, 250, 1, 100]" 443 "\<lambda>_ _. ''error''"]
  show ?thesis using demo_dns_resolves by (simp add: Let_def)
qed

end
