(* ===== verification/Kernel_View.thy ===== *)
theory Kernel_View
  imports Ownership
begin

text \<open>
  Two kernels, one seen through the other. The library sees the kernel only through its system
  calls, so when the calls of one kernel, looked at through a map \<open>f\<close> of its states, are those of
  another, then every operation of the library, looked at through \<open>f\<close>, is the operation over
  the other kernel. This carries runs over a kernel to the same kernel with a history of its
  calls beside it (\<open>Socket_History\<close>).
\<close>

section \<open>Views\<close>

definition agrees :: "('s \<Rightarrow> 't) \<Rightarrow> ('s, 'a) em \<Rightarrow> ('t, 'a) em \<Rightarrow> bool" where
  "agrees g m M \<longleftrightarrow> (\<forall>s. M (g s) = (case m s of (x, s') \<Rightarrow> (x, g s')))"

named_theorems agrees_intro \<open>computations that agree through a view of the state\<close>

lemma agreesD: "agrees g m M \<Longrightarrow> m s = (x, s') \<Longrightarrow> M (g s) = (x, g s')"
  by (simp add: agrees_def)

lemma agrees_basic [agrees_intro]:
  "agrees g (returnM x) (returnM x)" "agrees g (throwM e) (throwM e)" "agrees g (liftR r) (liftR r)"
  by (simp_all add: agrees_def em_simps)

lemma agrees_bindM [agrees_intro]:
  "agrees g m M \<Longrightarrow> (\<And>x. agrees g (k x) (K x)) \<Longrightarrow> agrees g (bindM m k) (bindM M K)"
  by (auto simp: agrees_def em_simps split: prod.splits sum.splits)

lemma agrees_seqM [agrees_intro]: "agrees g m M \<Longrightarrow> agrees g k K \<Longrightarrow> agrees g (seqM m k) (seqM M K)"
  unfolding seqM_def by (rule agrees_bindM)

lemma agrees_catchM [agrees_intro]:
  "agrees g m M \<Longrightarrow> (\<And>e. agrees g (h e) (H e)) \<Longrightarrow> agrees g (catchM m h) (catchM M H)"
  by (auto simp: agrees_def em_simps split: prod.splits sum.splits)

lemma agrees_if [agrees_intro]:
  "agrees g m M \<Longrightarrow> agrees g k K \<Longrightarrow> agrees g (if b then m else k) (if b then M else K)"
  by simp

lemma agrees_whenM [agrees_intro]: "agrees g m M \<Longrightarrow> agrees g (whenM b m) (whenM b M)"
  by (simp add: whenM_def agrees_basic)

lemma agrees_split [agrees_intro]:
  "(\<And>x y. agrees g (k x y) (K x y)) \<Longrightarrow> agrees g (case p of (x, y) \<Rightarrow> k x y) (case p of (x, y) \<Rightarrow> K x y)"
  by (cases p) simp

lemma agrees_sum [agrees_intro]:
  "(\<And>e. agrees g (k e) (K e)) \<Longrightarrow> (\<And>y. agrees g (l y) (L y)) \<Longrightarrow> agrees g (case_sum k l x) (case_sum K L x)"
  by (cases x) simp_all

lemma agrees_modifyM: "(\<And>s. g (k s) = K (g s)) \<Longrightarrow> agrees g (modifyM k) (modifyM K)"
  by (simp add: agrees_def em_simps)

lemma agrees_live:
  "agrees g m M \<Longrightarrow> (\<And>s. B (g s) = b s) \<Longrightarrow> agrees g (\<lambda>s. if b s then (x, s) else m s) (\<lambda>s. if B s then (x, s) else M s)"
  by (simp add: agrees_def)

section \<open>Kernels\<close>

definition view :: "('k \<Rightarrow> 'l) \<Rightarrow> 'k world \<Rightarrow> 'l world" where
  "view f s = \<lparr>kern = f (kern s), errno = errno s, cerr = cerr s, fd_heap = fd_heap s, fd_next = fd_next s\<rparr>"

definition same_call :: "('k \<Rightarrow> 'l) \<Rightarrow> ('k, 'o) syscall \<Rightarrow> ('l, 'o) syscall \<Rightarrow> bool" where
  "same_call f c C \<longleftrightarrow> (\<forall>k. C (f k) = (case c k of (out, k') \<Rightarrow> (out, f k')))"

definition fd_refines :: "('k \<Rightarrow> 'l) \<Rightarrow> ('k, 'y) fd_os_scheme \<Rightarrow> ('l, 'z) fd_os_scheme \<Rightarrow> bool" where
  "fd_refines f os ref \<longleftrightarrow> os_message os = os_message ref \<and>
     (\<forall>fd. same_call f (os_close os fd) (os_close ref fd)) \<and>
     (\<forall>fd n. same_call f (os_read os fd n) (os_read ref fd n)) \<and>
     (\<forall>fd iov. same_call f (os_writev os fd iov) (os_writev ref fd iov)) \<and>
     (\<forall>fd. same_call f (os_getfl os fd) (os_getfl ref fd)) \<and>
     (\<forall>fd fl. same_call f (os_setfl os fd fl) (os_setfl ref fd fl))"

definition sock_refines :: "('k \<Rightarrow> 'l) \<Rightarrow> ('k, 'y) sock_os_scheme \<Rightarrow> ('l, 'z) sock_os_scheme \<Rightarrow> bool" where
  "sock_refines f os ref \<longleftrightarrow> fd_refines f os ref \<and>
     (\<forall>d t p. same_call f (os_socket os d t p) (os_socket ref d t p)) \<and>
     (\<forall>fd l opt n. same_call f (os_getsockopt os fd l opt n) (os_getsockopt ref fd l opt n)) \<and>
     (\<forall>fd l opt v. same_call f (os_setsockopt os fd l opt v) (os_setsockopt ref fd l opt v)) \<and>
     (\<forall>fd n. same_call f (os_getsockname os fd n) (os_getsockname ref fd n)) \<and>
     (\<forall>fd n. same_call f (os_getpeername os fd n) (os_getpeername ref fd n)) \<and>
     (\<forall>fd a n. same_call f (os_bind os fd a n) (os_bind ref fd a n)) \<and>
     (\<forall>fd a n. same_call f (os_connect os fd a n) (os_connect ref fd a n)) \<and>
     (\<forall>fd how. same_call f (os_shutdown os fd how) (os_shutdown ref fd how)) \<and>
     (\<forall>fd n fl len. same_call f (os_recvfrom os fd n fl len) (os_recvfrom ref fd n fl len)) \<and>
     (\<forall>fd a iov fl. same_call f (os_sendmsg os fd a iov fl) (os_sendmsg ref fd a iov fl)) \<and>
     (\<forall>fd n. same_call f (os_listen os fd n) (os_listen ref fd n)) \<and>
     (\<forall>fd. same_call f (os_accept os fd) (os_accept ref fd))"

lemma fd_refinesD:
  assumes "fd_refines f os ref"
  shows "os_message os = os_message ref" "same_call f (os_close os fd) (os_close ref fd)"
    "same_call f (os_read os fd n) (os_read ref fd n)" "same_call f (os_writev os fd iov) (os_writev ref fd iov)"
    "same_call f (os_getfl os fd) (os_getfl ref fd)" "same_call f (os_setfl os fd fl) (os_setfl ref fd fl)"
  using assms by (simp_all add: fd_refines_def)

lemma sock_refinesD:
  assumes "sock_refines f os ref"
  shows "fd_refines f os ref" "same_call f (os_socket os d t p) (os_socket ref d t p)"
    "same_call f (os_getsockopt os fd l opt m) (os_getsockopt ref fd l opt m)"
    "same_call f (os_setsockopt os fd l opt v) (os_setsockopt ref fd l opt v)"
    "same_call f (os_getsockname os fd m) (os_getsockname ref fd m)" "same_call f (os_getpeername os fd m) (os_getpeername ref fd m)"
    "same_call f (os_bind os fd a m) (os_bind ref fd a m)" "same_call f (os_connect os fd a m) (os_connect ref fd a m)"
    "same_call f (os_shutdown os fd how) (os_shutdown ref fd how)"
    "same_call f (os_recvfrom os fd n how m) (os_recvfrom ref fd n how m)"
    "same_call f (os_sendmsg os fd to iov how) (os_sendmsg ref fd to iov how)"
    "same_call f (os_listen os fd how) (os_listen ref fd how)" "same_call f (os_accept os fd) (os_accept ref fd)"
  using assms by (simp_all add: sock_refines_def)

section \<open>Descriptors\<close>

lemma view_simps [simp]:
  "kern (view f s) = f (kern s)" "errno (view f s) = errno s" "cerr (view f s) = cerr s"
  "fd_heap (view f s) = fd_heap s" "fd_next (view f s) = fd_next s"
  by (simp_all add: view_def)

lemma agrees_sys_call [agrees_intro]: "same_call f c C \<Longrightarrow> agrees (view f) (sys_call attempt c) (sys_call attempt C)"
  by (auto simp: agrees_def same_call_def sys_call_apply view_def split: prod.splits)

lemma agrees_deref [agrees_intro]: "agrees (view f) (deref r) (deref r)"
  by (simp add: agrees_def deref_def split: option.splits)

lemma agrees_update_wrapper [agrees_intro]: "agrees (view f) (update_wrapper r h) (update_wrapper r h)"
  unfolding update_wrapper_def by (intro agrees_intro agrees_modifyM) (simp add: view_def)

lemma agrees_fd_make [agrees_intro]: "agrees (view f) (fd_make n) (fd_make n)"
  unfolding fd_make_def by (intro agrees_intro) (simp add: agrees_def view_def)

lemma agrees_fd_num [agrees_intro]: "agrees (view f) (fd_num r) (fd_num r)"
  unfolding fd_num_def by (intro agrees_intro)

lemma agrees_register [agrees_intro]:
  "agrees (view f) (register_read r) (register_read r)" "agrees (view f) (register_write r) (register_write r)"
  unfolding register_read_def register_write_def by (intro agrees_intro)+

lemma agrees_fd_duplicate [agrees_intro]: "agrees (view f) (fd_duplicate r) (fd_duplicate r)"
  unfolding fd_duplicate_def by (intro agrees_intro agrees_live) simp

lemma agrees_fd_close [agrees_intro]: "fd_refines f os ref \<Longrightarrow> agrees (view f) (fd_close os r) (fd_close ref r)"
  unfolding fd_close_def fdw_close_def by (intro agrees_intro fd_refinesD)

lemma agrees_fd_release [agrees_intro]:
  assumes "fd_refines f os ref"
  shows "agrees (view f) (fd_release os r) (fd_release ref r)"
proof -
  have destruct: "agrees (view f) (fdw_destruct os r) (fdw_destruct ref r)"
    unfolding fdw_destruct_def fd_refinesD(1) [OF assms] fd_close_def [symmetric]
    by (intro agrees_intro agrees_modifyM assms) (simp add: view_def)
  show ?thesis
    unfolding fd_release_def by (intro agrees_intro agrees_live destruct agrees_modifyM) (simp_all add: view_def)
qed

lemma agrees_releasing [agrees_intro]:
  "fd_refines f os ref \<Longrightarrow> agrees (view f) m M \<Longrightarrow> agrees (view f) (releasing os r m) (releasing ref r M)"
  unfolding releasing_def by (intro agrees_intro)

lemma agrees_scoped [agrees_intro]:
  "fd_refines f os ref \<Longrightarrow> agrees (view f) m M \<Longrightarrow> agrees (view f) (scoped os r m) (scoped ref r M)"
  unfolding scoped_def by (intro agrees_intro)

lemma agrees_fd_read [agrees_intro]: "fd_refines f os ref \<Longrightarrow> agrees (view f) (fd_read os r n) (fd_read ref r n)"
  unfolding fd_read_def fd_read_into_def Let_def by (intro agrees_intro fd_refinesD)

lemma agrees_fd_write_once:
  "fd_refines f os ref \<Longrightarrow> agrees (view f) (fd_write_once os r buf) (fd_write_once ref r buf)"
  unfolding fd_write_once_def by (intro agrees_intro fd_refinesD)

lemma agrees_fd_write_loop:
  assumes "fd_refines f os ref"
  shows "agrees (view f) (fd_write_loop os r all t buf) (fd_write_loop ref r all t buf)"
proof -
  have "fd_write_loop ref r all t buf (view f s) = (case fd_write_loop os r all t buf s of (x, s') \<Rightarrow> (x, view f s'))" for s
    using assms
  proof (induction os r all t buf s rule: fd_write_loop.induct)
    case (1 os r all t buf s)
    obtain x s1 where run: "fd_write_once os r buf s = (x, s1)" by force
    then have "fd_write_once ref r buf (view f s) = (x, view f s1)"
      using agreesD [OF agrees_fd_write_once [OF "1.prems"] run] by simp
    with run "1.IH" "1.prems" show ?case
      by (cases x) (auto simp: fd_write_loop.simps [of os r all t buf s] fd_write_loop.simps [of ref r all t buf "view f s"])
  qed
  then show ?thesis by (simp add: agrees_def)
qed

lemma agrees_fd_write [agrees_intro]:
  "fd_refines f os ref \<Longrightarrow> agrees (view f) (fd_write os r buf all) (fd_write ref r buf all)"
  "fd_refines f os ref \<Longrightarrow> agrees (view f) (fd_write_string os r str all) (fd_write_string ref r str all)"
  "fd_refines f os ref \<Longrightarrow> agrees (view f) (fd_write_c_string os r str all) (fd_write_c_string ref r str all)"
  unfolding fd_write_def fd_write_string_def fd_write_c_string_def by (erule agrees_fd_write_loop)+

lemma agrees_fd_set_blocking [agrees_intro]:
  "fd_refines f os ref \<Longrightarrow> agrees (view f) (fd_set_blocking os r b) (fd_set_blocking ref r b)"
  unfolding fd_set_blocking_def Let_def by (intro agrees_intro fd_refinesD)

section \<open>Sockets\<close>

lemma agrees_sock_make [agrees_intro]:
  "sock_refines f os ref \<Longrightarrow> agrees (view f) (sock_make os domain type) (sock_make ref domain type)"
  unfolding sock_make_def by (intro agrees_intro sock_refinesD)

lemma agrees_sock_of_fd [agrees_intro]:
  "sock_refines f os ref \<Longrightarrow> agrees (view f) (sock_of_fd os r domain type) (sock_of_fd ref r domain type)"
  unfolding sock_of_fd_def verify_sockopt_def by (intro agrees_intro sock_refinesD)

lemma agrees_constructors [agrees_intro]:
  assumes "sock_refines f os ref"
  shows "agrees (view f) (udp_make os) (udp_make ref)" "agrees (view f) (tcp_make os) (tcp_make ref)"
    "agrees (view f) (tcp_of_fd os r) (tcp_of_fd ref r)" "agrees (view f) (local_stream_of_fd os r) (local_stream_of_fd ref r)"
  unfolding udp_make_def tcp_make_def tcp_of_fd_def local_stream_of_fd_def by (intro agrees_intro assms)+

lemma agrees_get_address:
  "(\<And>fd n. same_call f (c fd n) (C fd n)) \<Longrightarrow> agrees (view f) (get_address r name c) (get_address r name C)"
  unfolding get_address_def by (intro agrees_intro)

lemma agrees_socket_calls [agrees_intro]:
  assumes "sock_refines f os ref"
  shows "agrees (view f) (sock_bind os r a) (sock_bind ref r a)" "agrees (view f) (sock_connect os r a) (sock_connect ref r a)"
    "agrees (view f) (sock_shutdown os r how) (sock_shutdown ref r how)" "agrees (view f) (set_reuseaddr os r) (set_reuseaddr ref r)"
    "agrees (view f) (local_address os r) (local_address ref r)" "agrees (view f) (peer_address os r) (peer_address ref r)"
    "agrees (view f) (udp_sendto os r a data) (udp_sendto ref r a data)" "agrees (view f) (udp_send os r data) (udp_send ref r data)"
    "agrees (view f) (tcp_listen os r n) (tcp_listen ref r n)" "agrees (view f) (tcp_accept os r) (tcp_accept ref r)"
  unfolding sock_bind_def sock_connect_def sock_shutdown_def set_reuseaddr_def sock_setsockopt_def local_address_def
    peer_address_def udp_sendto_def udp_send_def sendmsg_helper_def tcp_listen_def tcp_accept_def
  by (intro agrees_intro agrees_get_address sock_refinesD assms)+

lemma agrees_on_world:
  "agrees g m M \<Longrightarrow> agrees (map_prod g id) (on_world m) (on_world M)"
  by (auto simp: agrees_def on_world_def split: prod.splits)

lemma agrees_udp_recv [agrees_intro]:
  assumes ref: "sock_refines f os ref"
  shows "agrees (view f) (udp_recv os r mtu) (udp_recv ref r mtu)"
proof -
  have "agrees (map_prod (view f) id) (udp_recv_into os r mtu) (udp_recv_into ref r mtu)"
    unfolding udp_recv_into_def set_payload_def
    by (intro agrees_intro agrees_on_world agrees_modifyM sock_refinesD [OF ref]) auto
  then have into: "udp_recv_into ref r mtu (view f s, d) =
      (case udp_recv_into os r mtu (s, d) of (x, s', d') \<Rightarrow> (x, view f s', d'))" for s d
    by (auto simp: agrees_def split: prod.splits)
  show ?thesis
    unfolding udp_recv_def by (intro agrees_intro) (auto simp: agrees_def into split: prod.splits sum.splits)
qed

end
