(* ===== verification/Socket_Runs.thy ===== *)
theory Socket_Runs
  imports Doc_Examples Kernel_View
begin

text \<open>
  Successful runs. The configuration of a process is its store of handles, the next free address
  of the store and the state of the kernel; \<open>runs c m x c'\<close> says that \<open>m\<close>, started in any state of
  configuration \<open>c\<close>, returns \<open>x\<close> without an exception and ends in configuration \<open>c'\<close>. One rule per
  operation of the library reduces a run to the answers of the kernel.
\<close>

section \<open>Runs\<close>

type_synonym handles = "nat \<Rightarrow> (int \<times> bool \<times> nat) option"

text \<open>Of a wrapper: its descriptor, whether it is closed, and its owners.\<close>

definition handles :: "(nat \<Rightarrow> fd_wrapper option) \<Rightarrow> handles" where
  "handles h r = map_option (\<lambda>w. (fdw_fd w, fdw_closed w, fdw_uses w)) (h r)"

definition config :: "'k world \<Rightarrow> handles \<times> nat \<times> 'k" where
  "config s = (handles (fd_heap s), fd_next s, kern s)"

definition runs :: "handles \<times> nat \<times> 'k \<Rightarrow> ('k world, 'a) em \<Rightarrow> 'a \<Rightarrow> handles \<times> nat \<times> 'k \<Rightarrow> bool" where
  "runs c m x c' \<longleftrightarrow> (\<forall>s. config s = c \<longrightarrow> (\<exists>s'. m s = (Inr x, s') \<and> config s' = c'))"

lemma runs_returnM: "runs c (returnM x) x c"
  by (simp add: runs_def returnM_apply)

lemma runs_bindM: "runs c m x c1 \<Longrightarrow> runs c1 (f x) y c2 \<Longrightarrow> runs c (bindM m f) y c2"
  by (fastforce simp: runs_def bindM_apply)

lemma runs_seqM: "runs c m x c1 \<Longrightarrow> runs c1 k y c2 \<Longrightarrow> runs c (seqM m k) y c2"
  unfolding seqM_def by (rule runs_bindM)

lemma runs_catchM: "runs c m x c1 \<Longrightarrow> runs c (catchM m h) x c1"
  by (fastforce simp: runs_def catchM_apply)

lemma runs_wrapper:
  assumes "\<And>s w. fd_heap s r = Some w \<Longrightarrow> fdw_fd w = fd \<Longrightarrow> fdw_closed w = cl \<Longrightarrow> fdw_uses w = u \<Longrightarrow> handles (fd_heap s) = H \<Longrightarrow>
      fd_next s = n \<Longrightarrow> kern s = k \<Longrightarrow> \<exists>s'. m s = (Inr x, s') \<and> config s' = c'"
    and "H r = Some (fd, cl, u)"
  shows "runs (H, n, k) m x c'"
  unfolding runs_def
proof (intro allI impI)
  fix s assume s: "config s = (H, n, k)"
  then have "handles (fd_heap s) r = Some (fd, cl, u)" using assms(2) by (simp add: config_def)
  then obtain w where "fd_heap s r = Some w" "fdw_fd w = fd" "fdw_closed w = cl" "fdw_uses w = u"
    by (auto simp: handles_def)
  with s assms(1) show "\<exists>s'. m s = (Inr x, s') \<and> config s' = c'"
    by (simp add: config_def)
qed

lemma handles_update [simp]:
  "handles (h(r := v)) = (handles h)(r := map_option (\<lambda>w. (fdw_fd w, fdw_closed w, fdw_uses w)) v)"
  by (auto simp: handles_def fun_eq_iff)

lemma handles_same: "h r = Some w \<Longrightarrow> fdw_fd w = fd \<Longrightarrow> fdw_closed w = cl \<Longrightarrow> fdw_uses w = u \<Longrightarrow>
    (handles h)(r := Some (fd, cl, u)) = handles h"
  by (auto simp: handles_def fun_eq_iff)

section \<open>Descriptors\<close>

lemma runs_sys_call:
  "call k = ((ret, e, out), k') \<Longrightarrow> 0 \<le> ret \<Longrightarrow> ret < 2 ^ 31 \<Longrightarrow> runs (H, n, k) (sys_call attempt call) (ret, out) (H, n, k')"
  by (auto simp: runs_def config_def sys_call_apply narrow_int_id)

lemma runs_call:
  "call k = ((ret, e, out), k') \<Longrightarrow> 0 \<le> ret \<Longrightarrow> ret < 2 ^ 31 \<Longrightarrow> runs (H, n, k') (f (ret, out)) y c \<Longrightarrow>
     runs (H, n, k) (bindM (sys_call attempt call) f) y c"
  by (rule runs_bindM [OF runs_sys_call])

lemma runs_fd_make: "0 \<le> fd \<Longrightarrow> runs (H, n, k) (fd_make fd) n (H(n := Some (fd, False, 1)), Suc n, k)"
  by (auto simp: runs_def config_def fd_make_def fdw_make_def em_simps)

lemma runs_fd_num: "H r = Some (fd, cl, u) \<Longrightarrow> runs (H, n, k) (fd_num r) fd (H, n, k)"
  by (rule runs_wrapper) (auto simp: config_def fd_num_def deref_def em_simps)

lemma runs_num:
  "H r = Some (fd, cl, u) \<Longrightarrow> runs (H, n, k) (f fd) y c \<Longrightarrow> runs (H, n, k) (bindM (fd_num r) f) y c"
  by (rule runs_bindM [OF runs_fd_num])

lemma runs_register:
  "H r = Some (fd, cl, u) \<Longrightarrow> runs (H, n, k) (register_read r) () (H, n, k)"
  "H r = Some (fd, cl, u) \<Longrightarrow> runs (H, n, k) (register_write r) () (H, n, k)"
  by (rule runs_wrapper; auto simp: config_def register_read_def register_write_def update_wrapper_def deref_def em_simps handles_same)+

lemma runs_fd_close:
  assumes "H r = Some (fd, cl, u)" and "os_close os fd k = ((ret, e, ()), k')" and "0 \<le> ret" and "ret < 2 ^ 31"
  shows "runs (H, n, k) (fd_close os r) () (H(r := Some (fd, True, u)), n, k')"
  using assms
  by (intro runs_wrapper) (auto simp: config_def fd_close_def fdw_close_def update_wrapper_def deref_def em_simps sys_call_ok)

text \<open>Leaving the scope of the only handle of a wrapper.\<close>

lemma runs_scoped:
  assumes "runs c m x (H, n, k)" and "H r = Some (fd, cl, 1)"
  shows "runs c (scoped os r m) x (H(r := None), n, if cl then k else snd (os_close os fd k))"
proof -
  have "runs (H, n, k) (fd_release os r) () (H(r := None), n, if cl then k else snd (os_close os fd k))"
  proof (rule runs_wrapper [where r = r])
    fix s :: "'a world" and w
    assume s: "fd_heap s r = Some w" "fdw_fd w = fd" "fdw_closed w = cl" "fdw_uses w = 1" "handles (fd_heap s) = H" "fd_next s = n" "kern s = k"
    then obtain s' where s': "fd_release os r s = (Inr (), s')" "fd_heap s' = (fd_heap s)(r := None)" "fd_next s' = n"
        "kern s' = (if cl then k else snd (os_close os fd k))"
      using fd_release_last [of s r w os] by auto
    then have "handles (fd_heap s') = H(r := None)"
      using s(5) by (auto simp: handles_def fun_eq_iff)
    with s' show "\<exists>s'. fd_release os r s = (Inr (), s') \<and> config s' = (H(r := None), n, if cl then k else snd (os_close os fd k))"
      by (auto simp: config_def)
  qed (rule assms(2))
  then have "runs (H, n, k) (seqM (fd_release os r) (returnM x)) x (H(r := None), n, if cl then k else snd (os_close os fd k))"
    by (rule runs_seqM [OF _ runs_returnM])
  then show ?thesis
    unfolding scoped_def releasing_def by (rule runs_bindM [OF runs_catchM [OF assms(1)]])
qed

lemma runs_scoped_open:
  "runs c m x (H, n, k) \<Longrightarrow> H r = Some (fd, False, 1) \<Longrightarrow> snd (os_close os fd k) = k' \<Longrightarrow> runs c (scoped os r m) x (H(r := None), n, k')"
  and runs_scoped_closed:
  "runs c m x (H, n, k) \<Longrightarrow> H r = Some (fd, True, 1) \<Longrightarrow> runs c (scoped os r m) x (H(r := None), n, k)"
  by (fastforce dest: runs_scoped)+

lemma runs_fd_read:
  assumes "H r = Some (fd, cl, u)" and "os_read os fd 1048576 k = ((int (length d), e, d), k')" and "d \<noteq> []" and "length d \<le> 1048576"
  shows "runs (H, n, k) (fd_read os r read_default) d (H, n, k')"
proof -
  have lim: "min READ_BUFFER_SIZE (unat read_default) = 1048576"
    by (simp add: READ_BUFFER_SIZE_def read_default_def unsigned_minus_1_eq_mask mask_eq_exp_minus_1)
  have "resize (overlay d (resize [] 1048576)) (length d) = d"
    using assms(4) by (simp add: resize_def overlay_def)
  moreover have "int (length d) < 2 ^ 31" using assms(4) by simp
  ultimately show ?thesis
    unfolding fd_read_def fd_read_into_def lim Let_def
    using assms
    by (intro runs_num [where H = H] runs_call)
      (auto simp: whenM_def intro!: runs_seqM [OF runs_returnM] runs_seqM [OF runs_register(1)] runs_returnM)
qed

text \<open>A write that the kernel takes whole.\<close>

lemma c_string_views:
  assumes "0 \<notin> set d" and "length d < 2 ^ 63"
  shows "bvl_wf (bvl_of_c_string d)" "bvl_contents (bvl_of_c_string d) = d" "iovecs_bytes (bvl_as_iovecs (bvl_of_c_string d)) = d"
    "bvl_size (bvl_of_c_string d) = size_of d"
proof -
  have "\<forall>c \<in> set d. c \<noteq> 0" using assms(1) by blast
  then have "takeWhile (\<lambda>c. c \<noteq> 0) d = d" by (rule takeWhile_eq_all_conv [THEN iffD2])
  then have v: "bvl_of_c_string d = bvl_of_view d" unfolding bvl_of_c_string_def by (rule arg_cong)
  show wf: "bvl_wf (bvl_of_c_string d)" and c: "bvl_contents (bvl_of_c_string d) = d"
    using assms(2) by (simp_all add: v bvl_of_view_def bvl_contents_def bvl_wf_def fits_def)
  show "iovecs_bytes (bvl_as_iovecs (bvl_of_c_string d)) = d"
    using iovecs_of_views [OF wf] c by simp
  show "bvl_size (bvl_of_c_string d) = size_of d"
    by (simp add: bvl_size_eq c)
qed

lemma runs_fd_write:
  assumes "H r = Some (fd, cl, u)" and "os_writev os fd (bvl_as_iovecs (bvl_of_c_string d)) k = ((int (length d), e, ()), k')"
    and d: "d \<noteq> []" "length d < 2 ^ 31" "0 \<notin> set d"
  shows "runs (H, n, k) (fd_write_c_string os r d True) (size_of d) (H, n, k')"
proof -
  let ?buf = "bvl_of_c_string d"
  have small: "length d < 2 ^ 63" using d(2) by simp
  note buf = c_string_views [OF d(3) small]
  have fit: "fits d" using d(2) by (simp add: fits_def)
  have size: "sint (size_of d) = int (length d)" "size_of d \<noteq> 0" "size_of_int (int (length d)) = size_of d"
    using sint_size_of [OF small] unat_size_of [OF fit] d(1) by (auto simp: size_of_int_def size_of_def)
  obtain rest where rest: "bvl_remove_prefix (size_of d) ?buf = (Inr (), rest)" "bvl_contents rest = []"
    using bvl.drop_ok [OF buf(1), of "size_of d"] buf fit by auto
  have "runs (H, n, k) (fd_write_once os r ?buf) (size_of d, rest) (H, n, k')"
    unfolding fd_write_once_def
    using assms(1,2) d(1,2) size rest buf(4)
    by (intro runs_num [where H = H] runs_call) (auto intro!: runs_seqM [OF runs_register(2)] runs_returnM)
  then have "runs (H, n, k) (fd_write_loop os r True 0 ?buf) (size_of d) (H, n, k')"
    using rest(2) by (fastforce simp: runs_def fd_write_loop.simps [of os r True 0 ?buf] bvl_size_eq)
  then show ?thesis
    by (simp add: fd_write_c_string_def fd_write_def)
qed

section \<open>Sockets\<close>

lemma runs_num_call:
  "H r = Some (fd, cl, u) \<Longrightarrow> c fd k = ((0, e, out), k') \<Longrightarrow> runs (H, n, k') (f (0, out)) y c' \<Longrightarrow>
     runs (H, n, k) (bindM (fd_num r) (\<lambda>fd. bindM (sys_call attempt (c fd)) f)) y c'"
  by (rule runs_num, assumption, rule runs_call) simp_all

lemma runs_sock_make:
  assumes "os_socket os domain type 0 k = ((fd, e, ()), k')" and "0 \<le> fd" and "fd < 2 ^ 31"
  shows "runs (H, n, k) (sock_make os domain type) n (H(n := Some (fd, False, 1)), Suc n, k')"
  unfolding sock_make_def using assms runs_fd_make [OF assms(2), of H n k'] by (intro runs_call) auto

lemma runs_verify_sockopt:
  assumes "H r = Some (fd, cl, u)" and "os_getsockopt os fd SOL_SOCKET option 4 k = ((0, e, (expected, 4)), k')"
  shows "runs (H, n, k) (verify_sockopt os r option expected what) () (H, n, k')"
  unfolding verify_sockopt_def using assms by (intro runs_num [where H = H] runs_call) (auto intro: runs_returnM)

lemma runs_sock_of_fd:
  assumes "H r = Some (fd, cl, u)" and "os_getsockopt os fd SOL_SOCKET SO_DOMAIN 4 k = ((0, e, (domain, 4)), k1)"
    and "os_getsockopt os fd SOL_SOCKET SO_TYPE 4 k1 = ((0, e', (type, 4)), k')"
  shows "runs (H, n, k) (sock_of_fd os r domain type) r (H, n, k')"
  unfolding sock_of_fd_def releasing_def
  by (rule runs_catchM, rule runs_seqM, rule runs_verify_sockopt, rule assms, rule assms,
      rule runs_seqM, rule runs_verify_sockopt, rule assms, rule assms, rule runs_returnM)

lemma runs_simple_calls:
  assumes "H r = Some (fd, cl, u)"
  shows "os_bind os fd (addr_storage a) (addr_size a) k = ((0, e, ()), k') \<Longrightarrow> runs (H, n, k) (sock_bind os r a) () (H, n, k')"
    and "os_connect os fd (addr_storage a) (addr_size a) k = ((0, e, ()), k') \<Longrightarrow> runs (H, n, k) (sock_connect os r a) () (H, n, k')"
    and "os_listen os fd m k = ((0, e, ()), k') \<Longrightarrow> runs (H, n, k) (tcp_listen os r m) () (H, n, k')"
    and "os_shutdown os fd 2 k = ((0, e, ()), k') \<Longrightarrow> runs (H, n, k) (sock_shutdown os r 2) () (H, n, k')"
  unfolding sock_bind_def sock_connect_def tcp_listen_def sock_shutdown_def using assms
  by (rule runs_num_call; auto intro!: runs_returnM runs_seqM [OF runs_register(1)] runs_register(2))+

lemma runs_udp_send:
  assumes "H r = Some (fd, cl, u)" and d: "length d < 2 ^ 31" "0 \<notin> set d"
  shows "os_sendmsg os fd (Some (addr_storage a, addr_size a)) (bvl_as_iovecs (bvl_of_c_string d)) 0 k = ((int (length d), e, ()), k') \<Longrightarrow>
      runs (H, n, k) (udp_sendto os r a (bvl_of_c_string d)) () (H, n, k')"
    and "os_sendmsg os fd None (bvl_as_iovecs (bvl_of_c_string d)) 0 k = ((int (length d), e, ()), k') \<Longrightarrow>
      runs (H, n, k) (udp_send os r (bvl_of_c_string d)) () (H, n, k')"
proof -
  have small: "length d < 2 ^ 63" using d(1) by simp
  have send: "runs (H, n, k) (seqM (sendmsg_helper os fd to (bvl_of_c_string d)) (register_write r)) () (H, n, k')"
    if "os_sendmsg os fd to (bvl_as_iovecs (bvl_of_c_string d)) 0 k = ((int (length d), e, ()), k')" for to
  proof (rule runs_seqM)
    show "runs (H, n, k) (sendmsg_helper os fd to (bvl_of_c_string d)) () (H, n, k')"
      unfolding sendmsg_helper_def using that d(1) c_string_views(4) [OF d(2) small]
      by (intro runs_call) (auto simp: size_of_int_def size_of_def intro: runs_returnM)
    show "runs (H, n, k') (register_write r) () (H, n, k')"
      using assms(1) by (rule runs_register(2))
  qed
  show "runs (H, n, k) (udp_sendto os r a (bvl_of_c_string d)) () (H, n, k')"
    if "os_sendmsg os fd (Some (addr_storage a, addr_size a)) (bvl_as_iovecs (bvl_of_c_string d)) 0 k = ((int (length d), e, ()), k')"
    unfolding udp_sendto_def using assms(1) by (rule runs_num) (rule send [OF that])
  show "runs (H, n, k) (udp_send os r (bvl_of_c_string d)) () (H, n, k')"
    if "os_sendmsg os fd None (bvl_as_iovecs (bvl_of_c_string d)) 0 k = ((int (length d), e, ()), k')"
    unfolding udp_send_def using assms(1) by (rule runs_num) (rule send [OF that])
qed

lemma runs_udp_recv:
  assumes "H r = Some (fd, cl, u)" and "os_recvfrom os fd 65536 MSG_TRUNC 128 k = ((int (length d), e, d, sender, 16), k')"
    and "length d \<le> 65536" and "length sender = 16"
  shows "runs (H, n, k) (udp_recv os r 65536)
    \<lparr>source_address = \<lparr>addr_size = 16, addr_storage = sender @ replicate 112 0\<rparr>, payload = d\<rparr> (H, n, k')"
  using assms(1)
proof (rule runs_wrapper [rotated])
  fix s :: "'a world" and w
  assume s: "fd_heap s r = Some w" "fdw_fd w = fd" "fdw_closed w = cl" "fdw_uses w = u" "handles (fd_heap s) = H" "fd_next s = n" "kern s = k"
  have "os_recvfrom os (fdw_fd w) (unat (65536 :: size_t)) MSG_TRUNC 128 (kern s) = ((int (length d), e, d, sender, 16), k')"
    using assms(2) s by simp
  from udp_recv_success [OF s(1) _ this] show "\<exists>s'. udp_recv os r 65536 s = (Inr
      \<lparr>source_address = \<lparr>addr_size = 16, addr_storage = sender @ replicate 112 0\<rparr>, payload = d\<rparr>, s') \<and> config s' = (H, n, k')"
    using assms(1,3,4) s by (simp add: config_def fun_upd_idem)
qed

lemma runs_tcp_accept:
  assumes "H r = Some (fd, cl, u)" and "os_accept os fd k = ((m, e1, ()), k1)" and m: "0 \<le> m" "m < 2 ^ 31"
    and "os_getsockopt os m SOL_SOCKET SO_DOMAIN 4 k1 = ((0, e2, (AF_INET, 4)), k2)"
    and "os_getsockopt os m SOL_SOCKET SO_TYPE 4 k2 = ((0, e3, (SOCK_STREAM, 4)), k')"
  shows "runs (H, n, k) (tcp_accept os r) n (H(n := Some (m, False, 1)), Suc n, k')"
  unfolding tcp_accept_def tcp_of_fd_def
proof (rule runs_seqM)
  show "runs (H, n, k) (register_read r) () (H, n, k)"
    using assms(1) by (rule runs_register(1))
  have "runs (H, n, k1) (bindM (fd_make m) (\<lambda>r. sock_of_fd os r AF_INET SOCK_STREAM)) n (H(n := Some (m, False, 1)), Suc n, k')"
    by (rule runs_bindM, rule runs_fd_make [OF m(1)], rule runs_sock_of_fd) (rule fun_upd_same assms)+
  with assms(2) m show "runs (H, n, k) (bindM (fd_num r) (\<lambda>fd. bindM (sys_call ''accept'' (os_accept os fd)) (\<lambda>(n, _).
      bindM (fd_make n) (\<lambda>r. sock_of_fd os r AF_INET SOCK_STREAM)))) n (H(n := Some (m, False, 1)), Suc n, k')"
    by (intro runs_num [of H r fd cl u, OF assms(1)] runs_call) auto
qed

lemma runs_local_stream:
  assumes "0 \<le> fd" and "os_getsockopt os fd SOL_SOCKET SO_DOMAIN 4 k = ((0, e, (AF_UNIX, 4)), k1)"
    and "os_getsockopt os fd SOL_SOCKET SO_TYPE 4 k1 = ((0, e', (SOCK_STREAM, 4)), k')"
  shows "runs (H, n, k) (bindM (fd_make fd) (local_stream_of_fd os)) n (H(n := Some (fd, False, 1)), Suc n, k')"
  by (rule runs_bindM, rule runs_fd_make [OF assms(1)], unfold local_stream_of_fd_def, rule runs_sock_of_fd)
    (rule fun_upd_same assms)+

end
