(* ===== verification/Loopback.thy ===== *)
theory Loopback
  imports Socket_Runs "HOL-Library.AList"
begin

text \<open>
  A kernel to run the socket examples on: datagram and stream sockets on the loopback interface and
  local stream pairs, in the manner of the manual pages \<open>ip(7)\<close>, \<open>udp(7)\<close>, \<open>tcp(7)\<close> and
  \<open>unix(7)\<close>, with no other traffic and no signals. A call that would block fails with \<open>EAGAIN\<close>. It is
  an instance for the witness of \<open>socket_examples_converse\<close> and no part of the repository; no property
  assumes that a kernel behaves like it.
\<close>

section \<open>State\<close>

text \<open>A connection has a number and two ends, each with the bytes that have arrived there. A listening
  socket has a queue of connections, each with the address of its peer.\<close>

record sock =
  sk_domain :: int
  sk_type :: int
  sk_local :: "byte list option"
  sk_peer :: "byte list option"
  sk_inbox :: "(byte list \<times> byte list) list"
  sk_end :: "(nat \<times> bool) option"
  sk_queue :: "(nat \<times> byte list) list option"

record net =
  socks :: "(int \<times> sock) list"
  arrived :: "nat \<times> bool \<Rightarrow> byte list"
  hung_up :: "nat \<times> bool \<Rightarrow> bool"
  next_conn :: nat

definition new_sock :: "int \<Rightarrow> int \<Rightarrow> sock" where
  "new_sock domain type = \<lparr>sk_domain = domain, sk_type = type, sk_local = None, sk_peer = None, sk_inbox = [],
     sk_end = None, sk_queue = None\<rparr>"

text \<open>The lowest descriptor number that is free, after the three standard ones.\<close>

definition free_fd :: "net \<Rightarrow> int" where
  "free_fd v = hd (filter (\<lambda>n. map_of (socks v) n = None) (map int [3..<4 + length (socks v)]))"

definition put_sock :: "int \<Rightarrow> sock \<Rightarrow> net \<Rightarrow> net" where
  "put_sock fd sk v = v\<lparr>socks := AList.update fd sk (socks v)\<rparr>"

definition loopback_address :: "uint16 \<Rightarrow> byte list" where
  "loopback_address port = sockaddr_in [127, 0, 0, 1] port"

definition locals :: "net \<Rightarrow> byte list list" where
  "locals v = map the (filter (\<lambda>a. a \<noteq> None) (map (sk_local \<circ> snd) (socks v)))"

text \<open>An unused port, from the ephemeral range.\<close>

definition free_port :: "net \<Rightarrow> uint16" where
  "free_port v = hd (filter (\<lambda>p. loopback_address p \<notin> set (locals v))
     (map (\<lambda>i. 32768 + of_nat i) [0..<Suc (length (socks v))]))"

definition own_address :: "sock \<Rightarrow> net \<Rightarrow> byte list" where
  "own_address sk v = (case sk_local sk of Some a \<Rightarrow> a | None \<Rightarrow> loopback_address (free_port v))"

text \<open>The socket of a type that is bound to an address.\<close>

definition bound_to :: "int \<Rightarrow> byte list \<Rightarrow> net \<Rightarrow> (int \<times> sock) option" where
  "bound_to type a v = find (\<lambda>(fd, sk). sk_type sk = type \<and> sk_local sk = Some a) (socks v)"

section \<open>System calls\<close>

abbreviation fails :: "int \<Rightarrow> 'o \<Rightarrow> net \<Rightarrow> (int \<times> int \<times> 'o) \<times> net" where
  "fails e out v \<equiv> ((- 1, e, out), v)"

definition on_sock :: "int \<Rightarrow> 'o \<Rightarrow> (sock \<Rightarrow> (net, 'o) syscall) \<Rightarrow> (net, 'o) syscall" where
  "on_sock fd dflt h v = (case map_of (socks v) fd of None \<Rightarrow> fails 9 dflt v | Some sk \<Rightarrow> h sk v)"

definition net_socket :: "int \<Rightarrow> int \<Rightarrow> int \<Rightarrow> (net, unit) syscall" where
  "net_socket domain type protocol v = ((free_fd v, 0, ()), put_sock (free_fd v) (new_sock domain type) v)"

text \<open>\<open>close\<close> hangs up the end of the socket and the connections in its queue.\<close>

definition ends_of :: "sock \<Rightarrow> (nat \<times> bool) list" where
  "ends_of sk = (case sk_end sk of Some e \<Rightarrow> [e] | None \<Rightarrow> []) @
     (case sk_queue sk of Some q \<Rightarrow> map (\<lambda>(i, _). (i, True)) q | None \<Rightarrow> [])"

definition net_close :: "int \<Rightarrow> (net, unit) syscall" where
  "net_close fd = on_sock fd () (\<lambda>sk v. ((0, 0, ()),
     v\<lparr>socks := AList.delete fd (socks v), hung_up := (\<lambda>e. e \<in> set (ends_of sk) \<or> hung_up v e)\<rparr>))"

definition net_read :: "int \<Rightarrow> nat \<Rightarrow> (net, byte list) syscall" where
  "net_read fd n = on_sock fd [] (\<lambda>sk v. case sk_end sk of
       None \<Rightarrow> fails 107 [] v
     | Some (i, b) \<Rightarrow> let d = arrived v (i, b) in
         if d \<noteq> [] \<or> n = 0 then ((int (length (take n d)), 0, take n d), v\<lparr>arrived := (arrived v)((i, b) := drop n d)\<rparr>)
         else if hung_up v (i, \<not> b) then ((0, 0, []), v)
         else fails 11 [] v)"

definition net_writev :: "int \<Rightarrow> iovec list \<Rightarrow> (net, unit) syscall" where
  "net_writev fd iov = on_sock fd () (\<lambda>sk v. case sk_end sk of
       None \<Rightarrow> fails 107 () v
     | Some (i, b) \<Rightarrow>
         if hung_up v (i, \<not> b) then fails 32 () v
         else let d = iovecs_bytes iov in
           ((int (length d), 0, ()), v\<lparr>arrived := (arrived v)((i, \<not> b) := arrived v (i, \<not> b) @ d)\<rparr>))"

definition net_getsockopt :: "int \<Rightarrow> int \<Rightarrow> int \<Rightarrow> uint32 \<Rightarrow> (net, int \<times> uint32) syscall" where
  "net_getsockopt fd level option len = on_sock fd (0, 0) (\<lambda>sk v.
     if level = SOL_SOCKET \<and> option = SO_DOMAIN then ((0, 0, (sk_domain sk, 4)), v)
     else if level = SOL_SOCKET \<and> option = SO_TYPE then ((0, 0, (sk_type sk, 4)), v)
     else fails 92 (0, 0) v)"

definition net_bind :: "int \<Rightarrow> byte list \<Rightarrow> uint32 \<Rightarrow> (net, unit) syscall" where
  "net_bind fd addr len = on_sock fd () (\<lambda>sk v. let a = take (unat len) addr in
     if sk_local sk \<noteq> None then fails 22 () v
     else if bound_to (sk_type sk) a v \<noteq> None then fails 98 () v
     else ((0, 0, ()), put_sock fd (sk\<lparr>sk_local := Some a\<rparr>) v))"

definition net_connect :: "int \<Rightarrow> byte list \<Rightarrow> uint32 \<Rightarrow> (net, unit) syscall" where
  "net_connect fd addr len = on_sock fd () (\<lambda>sk v. let a = take (unat len) addr; own = own_address sk v in
     if sk_type sk = SOCK_DGRAM then ((0, 0, ()), put_sock fd (sk\<lparr>sk_local := Some own, sk_peer := Some a\<rparr>) v)
     else if sk_end sk \<noteq> None then fails 106 () v
     else case bound_to SOCK_STREAM a v of
       None \<Rightarrow> fails 111 () v
     | Some (lfd, l) \<Rightarrow> (case sk_queue l of
         None \<Rightarrow> fails 111 () v
       | Some q \<Rightarrow> let i = next_conn v in
           ((0, 0, ()), (put_sock fd (sk\<lparr>sk_local := Some own, sk_peer := Some a, sk_end := Some (i, False)\<rparr>)
              (put_sock lfd (l\<lparr>sk_queue := Some (q @ [(i, own)])\<rparr>) v))\<lparr>next_conn := Suc i\<rparr>)))"

definition net_shutdown :: "int \<Rightarrow> int \<Rightarrow> (net, unit) syscall" where
  "net_shutdown fd how = on_sock fd () (\<lambda>sk v. case sk_end sk of
       None \<Rightarrow> fails 107 () v
     | Some e \<Rightarrow> ((0, 0, ()), if how = 0 then v else v\<lparr>hung_up := (hung_up v)(e := True)\<rparr>))"

definition net_recvfrom :: "int \<Rightarrow> nat \<Rightarrow> int \<Rightarrow> uint32 \<Rightarrow> (net, byte list \<times> byte list \<times> uint32) syscall" where
  "net_recvfrom fd n flags len = on_sock fd ([], [], 0) (\<lambda>sk v. case sk_inbox sk of
       [] \<Rightarrow> fails 11 ([], [], 0) v
     | (source, d) # ds \<Rightarrow>
         ((if flags = MSG_TRUNC then int (length d) else int (min n (length d)), 0, take n d, take (unat len) source,
           of_nat (length source)), put_sock fd (sk\<lparr>sk_inbox := ds\<rparr>) v))"

text \<open>A connected datagram socket receives only from its peer; a datagram to nobody is lost.\<close>

definition deliver :: "byte list \<Rightarrow> byte list \<Rightarrow> byte list \<Rightarrow> net \<Rightarrow> net" where
  "deliver source dest d v = (case bound_to SOCK_DGRAM dest v of
       Some (fd, sk) \<Rightarrow> if sk_peer sk = None \<or> sk_peer sk = Some source
         then put_sock fd (sk\<lparr>sk_inbox := sk_inbox sk @ [(source, d)]\<rparr>) v else v
     | None \<Rightarrow> v)"

definition net_sendmsg :: "int \<Rightarrow> (byte list \<times> uint32) option \<Rightarrow> iovec list \<Rightarrow> int \<Rightarrow> (net, unit) syscall" where
  "net_sendmsg fd to iov flags = on_sock fd () (\<lambda>sk v.
     let d = iovecs_bytes iov; own = own_address sk v;
         dest = (case to of Some (a, len) \<Rightarrow> Some (take (unat len) a) | None \<Rightarrow> sk_peer sk)
     in if sk_type sk \<noteq> SOCK_DGRAM then fails 95 () v
        else if length d > 65507 then fails 90 () v
        else case dest of
          None \<Rightarrow> fails 89 () v
        | Some a \<Rightarrow> ((int (length d), 0, ()), deliver own a d (put_sock fd (sk\<lparr>sk_local := Some own\<rparr>) v)))"

definition net_listen :: "int \<Rightarrow> int \<Rightarrow> (net, unit) syscall" where
  "net_listen fd backlog = on_sock fd () (\<lambda>sk v.
     if sk_type sk \<noteq> SOCK_STREAM then fails 95 () v
     else ((0, 0, ()), put_sock fd (sk\<lparr>sk_local := Some (own_address sk v), sk_queue := Some []\<rparr>) v))"

definition net_accept :: "int \<Rightarrow> (net, unit) syscall" where
  "net_accept fd = on_sock fd () (\<lambda>sk v. case sk_queue sk of
       None \<Rightarrow> fails 22 () v
     | Some [] \<Rightarrow> fails 11 () v
     | Some ((i, peer) # q) \<Rightarrow> ((free_fd v, 0, ()),
         put_sock (free_fd v) ((new_sock (sk_domain sk) (sk_type sk))\<lparr>sk_local := sk_local sk, sk_peer := Some peer, sk_end := Some (i, True)\<rparr>)
           (put_sock fd (sk\<lparr>sk_queue := Some q\<rparr>) v)))"

definition net_socketpair :: "int \<Rightarrow> int \<Rightarrow> int \<Rightarrow> (net, int \<times> int) syscall" where
  "net_socketpair domain type protocol v =
     (let i = next_conn v; a = free_fd v;
          v1 = put_sock a ((new_sock domain type)\<lparr>sk_end := Some (i, False)\<rparr>) v; b = free_fd v1
      in ((0, 0, (a, b)), (put_sock b ((new_sock domain type)\<lparr>sk_end := Some (i, True)\<rparr>) v1)\<lparr>next_conn := Suc i\<rparr>))"

definition name_out :: "byte list option \<Rightarrow> uint32 \<Rightarrow> net \<Rightarrow> (int \<times> int \<times> byte list \<times> uint32) \<times> net" where
  "name_out a len v = (case a of None \<Rightarrow> fails 107 ([], 0) v
     | Some a \<Rightarrow> ((0, 0, (take (unat len) a, of_nat (length a))), v))"

definition loopback_os :: "(error_category \<Rightarrow> int \<Rightarrow> string) \<Rightarrow> net doc_os" where
  "loopback_os message = \<lparr>os_close = net_close, os_read = net_read, os_writev = net_writev,
     os_getfl = (\<lambda>fd. on_sock fd () (\<lambda>sk v. ((2, 0, ()), v))), os_setfl = (\<lambda>fd fl. on_sock fd () (\<lambda>sk v. ((0, 0, ()), v))),
     os_message = message, os_socket = net_socket, os_getsockopt = net_getsockopt,
     os_setsockopt = (\<lambda>fd l opt x. on_sock fd () (\<lambda>sk v. ((0, 0, ()), v))),
     os_getsockname = (\<lambda>fd len. on_sock fd ([], 0) (\<lambda>sk. name_out (sk_local sk) len)),
     os_getpeername = (\<lambda>fd len. on_sock fd ([], 0) (\<lambda>sk. name_out (sk_peer sk) len)),
     os_bind = net_bind, os_connect = net_connect, os_shutdown = net_shutdown, os_recvfrom = net_recvfrom,
     os_sendmsg = net_sendmsg, os_listen = net_listen, os_accept = net_accept, os_socketpair = net_socketpair\<rparr>"

definition idle :: "net \<Rightarrow> bool" where
  "idle v \<longleftrightarrow> socks v = [] \<and> (\<forall>i \<ge> next_conn v. \<forall>b. arrived v (i, b) = [] \<and> \<not> hung_up v (i, b))"

end
