(* ===== verification/Socket_History.thy ===== *)
theory Socket_History
  imports Socket_Runs
begin

text \<open>
  What a program says and hears on its sockets. The history of a kernel are the descriptors it
  opened for the program, and the bytes it took from it and stored for it on each; a
  kernel can keep it beside its own state without answering anything else than before. For a
  program that returns, one rule per operation of the library gives its part of the history,
  whatever the kernel answers.
\<close>

section \<open>Histories\<close>

datatype io = Opened int | Sent int "byte list" | Got int "byte list"

text \<open>A call adds its part to the history, which depends on what it returns, unless \<open>SystemCall\<close> reports it as failed.\<close>

definition noting :: "(int \<Rightarrow> 'o \<Rightarrow> io list) \<Rightarrow> ('k, 'o) syscall \<Rightarrow> ('k \<times> io list, 'o) syscall" where
  "noting f c = (\<lambda>(k, h). case c k of ((ret, err, out), k') \<Rightarrow>
     ((ret, err, out), (k', if 0 \<le> narrow_int ret \<or> err = 0 then h @ f (narrow_int ret) out else h)))"

text \<open>The first \<open>m\<close> bytes of a cleared buffer of \<open>n\<close> bytes in which the kernel has stored \<open>data\<close>.\<close>

definition stored :: "nat \<Rightarrow> byte list \<Rightarrow> int \<Rightarrow> byte list" where
  "stored n data m = take (nat m) (overlay data (replicate n 0))"

definition hist_os :: "('k, 'y) doc_os_scheme \<Rightarrow> ('k \<times> io list) doc_os" where
  "hist_os os = \<lparr>os_close = (\<lambda>fd. beside (os_close os fd)),
     os_read = (\<lambda>fd n. noting (\<lambda>m data. [Got fd (stored n data m)]) (os_read os fd n)),
     os_writev = (\<lambda>fd iov. noting (\<lambda>m _. [Sent fd (take (nat m) (iovecs_bytes iov))]) (os_writev os fd iov)),
     os_getfl = (\<lambda>fd. beside (os_getfl os fd)), os_setfl = (\<lambda>fd fl. beside (os_setfl os fd fl)), os_message = os_message os,
     os_socket = (\<lambda>d t p. noting (\<lambda>fd _. [Opened fd]) (os_socket os d t p)),
     os_getsockopt = (\<lambda>fd l opt n. beside (os_getsockopt os fd l opt n)),
     os_setsockopt = (\<lambda>fd l opt v. beside (os_setsockopt os fd l opt v)),
     os_getsockname = (\<lambda>fd n. beside (os_getsockname os fd n)), os_getpeername = (\<lambda>fd n. beside (os_getpeername os fd n)),
     os_bind = (\<lambda>fd a n. beside (os_bind os fd a n)), os_connect = (\<lambda>fd a n. beside (os_connect os fd a n)),
     os_shutdown = (\<lambda>fd how. beside (os_shutdown os fd how)),
     os_recvfrom = (\<lambda>fd n fl len. noting (\<lambda>m (data, from, fromlen). [Got fd (stored n data m)]) (os_recvfrom os fd n fl len)),
     os_sendmsg = (\<lambda>fd a iov fl. noting (\<lambda>m _. [Sent fd (take (nat m) (iovecs_bytes iov))]) (os_sendmsg os fd a iov fl)),
     os_listen = (\<lambda>fd n. beside (os_listen os fd n)), os_accept = (\<lambda>fd. noting (\<lambda>n _. [Opened n]) (os_accept os fd)),
     os_socketpair = (\<lambda>d t p. noting (\<lambda>_ (a, b). [Opened a, Opened b]) (os_socketpair os d t p))\<rparr>"

text \<open>The resolver is no part of the conversation.\<close>

definition hist_aos :: "('k, 'y) addr_os_scheme \<Rightarrow> ('k \<times> io list) addr_os" where
  "hist_aos aos = \<lparr>os_getaddrinfo = (\<lambda>node service h. beside (os_getaddrinfo aos node service h)),
     os_freeaddrinfo = (\<lambda>r (k, h). (os_freeaddrinfo aos r k, h)),
     os_getnameinfo = (\<lambda>st sz m n flags. beside (os_getnameinfo aos st sz m n flags))\<rparr>"

lemma hist_simps [simp]:
  "os_close (hist_os os) fd = beside (os_close os fd)" "os_read (hist_os os) fd n = noting (\<lambda>m data. [Got fd (stored n data m)]) (os_read os fd n)"
  "os_writev (hist_os os) fd iov = noting (\<lambda>m _. [Sent fd (take (nat m) (iovecs_bytes iov))]) (os_writev os fd iov)"
  "os_socket (hist_os os) d t p = noting (\<lambda>fd _. [Opened fd]) (os_socket os d t p)"
  "os_getsockopt (hist_os os) fd l opt u = beside (os_getsockopt os fd l opt u)" "os_bind (hist_os os) fd a u = beside (os_bind os fd a u)"
  "os_connect (hist_os os) fd a u = beside (os_connect os fd a u)" "os_shutdown (hist_os os) fd how = beside (os_shutdown os fd how)"
  "os_recvfrom (hist_os os) fd n how u = noting (\<lambda>m (data, from, fromlen). [Got fd (stored n data m)]) (os_recvfrom os fd n how u)"
  "os_sendmsg (hist_os os) fd dest iov how = noting (\<lambda>m _. [Sent fd (take (nat m) (iovecs_bytes iov))]) (os_sendmsg os fd dest iov how)"
  "os_listen (hist_os os) fd how = beside (os_listen os fd how)" "os_accept (hist_os os) fd = noting (\<lambda>n _. [Opened n]) (os_accept os fd)"
  "os_socketpair (hist_os os) d t p = noting (\<lambda>_ (a, b). [Opened a, Opened b]) (os_socketpair os d t p)"
  by (simp_all add: hist_os_def)

section \<open>Returning programs\<close>

text \<open>If \<open>m\<close> is started in a state that satisfies \<open>P\<close> and returns \<open>x\<close>, the state satisfies \<open>Q x\<close>.\<close>

definition returns :: "('s \<Rightarrow> bool) \<Rightarrow> ('s, 'a) em \<Rightarrow> ('a \<Rightarrow> 's \<Rightarrow> bool) \<Rightarrow> bool" where
  "returns P m Q \<longleftrightarrow> (\<forall>s x s'. P s \<longrightarrow> m s = (Inr x, s') \<longrightarrow> Q x s')"

lemma returnsD: "returns P m Q \<Longrightarrow> P s \<Longrightarrow> m s = (Inr x, s') \<Longrightarrow> Q x s'"
  by (simp add: returns_def)

lemma returns_keeps: "keeps P m \<Longrightarrow> returns P m (\<lambda>_. P)"
  unfolding returns_def using keepsD by metis

lemma returns_bindM: "returns P m Q \<Longrightarrow> (\<And>x. returns (Q x) (f x) R) \<Longrightarrow> returns P (bindM m f) R"
  by (auto simp: returns_def bindM_apply split: prod.splits sum.splits)

lemma returns_seqM: "returns P m (\<lambda>_. Q) \<Longrightarrow> returns Q k R \<Longrightarrow> returns P (seqM m k) R"
  unfolding seqM_def by (rule returns_bindM)

lemma returns_returnM: "(\<And>s. P s \<Longrightarrow> Q x s) \<Longrightarrow> returns P (returnM x) Q"
  by (simp add: returns_def returnM_apply)

lemma returns_throwM: "returns P (throwM e) Q"
  by (simp add: returns_def throwM_apply)

lemma returns_ex: "(\<And>n. B n \<Longrightarrow> returns (P n) m R) \<Longrightarrow> returns (\<lambda>s. \<exists>n. B n \<and> P n s) m R"
  by (auto simp: returns_def)

lemma returns_pure: "(B \<Longrightarrow> returns P m R) \<Longrightarrow> returns (\<lambda>s. B \<and> P s) m R"
  by (auto simp: returns_def)

lemma returns_weaken: "returns P m Q \<Longrightarrow> (\<And>x s. Q x s \<Longrightarrow> R x s) \<Longrightarrow> returns P m R"
  by (auto simp: returns_def)

section \<open>The history of the operations\<close>

text \<open>The history so far is \<open>h\<close>, and the handles in \<open>F\<close> are alive, with the descriptor numbers that \<open>F\<close> gives.\<close>

definition told :: "(nat \<Rightarrow> int option) \<Rightarrow> io list \<Rightarrow> ('k \<times> io list, 'z) world_scheme \<Rightarrow> bool" where
  "told F h s \<longleftrightarrow> fd_wf s \<and> snd (kern s) = h \<and> (\<forall>r n. F r = Some n \<longrightarrow> (\<exists>w. fd_heap s r = Some w \<and> fdw_fd w = n))"

lemma told_call [keeps_intro]: "keeps (told F h) (sys_call attempt (beside c))"
  by (auto simp: keeps_def told_def sys_call_apply beside_def fd_wf_def split: prod.splits)

lemma told_noting:
  assumes "told F h s" and "sys_call attempt (noting f c) s = (Inr (m, out), s')"
  shows "told F (h @ f m out) s'" and "- (2 ^ 31) \<le> m" and "m < 2 ^ 31"
  using assms sys_call_range [OF assms(2)]
  by (auto simp: told_def sys_call_apply noting_def fd_wf_def split: prod.splits if_splits)

lemma told_noting_bind:
  assumes "\<And>m out. - (2 ^ 31) \<le> m \<Longrightarrow> m < 2 ^ 31 \<Longrightarrow> returns (told F (h @ f m out)) (k m out) R"
  shows "returns (told F h) (bindM (sys_call attempt (noting f c)) (\<lambda>(m, out). k m out)) R"
proof (rule returns_bindM)
  show "returns (told F h) (sys_call attempt (noting f c))
      (\<lambda>x s. (- (2 ^ 31) \<le> fst x \<and> fst x < 2 ^ 31) \<and> told F (h @ f (fst x) (snd x)) s)"
    unfolding returns_def using told_noting by (metis prod.collapse)
  show "returns (\<lambda>s. (- (2 ^ 31) \<le> fst x \<and> fst x < 2 ^ 31) \<and> told F (h @ f (fst x) (snd x)) s) (case x of (m, out) \<Rightarrow> k m out) R" for x
    using assms by (cases x) (simp add: returns_pure)
qed

lemma told_update:
  "(\<And>w. wrapper_ok w \<Longrightarrow> wrapper_ok (f w) \<and> fdw_fd (f w) = fdw_fd w) \<Longrightarrow> keeps (told F h) (update_wrapper r f)"
  by (fastforce simp: keeps_def update_wrapper_def deref_def em_simps told_def fd_wf_def split: option.splits)

lemma told_register [keeps_intro]: "keeps (told F h) (register_read r)" "keeps (told F h) (register_write r)"
  unfolding register_read_def register_write_def by (rule told_update, simp add: wrapper_ok_def)+

lemma told_close [keeps_intro]: "keeps (told F h) (fd_close (hist_os os) r)"
  unfolding fd_close_def fdw_close_def hist_simps by (intro keeps_intro told_update) (simp add: wrapper_ok_def)

lemma told_quiet [keeps_intro]:
  "keeps (told F h) (sock_bind (hist_os os) r a)" "keeps (told F h) (sock_connect (hist_os os) r a)"
  "keeps (told F h) (tcp_listen (hist_os os) r n)" "keeps (told F h) (sock_shutdown (hist_os os) r how)"
  unfolding sock_bind_def sock_connect_def tcp_listen_def sock_shutdown_def hist_simps by (intro keeps_intro)+

lemma told_addr [keeps_intro]: "keeps (told F h) (addr_of_ip (hist_aos aos) ip port)"
  by (auto simp: keeps_def told_def addr_of_ip_def addr_resolve_def hist_aos_def beside_def fd_wf_def Let_def split: prod.splits option.splits)

lemma told_random [keeps_intro]: "keeps (told F h) (random_port (beside rd))"
  by (auto simp: keeps_def told_def random_port_def beside_def fd_wf_def split: prod.splits)

lemma told_num_bind:
  assumes "F r = Some n" and "returns (told F h) (k n) R"
  shows "returns (told F h) (bindM (fd_num r) k) R"
proof (rule returns_bindM)
  show "returns (told F h) (fd_num r) (\<lambda>m s. m = n \<and> told F h s)"
    using assms(1) by (fastforce simp: returns_def told_def fd_num_def deref_def em_simps split: option.splits)
  show "returns (\<lambda>s. m = n \<and> told F h s) (k m) R" for m
    using assms(2) by (auto intro: returns_pure)
qed

lemma told_fd_make: "returns (told F h) (fd_make n) (\<lambda>r s. F r = None \<and> told (F(r \<mapsto> n)) h s)"
  unfolding returns_def
proof (intro allI impI)
  fix s :: "('a \<times> io list, 'b) world_scheme" and r s'
  assume s: "told F h s" and run: "fd_make n s = (Inr r, s')"
  then have "fd_wf s'" using keepsD [OF keeps_fd_make] by (auto simp: told_def)
  moreover have r: "r = fd_next s" "n \<ge> 0" and "kern s' = kern s" "fd_heap s' = (fd_heap s)(r \<mapsto>
      \<lparr>fdw_fd = n, fdw_eof = False, fdw_closed = False, fdw_read_count = 0, fdw_write_count = 0, fdw_uses = 1\<rparr>)"
    using run by (auto simp: fd_make_def fdw_make_def em_simps split: if_splits)
  moreover have "F r = None"
    using s r(1) by (cases "F r") (force simp: told_def fd_wf_def)+
  ultimately show "F r = None \<and> told (F(r \<mapsto> n)) h s'"
    using s by (auto simp: told_def)
qed

lemma told_sock_make:
  "returns (told F h) (sock_make (hist_os os) domain type) (\<lambda>r s. \<exists>n. F r = None \<and> told (F(r \<mapsto> n)) (h @ [Opened n]) s)"
  unfolding sock_make_def hist_simps by (rule told_noting_bind, rule returns_weaken [OF told_fd_make]) blast

lemma told_sock_of_fd: "returns (told F h) (sock_of_fd (hist_os os) r domain type) (\<lambda>x s. x = r \<and> told F h s)"
proof -
  have v: "keeps (told F h) (verify_sockopt (hist_os os) r option expected what)" for option expected what
    unfolding verify_sockopt_def hist_simps by (intro keeps_intro)
  have "returns (told F h) (seqM (verify_sockopt (hist_os os) r SO_DOMAIN domain ''socket domain mismatch'')
      (seqM (verify_sockopt (hist_os os) r SO_TYPE type ''socket type mismatch'') (returnM r))) (\<lambda>x s. x = r \<and> told F h s)"
    by (rule returns_seqM [OF returns_keeps [OF v]], rule returns_seqM [OF returns_keeps [OF v]], rule returns_returnM) simp
  then show ?thesis
    unfolding sock_of_fd_def releasing_def by (auto simp: returns_def catchM_apply seqM_apply throwM_apply split: prod.splits sum.splits)
qed

lemma told_made_of_fd:
  "returns (told F h) (bindM (fd_make n) (\<lambda>r. sock_of_fd (hist_os os) r domain type)) (\<lambda>r s. F r = None \<and> told (F(r \<mapsto> n)) h s)"
  by (rule returns_bindM [OF told_fd_make], rule returns_pure) (auto intro: returns_weaken [OF told_sock_of_fd])

lemma told_accept:
  "returns (told F h) (tcp_accept (hist_os os) r) (\<lambda>r s. \<exists>n. F r = None \<and> told (F(r \<mapsto> n)) (h @ [Opened n]) s)"
  unfolding tcp_accept_def hist_simps tcp_of_fd_def
  by (rule returns_seqM [OF returns_keeps], rule told_register, rule returns_bindM [OF returns_keeps], rule keeps_fd_num,
      rule told_noting_bind, rule returns_weaken [OF told_made_of_fd]) blast

text \<open>Releasing a handle does not touch the others.\<close>

lemma told_release: "returns (told F h) (fd_release (hist_os os) r) (\<lambda>_. told (F(r := None)) h)"
  unfolding returns_def
proof (intro allI impI)
  fix s :: "('a \<times> io list, 'b) world_scheme" and u s'
  assume s: "told F h s" and run: "fd_release (hist_os os) r s = (Inr u, s')"
  have wf: "fd_wf s'" using keepsD [OF keeps_fd_release _ run] s by (simp add: told_def)
  show "told (F(r := None)) h s'"
  proof (cases "fd_heap s r")
    case None
    then show ?thesis using s run by (auto simp: told_def fd_release_def)
  next
    case (Some w)
    have quiet: "snd (snd (os_close (hist_os os) fd k)) = snd k" for fd k
      by (simp add: beside_def split: prod.splits)
    show ?thesis
    proof (cases "fdw_uses w > 1")
      case True
      then show ?thesis using fd_release_shared [OF Some True, of "hist_os os"] s run wf by (auto simp: told_def)
    next
      case False
      moreover have "wrapper_ok w" using s Some by (simp add: told_def fd_wf_def)
      ultimately have "fdw_uses w = 1" by (simp add: wrapper_ok_def)
      then show ?thesis using fd_release_last [OF Some, of "hist_os os"] s run wf quiet by (auto simp: told_def split: if_splits)
    qed
  qed
qed

lemma told_scoped:
  assumes "returns P m (\<lambda>x s. \<exists>c. C c \<and> told G c s)"
  shows "returns P (scoped (hist_os os) r m) (\<lambda>x s. \<exists>c. C c \<and> told (G(r := None)) c s)"
proof -
  have "returns P (releasing (hist_os os) r m) (\<lambda>x s. \<exists>c. C c \<and> told G c s)"
    using assms by (auto simp: returns_def releasing_def catchM_apply seqM_apply throwM_apply split: prod.splits sum.splits)
  then show ?thesis
    unfolding scoped_def
    by (rule returns_bindM) (auto intro!: returns_ex returns_seqM [OF told_release] returns_returnM)
qed

section \<open>Sending and receiving\<close>

lemma stored_resize: "0 \<le> m \<Longrightarrow> m \<le> int n \<Longrightarrow> resize (overlay data (resize [] n)) (nat m) = stored n data m"
  by (simp add: stored_def resize_def overlay_def)

lemma told_read:
  assumes "F r = Some fd"
  shows "returns (told F h) (fd_read (hist_os os) r limit) (\<lambda>d. told F (h @ [Got fd d]))"
proof -
  let ?n = "min READ_BUFFER_SIZE (unat limit)"
  have eof: "keeps (told F l) (update_wrapper r (\<lambda>w. w\<lparr>fdw_eof := True\<rparr>))" for l
    by (rule told_update) (simp add: wrapper_ok_def)
  show ?thesis
    unfolding fd_read_def fd_read_into_def Let_def hist_simps
    by (rule told_num_bind [of F r, OF assms], rule told_noting_bind, rule returns_seqM [OF returns_keeps [OF keeps_whenM [OF eof]]])
      (auto intro!: returns_throwM returns_seqM [OF returns_keeps [OF told_register(1)]] returns_returnM simp: stored_resize)
qed

lemma size_of_int_small:
  assumes "- (2 ^ 31) \<le> m" and "m < 2 ^ 31" and "unat (size_of_int m) < 2 ^ 31"
  shows "nat m = unat (size_of_int m)"
proof -
  have "m = int_of_size (size_of_int m)" using int_of_size_add [of m 0] narrow_int_id [OF assms(1,2)] by simp
  also have "\<dots> = int (unat (size_of_int m))" by (rule int_of_size_small [OF assms(3)])
  finally have "nat m = nat (int (unat (size_of_int m)))" by (rule arg_cong)
  then show ?thesis by (simp only: nat_int)
qed

lemma told_recv:
  assumes "F r = Some fd" and "unat mtu < 2 ^ 63"
  shows "returns (told F h) (udp_recv (hist_os os) r mtu) (\<lambda>d. told F (h @ [Got fd (payload d)]))"
  unfolding returns_def
proof (intro allI impI)
  fix s :: "('a \<times> io list, 'b) world_scheme" and d s'
  assume s: "told F h s" and run: "udp_recv (hist_os os) r mtu s = (Inr d, s')"
  obtain w where w: "fd_heap s r = Some w" "fdw_fd w = fd" using s assms(1) by (auto simp: told_def)
  let ?n = "unat mtu"
  define call where "call = os_recvfrom (hist_os os) fd ?n MSG_TRUNC (of_nat STORAGE_SIZE)"
  note step = udp_recv_def udp_recv_into_def em_simps on_world_def set_payload_def w call_def [symmetric]
  show "told F (h @ [Got fd (payload d)]) s'"
  proof (cases "sys_call ''recvfrom'' call s")
    case (Pair x s1)
    show ?thesis
    proof (cases x)
      case (Inl e)
      then show ?thesis using run Pair by (simp add: step del: hist_simps split: sum.splits)
    next
      case (Inr y)
      obtain m data source len where y: "y = (m, data, source, len)" by (cases y) auto
      have s1: "told F (h @ [Got fd (stored ?n data m)]) s1"
        using told_noting(1) [OF s Pair [unfolded Inr y call_def hist_simps]] by simp
      obtain z s2 where s2: "register_read r s1 = (z, s2)" by fastforce
      have "told F (h @ [Got fd (stored ?n data m)]) s2" using keepsD [OF told_register(1) s1 s2] .
      moreover have "s' = s2" "payload d = resize (overlay data (resize [] ?n)) (nat m)" "0 \<le> m" "m \<le> sint mtu"
        using run Pair Inr y s2 by (auto simp: step simp del: hist_simps split: sum.splits if_splits)
      ultimately show ?thesis using stored_resize [of m ?n data] sint_small [OF assms(2)] by simp
    qed
  qed
qed

lemma told_sendmsg:
  assumes "0 \<notin> set d" and "length d < 2 ^ 31"
  shows "returns (told F h) (sendmsg_helper (hist_os os) fd dest (bvl_of_c_string d)) (\<lambda>_. told F (h @ [Sent fd d]))"
proof -
  have small: "length d < 2 ^ 63" using assms(2) by simp
  note buf = c_string_views [OF assms(1) small]
  have "unat (size_of d) = length d" using small by (intro unat_size_of) (simp add: fits_def)
  then have all: "nat m = length d" if "size_of_int m = size_of d" "- (2 ^ 31) \<le> m" "m < 2 ^ 31" for m
    using size_of_int_small [OF that(2,3)] that(1) assms(2) by simp
  show ?thesis
    unfolding sendmsg_helper_def hist_simps buf
    by (rule told_noting_bind) (auto intro!: returns_throwM returns_returnM simp: all)
qed

lemma told_send:
  assumes "F r = Some fd" and "0 \<notin> set d" and "length d < 2 ^ 31"
  shows "returns (told F h) (udp_sendto (hist_os os) r a (bvl_of_c_string d)) (\<lambda>_. told F (h @ [Sent fd d]))"
    and "returns (told F h) (udp_send (hist_os os) r (bvl_of_c_string d)) (\<lambda>_. told F (h @ [Sent fd d]))"
  unfolding udp_sendto_def udp_send_def
  by (rule told_num_bind [of F r, OF assms(1)], rule returns_seqM [OF told_sendmsg [OF assms(2,3)] returns_keeps [OF told_register(2)]])+

text \<open>A complete \<open>write\<close> may take several calls, which together carry every byte.\<close>

lemma told_write_once:
  assumes "F r = Some fd" and "bvl_wf buf" and "length (bvl_contents buf) < 2 ^ 31"
  shows "returns (told F h) (fd_write_once (hist_os os) r buf) (\<lambda>x s. \<exists>l. (bvl_wf (snd x) \<and>
    l @ bvl_contents (snd x) = bvl_contents buf) \<and> told F (h @ [Sent fd l]) s)"
  unfolding returns_def
proof (intro allI impI)
  fix s :: "('a \<times> io list, 'b) world_scheme" and x s'
  assume s: "told F h s" and run: "fd_write_once (hist_os os) r buf s = (Inr x, s')"
  let ?c = "bvl_contents buf"
  obtain n rest where x: "x = (n, rest)" by (cases x)
  obtain w where w: "fd_heap s r = Some w" "fdw_fd w = fd" using s assms(1) by (auto simp: told_def)
  from run x have "fd_write_once (hist_os os) r buf s = (Inr (n, rest), s')" by simp
  then obtain b s2 where call: "sys_call ''writev'' (os_writev (hist_os os) fd (bvl_as_iovecs buf)) s = (Inr (b, ()), s2)"
    and reg: "register_write r s2 = (Inr (), s')" and rem: "bvl_remove_prefix (size_of_int b) buf = (Inr (), rest)"
    by (rule fd_write_onceE) (auto simp: fd_num_def em_simps w)
  note noted = told_noting [OF s call [unfolded hist_simps iovecs_of_views [OF assms(2)]]]
  have le: "unat (size_of_int b) \<le> length ?c"
    using bvl.drop_err [OF assms(2), of "size_of_int b"] rem by (cases "unat (size_of_int b) \<le> length ?c") auto
  have "nat b = unat (size_of_int b)" using size_of_int_small [OF noted(2,3)] le assms(3) by simp
  then have "bvl_wf rest" "take (nat b) ?c @ bvl_contents rest = ?c"
    using bvl.drop_ok [OF assms(2) le] rem by auto
  then show "\<exists>l. (bvl_wf (snd x) \<and> l @ bvl_contents (snd x) = ?c) \<and> told F (h @ [Sent fd l]) s'"
    using keepsD [OF told_register(2) noted(1) reg] x by auto
qed

lemma told_write_loop:
  assumes "F r = Some fd" and "bvl_wf buf" and "length (bvl_contents buf) < 2 ^ 31"
  shows "returns (told F h) (fd_write_loop (hist_os os) r True t buf) (\<lambda>_ s. \<exists>l. concat l = bvl_contents buf \<and> told F (h @ map (Sent fd) l) s)"
  using assms(2,3)
proof (induction "length (bvl_contents buf)" arbitrary: buf t h rule: less_induct)
  case less
  show ?case
    unfolding returns_def
  proof (intro allI impI)
    fix s :: "('a \<times> io list, 'b) world_scheme" and x s'
    assume s: "told F h s" and run: "fd_write_loop (hist_os os) r True t buf s = (Inr x, s')"
    obtain n rest s1 where once: "fd_write_once (hist_os os) r buf s = (Inr (n, rest), s1)"
      using run by (auto simp: fd_write_loop.simps [of _ _ _ _ buf] split: prod.splits sum.splits)
    obtain l where l: "bvl_wf rest" "l @ bvl_contents rest = bvl_contents buf" "told F (h @ [Sent fd l]) s1"
      using returnsD [OF told_write_once [of F r, OF assms(1) less.prems] s once] by auto
    have "length (bvl_contents rest) < 2 ^ 31"
      using arg_cong [OF l(2), of length] less.prems(2) by simp
    then have small: "length (bvl_contents rest) < 2 ^ 31" "fits (bvl_contents rest)" by (simp_all add: fits_def)
    show "\<exists>l. concat l = bvl_contents buf \<and> told F (h @ map (Sent fd) l) s'"
    proof (cases "bvl_size rest = 0")
      case True
      then have "bvl_contents rest = []" using unat_size_of [OF small(2)] by (simp add: bvl_size_eq)
      then show ?thesis
        using True l run once by (intro exI [of _ "[l]"]) (simp add: fd_write_loop.simps [of _ _ _ _ buf])
    next
      case False
      then have "fd_write_loop (hist_os os) r True (t + n) rest s1 = (Inr x, s')"
        using run once by (simp add: fd_write_loop.simps [of _ _ _ _ buf])
      then obtain ls where "concat ls = bvl_contents rest" "told F ((h @ [Sent fd l]) @ map (Sent fd) ls) s'"
        using returnsD [OF less.hyps [OF fd_write_once_shorter [OF once False] l(1) small(1)] l(3)] by blast
      then show ?thesis using l(2) by (intro exI [of _ "l # ls"]) simp
    qed
  qed
qed

lemma told_write:
  assumes "F r = Some fd" and "0 \<notin> set d" and "length d < 2 ^ 31"
  shows "returns (told F h) (fd_write_c_string (hist_os os) r d True) (\<lambda>_ s. \<exists>l. concat l = d \<and> told F (h @ map (Sent fd) l) s)"
proof -
  have small: "length d < 2 ^ 63" using assms(3) by simp
  note buf = c_string_views [OF assms(2) small]
  show ?thesis
    using told_write_loop [of F r, OF assms(1) buf(1)] assms(3)
    unfolding fd_write_c_string_def fd_write_def buf(2) by blast
qed

section \<open>The examples\<close>

text \<open>Their two messages, and the conversations: both sides get exactly what the other said.\<close>

definition udp_conversation :: "io list \<Rightarrow> bool" where
  "udp_conversation c \<longleftrightarrow> (\<exists>a b. c = [Opened a, Opened b, Sent b (bytes_of ''hi there''), Got a (bytes_of ''hi there''),
     Sent a (bytes_of ''hi yourself''), Got b (bytes_of ''hi yourself'')])"

definition stream_conversation :: "int \<Rightarrow> int \<Rightarrow> io list \<Rightarrow> bool" where
  "stream_conversation a b c \<longleftrightarrow> (\<exists>xs ys. c = map (Sent a) xs @ [Got b (bytes_of ''hi there'')] @
     map (Sent b) ys @ [Got a (bytes_of ''hi yourself'')] \<and> concat xs = bytes_of ''hi there'' \<and> concat ys = bytes_of ''hi yourself'')"

lemma told_skip:
  "keeps (told F h) m \<Longrightarrow> returns (told F h) k R \<Longrightarrow> returns (told F h) (seqM m k) R"
  "keeps (told F h) n \<Longrightarrow> (\<And>x. returns (told F h) (f x) R) \<Longrightarrow> returns (told F h) (bindM n f) R"
  by (rule returns_seqM [OF returns_keeps], assumption+) (rule returns_bindM [OF returns_keeps], assumption+)

lemma told_open:
  assumes "\<And>r n. F r = None \<Longrightarrow> returns (told (F(r \<mapsto> n)) (h @ [Opened n])) (f r) R"
  shows "returns (told F h) (bindM (sock_make (hist_os os) domain type) f) R" "returns (told F h) (bindM (tcp_accept (hist_os os) q) f) R"
  by (rule returns_bindM [OF told_sock_make], rule returns_ex, rule assms, assumption)
    (rule returns_bindM [OF told_accept], rule returns_ex, rule assms, assumption)

lemma told_scope:
  assumes "F r = None" and "returns (told (F(r \<mapsto> n)) h) m (\<lambda>_ s. \<exists>c. C c \<and> told (F(r \<mapsto> n)) c s)"
  shows "returns (told (F(r \<mapsto> n)) h) (scoped (hist_os os) r m) (\<lambda>_ s. \<exists>c. C c \<and> told F c s)"
proof -
  have "(F(r \<mapsto> n))(r := None) = F" using assms(1) by (auto simp: fun_eq_iff)
  with told_scoped [OF assms(2), of os r] show ?thesis by simp
qed

lemma told_check:
  "(\<not> bad \<Longrightarrow> C h) \<Longrightarrow> returns (told F h) (if bad then throwM e else returnM ()) (\<lambda>_ s. \<exists>c. C c \<and> told F c s)"
  by (auto intro: returns_throwM returns_returnM)

lemma hi_strings: "0 \<notin> set (bytes_of ''hi there'')" "0 \<notin> set (bytes_of ''hi yourself'')"
  "length (bytes_of ''hi there'') < 2 ^ 31" "length (bytes_of ''hi yourself'') < 2 ^ 31"
  by (simp_all add: bytes_of_def)

lemma udp_talk_history:
  "returns (told F h) (udp_talk (hist_os os) (hist_aos aos) p) (\<lambda>_ s. \<exists>c. (\<exists>d. c = h @ d \<and> udp_conversation d) \<and> told F c s)"
  unfolding udp_talk_def udp_make_def
proof (rule told_open(1), rule told_scope, assumption, rule told_skip(2) [OF told_addr], rule told_skip(1) [OF told_quiet(1)],
    rule told_open(1), rule told_scope, assumption, rule told_skip(2) [OF told_addr])
  fix sock1 a sock2 b a2
  let ?F = "F(sock1 \<mapsto> a, sock2 \<mapsto> b)" and ?h = "(h @ [Opened a]) @ [Opened b]"
  assume "F sock1 = None" and "(F(sock1 \<mapsto> a)) sock2 = None"
  then have F: "?F sock1 = Some a" "?F sock2 = Some b" by (auto split: if_splits)
  have mtu: "unat (65536 :: size_t) < 2 ^ 63" by simp
  show "returns (told ?F ?h)
      (seqM (udp_sendto (hist_os os) sock2 a2 (bvl_of_c_string (bytes_of ''hi there'')))
        (bindM (udp_recv (hist_os os) sock1 65536) (\<lambda>recvd.
         seqM (sock_connect (hist_os os) sock1 (source_address recvd))
         (seqM (udp_send (hist_os os) sock1 (bvl_of_c_string (bytes_of ''hi yourself'')))
         (bindM (udp_recv (hist_os os) sock2 65536) (\<lambda>recvd2.
          if payload recvd \<noteq> bytes_of ''hi there'' \<or> payload recvd2 \<noteq> bytes_of ''hi yourself''
          then throwM wrong_data else returnM ()))))))
      (\<lambda>_ s. \<exists>c. (\<exists>d. c = h @ d \<and> udp_conversation d) \<and> told ?F c s)"
    by (rule returns_seqM [OF told_send(1) [of ?F sock2, OF F(2) hi_strings(1,3)]], rule returns_bindM [OF told_recv [of ?F sock1, OF F(1) mtu]],
        rule told_skip(1) [OF told_quiet(2)], rule returns_seqM [OF told_send(2) [of ?F sock1, OF F(1) hi_strings(2,4)]],
        rule returns_bindM [OF told_recv [of ?F sock2, OF F(2) mtu]], rule told_check) (simp add: udp_conversation_def)
qed

text \<open>The exchange over a stream, as far as the reply.\<close>

lemma stream_talk_history:
  assumes "F p = Some a" and "F q = Some b"
    and "\<And>x y xs ys. concat xs = bytes_of ''hi there'' \<Longrightarrow> concat ys = bytes_of ''hi yourself'' \<Longrightarrow>
      returns (told F (h @ map (Sent a) xs @ [Got b x] @ map (Sent b) ys @ [Got a y])) (k x y) R"
  shows "returns (told F h) (bindM (fd_write_c_string (hist_os os) p (bytes_of ''hi there'') True) (\<lambda>_.
     bindM (fd_read (hist_os os) q read_default) (\<lambda>x.
     bindM (fd_write_c_string (hist_os os) q (bytes_of ''hi yourself'') True) (\<lambda>_.
     bindM (fd_read (hist_os os) p read_default) (k x))))) R"
proof (rule returns_bindM [OF told_write [of F p, OF assms(1) hi_strings(1,3)]], rule returns_ex,
    rule returns_bindM [OF told_read [of F q, OF assms(2)]],
    rule returns_bindM [OF told_write [of F q, OF assms(2) hi_strings(2,4)]], rule returns_ex,
    rule returns_bindM [OF told_read [of F p, OF assms(1)]])
  fix xs x ys y
  assume "concat xs = bytes_of ''hi there''" "concat ys = bytes_of ''hi yourself''"
  from assms(3) [OF this, of x y]
  show "returns (told F ((((h @ map (Sent a) xs) @ [Got b x]) @ map (Sent b) ys) @ [Got a y])) (k x y) R" by simp
qed

lemma told_stream_check:
  assumes "concat xs = bytes_of ''hi there''" and "concat ys = bytes_of ''hi yourself''"
  shows "returns (told F (h @ map (Sent a) xs @ [Got b x] @ map (Sent b) ys @ [Got a y]))
    (if x \<noteq> bytes_of ''hi there'' \<or> y \<noteq> bytes_of ''hi yourself'' then throwM wrong_data else returnM ())
    (\<lambda>_ s. \<exists>c. (\<exists>d. c = h @ d \<and> stream_conversation a b d) \<and> told F c s)"
  using assms by (intro told_check) (auto simp: stream_conversation_def)

lemma tcp_exchange_history:
  assumes "F sock3 = Some c" and "F sock2 = Some b"
  shows "returns (told F h) (tcp_exchange (hist_os os) sock1 sock2 sock3) (\<lambda>_ s. \<exists>l. (\<exists>d. l = h @ d \<and> stream_conversation c b d) \<and> told F l s)"
  unfolding tcp_exchange_def
  by (rule stream_talk_history [of F, OF assms], (rule told_skip(1) [OF told_close])+, rule told_skip(1) [OF told_quiet(4)], rule told_stream_check)

lemma pair_talk_history:
  assumes "F p = Some a" and "F q = Some b"
  shows "returns (told F h) (pair_talk (hist_os os) p q) (\<lambda>_ s. \<exists>l. (\<exists>d. l = h @ d \<and> stream_conversation a b d) \<and> told F l s)"
  unfolding pair_talk_def by (rule stream_talk_history [of F, OF assms], rule told_stream_check)

definition tcp_conversation :: "io list \<Rightarrow> bool" where
  "tcp_conversation c \<longleftrightarrow> (\<exists>a b d e. c = [Opened a, Opened b, Opened d] @ e \<and> stream_conversation d b e)"

definition pair_conversation :: "io list \<Rightarrow> bool" where
  "pair_conversation c \<longleftrightarrow> (\<exists>a b e. c = [Opened a, Opened b] @ e \<and> stream_conversation a b e)"

lemma tcp_talk_history:
  "returns (told F h) (tcp_talk (hist_os os) (hist_aos aos) p) (\<lambda>_ s. \<exists>c. (\<exists>d. c = h @ d \<and> tcp_conversation d) \<and> told F c s)"
  unfolding tcp_talk_def tcp_make_def
proof (rule told_open(1), rule told_scope, assumption, rule told_skip(2) [OF told_addr], rule told_skip(1) [OF told_quiet(1)],
    rule told_skip(1) [OF told_quiet(3)], rule told_open(1), rule told_scope, assumption, rule told_skip(2) [OF told_addr],
    rule told_skip(1) [OF told_quiet(2)], rule told_open(2), rule told_scope, assumption)
  fix sock1 a sock2 b sock3 c
  let ?F = "F(sock1 \<mapsto> a, sock2 \<mapsto> b, sock3 \<mapsto> c)" and ?h = "((h @ [Opened a]) @ [Opened b]) @ [Opened c]"
  assume "F sock1 = None" and "(F(sock1 \<mapsto> a)) sock2 = None" and "(F(sock1 \<mapsto> a, sock2 \<mapsto> b)) sock3 = None"
  then have F: "?F sock3 = Some c" "?F sock2 = Some b" by (auto split: if_splits)
  show "returns (told ?F ?h) (tcp_exchange (hist_os os) sock1 sock2 sock3)
      (\<lambda>_ s. \<exists>l. (\<exists>d. l = h @ d \<and> tcp_conversation d) \<and> told ?F l s)"
    by (rule returns_weaken [OF tcp_exchange_history [of ?F, OF F]]) (simp add: tcp_conversation_def, blast)
qed

lemma example_3_history:
  "returns (told F h) (socket_example_3 (hist_os os)) (\<lambda>_ s. \<exists>c. (\<exists>d. c = h @ d \<and> pair_conversation d) \<and> told F c s)"
  unfolding socket_example_3_def local_stream_of_fd_def hist_simps
proof (rule told_noting_bind, simp only: split_beta fst_conv snd_conv, rule returns_bindM [OF told_made_of_fd], rule returns_pure, rule told_scope, assumption,
    rule returns_bindM [OF told_made_of_fd], rule returns_pure, rule told_scope, assumption)
  fix m :: int and fds :: "int \<times> int" and p q
  let ?F = "F(p \<mapsto> fst fds, q \<mapsto> snd fds)" and ?h = "h @ [Opened (fst fds), Opened (snd fds)]"
  assume "F p = None" and "(F(p \<mapsto> fst fds)) q = None"
  then have F: "?F p = Some (fst fds)" "?F q = Some (snd fds)" by (auto split: if_splits)
  show "returns (told ?F ?h) (pair_talk (hist_os os) p q) (\<lambda>_ s. \<exists>c. (\<exists>d. c = h @ d \<and> pair_conversation d) \<and> told ?F c s)"
    by (rule returns_weaken [OF pair_talk_history [of ?F, OF F]]) (simp add: pair_conversation_def, blast)
qed

end
