(* ===== verification/Example_Runs.thy ===== *)
theory Example_Runs
  imports Loopback Socket_History
begin

text \<open>
  What \<open>main\<close> of \<open>socket_dt\<close> has done when it returns \<open>EXIT_SUCCESS\<close>, over any kernel, and a run of it:
  every step of the three programs over the loopback kernel.
\<close>

section \<open>Environment\<close>

text \<open>A resolver that converts numeric addresses and does not touch the network as seen through \<open>f\<close>.\<close>

definition quiet_resolver :: "('k \<Rightarrow> 'l) \<Rightarrow> ('k, 'y) addr_os_scheme \<Rightarrow> bool" where
  "quiet_resolver f aos \<longleftrightarrow> numeric_resolver aos \<and>
     (\<forall>node service h k. f (snd (os_getaddrinfo aos node service h k)) = f k) \<and> (\<forall>r k. f (os_freeaddrinfo aos r k) = f k)"

definition doc_refines :: "('k \<Rightarrow> 'l) \<Rightarrow> ('k, 'y) doc_os_scheme \<Rightarrow> ('l, 'z) doc_os_scheme \<Rightarrow> bool" where
  "doc_refines f os ref \<longleftrightarrow> sock_refines f os ref \<and> (\<forall>d t p. same_call f (os_socketpair os d t p) (os_socketpair ref d t p))"

lemma doc_refinesD:
  assumes "doc_refines f os ref"
  shows "sock_refines f os ref" "fd_refines f os ref" "same_call f (os_socketpair os d t p) (os_socketpair ref d t p)"
  using assms sock_refinesD(1) by (auto simp: doc_refines_def)

lemma localhost: "dotted [127, 0, 0, 1] = ''127.0.0.1''"
  by code_simp

lemma numeric_os_quiet: "quiet_resolver f numeric_os"
  using numeric_os_resolves by (simp add: quiet_resolver_def numeric_os_def)

lemma quiet_localhost:
  assumes "quiet_resolver f aos"
  shows "\<exists>k. addr_of_ip aos ''127.0.0.1'' port s =
    (Inr \<lparr>addr_size = 16, addr_storage = loopback_address port @ replicate 112 0\<rparr>, s\<lparr>kern := k\<rparr>) \<and> f k = f (kern s)"
  using assms addr_of_ip_dotted [of aos "[127, 0, 0, 1]" port s]
  by (auto simp: quiet_resolver_def localhost loopback_address_def)

lemma agrees_localhost:
  assumes "quiet_resolver f aos"
  shows "agrees (view f) (addr_of_ip aos ''127.0.0.1'' port) (addr_of_ip numeric_os ''127.0.0.1'' port)"
  unfolding agrees_def
proof
  fix s :: "'a world"
  obtain k where 1: "addr_of_ip aos ''127.0.0.1'' port s =
      (Inr \<lparr>addr_size = 16, addr_storage = loopback_address port @ replicate 112 0\<rparr>, s\<lparr>kern := k\<rparr>)" "f k = f (kern s)"
    using quiet_localhost [OF assms] by blast
  obtain k' where 2: "addr_of_ip numeric_os ''127.0.0.1'' port (view f s) =
      (Inr \<lparr>addr_size = 16, addr_storage = loopback_address port @ replicate 112 0\<rparr>, (view f s)\<lparr>kern := k'\<rparr>)" "k' = f (kern s)"
    using quiet_localhost [OF numeric_os_quiet [of id], of port "view f s"] by auto
  show "addr_of_ip numeric_os ''127.0.0.1'' port (view f s) = (case addr_of_ip aos ''127.0.0.1'' port s of (x, s') \<Rightarrow> (x, view f s'))"
    using 1 2 by (simp add: view_def)
qed

lemma runs_localhost:
  "runs (H, n, k) (addr_of_ip numeric_os ''127.0.0.1'' port) \<lparr>addr_size = 16, addr_storage = loopback_address port @ replicate 112 0\<rparr> (H, n, k)"
  unfolding runs_def
proof (intro allI impI)
  fix s :: "'a world"
  assume "config s = (H, n, k)"
  then show "\<exists>s'. addr_of_ip numeric_os ''127.0.0.1'' port s =
      (Inr \<lparr>addr_size = 16, addr_storage = loopback_address port @ replicate 112 0\<rparr>, s') \<and> config s' = (H, n, k)"
    using quiet_localhost [OF numeric_os_quiet [of id], of port s] by (auto simp: config_def)
qed

lemma loopback_address_length [simp]: "length (loopback_address port) = 16"
  by (simp add: loopback_address_def sockaddr_in_def)

lemma loopback_address_inj: "loopback_address p = loopback_address q \<longleftrightarrow> p = q"
proof
  assume "loopback_address p = loopback_address q"
  then have "ucast (drop_bit 8 p) = (ucast (drop_bit 8 q) :: byte)" "ucast p = (ucast q :: byte)"
    by (simp_all add: loopback_address_def sockaddr_in_def)
  then show "p = q"
    using port_bytes [of p] port_bytes [of q] by (simp add: word_unat_eq_iff)
qed simp

lemma free_port_unused:
  assumes "length (socks v) < 32768"
  shows "loopback_address (free_port v) \<notin> set (locals v)"
proof -
  define ports where "ports = map (\<lambda>i. 32768 + of_nat i :: uint16) [0..<Suc (length (socks v))]"
  let ?free = "filter (\<lambda>p. loopback_address p \<notin> set (locals v)) ports"
  have "inj_on (\<lambda>i. 32768 + of_nat i :: uint16) {0..<Suc (length (socks v))}"
  proof (rule inj_onI)
    fix i j
    assume ij: "i \<in> {0..<Suc (length (socks v))}" "j \<in> {0..<Suc (length (socks v))}"
      and eq: "32768 + of_nat i = (32768 + of_nat j :: uint16)"
    have "unat (of_nat i :: uint16) = i" "unat (of_nat j :: uint16) = j"
      using ij assms by (simp_all add: unat_of_nat)
    with add_left_imp_eq [OF eq] show "i = j" by metis
  qed
  then have dist: "distinct ports"
    by (simp only: ports_def distinct_map set_upt distinct_upt)
  have "?free \<noteq> []"
  proof
    assume "?free = []"
    then have "loopback_address ` set ports \<subseteq> set (locals v)"
      by (auto simp: filter_empty_conv)
    then have "card (loopback_address ` set ports) \<le> length (locals v)"
      by (rule order_trans [OF card_mono [OF finite_set] card_length])
    moreover have "card (loopback_address ` set ports) = length ports"
      using distinct_card [OF dist] by (simp add: card_image inj_on_def loopback_address_inj)
    moreover have "length ports = Suc (length (socks v))"
      by (simp add: ports_def)
    moreover have "length (locals v) \<le> length (socks v)"
      unfolding locals_def length_map using length_filter_le [of "\<lambda>a. a \<noteq> None" "map (sk_local \<circ> snd) (socks v)"] by simp
    ultimately show False by simp
  qed
  then have "free_port v \<in> set ?free"
    unfolding free_port_def ports_def by (rule hd_in_set)
  then show ?thesis by simp
qed

section \<open>Datagrams\<close>

lemmas net_simps = loopback_os_def on_sock_def put_sock_def new_sock_def Let_def

lemma hi_bytes:
  "bytes_of ''hi there'' \<noteq> []" "length (bytes_of ''hi there'') = 8" "0 \<notin> set (bytes_of ''hi there'')"
  "bytes_of ''hi yourself'' \<noteq> []" "length (bytes_of ''hi yourself'') = 11" "0 \<notin> set (bytes_of ''hi yourself'')"
  by (simp_all add: bytes_of_def)

lemma hi_iovecs:
  "iovecs_bytes (bvl_as_iovecs (bvl_of_c_string (bytes_of ''hi there''))) = bytes_of ''hi there''"
  "iovecs_bytes (bvl_as_iovecs (bvl_of_c_string (bytes_of ''hi yourself''))) = bytes_of ''hi yourself''"
  using c_string_views(3) hi_bytes by simp_all

abbreviation net_with :: "net \<Rightarrow> (int \<times> sock) list \<Rightarrow> net" where
  "net_with v t \<equiv> v\<lparr>socks := t\<rparr>"

abbreviation dgram :: "byte list option \<Rightarrow> byte list option \<Rightarrow> (byte list \<times> byte list) list \<Rightarrow> sock" where
  "dgram own peer inbox \<equiv> \<lparr>sk_domain = AF_INET, sk_type = SOCK_DGRAM, sk_local = own, sk_peer = peer, sk_inbox = inbox,
     sk_end = None, sk_queue = None\<rparr>"

lemma free_fd_values:
  "free_fd (net_with v []) = 3" "free_fd (net_with v [(3, a)]) = 4" "free_fd (net_with v [(3, a), (4, b)]) = 5"
  by (simp_all add: free_fd_def upt_rec)

lemma udp_calls:
  assumes os_def: "os = loopback_os msg" and lo_def: "lo = loopback_address p"
    and v3_def: "v3 = net_with v [(3, dgram (Some lo) None []), (4, dgram None None [])]"
    and ep_def: "ep = loopback_address (free_port v3)" and x_def: "x = bytes_of ''hi there''" and y_def: "y = bytes_of ''hi yourself''"
  shows "os_socket os AF_INET SOCK_DGRAM 0 (net_with v []) = ((3, 0, ()), net_with v [(3, dgram None None [])])" (is ?S1)
    and "os_bind os 3 (lo @ pad) 16 (net_with v [(3, dgram None None [])]) = ((0, 0, ()), net_with v [(3, dgram (Some lo) None [])])" (is ?S2)
    and "os_socket os AF_INET SOCK_DGRAM 0 (net_with v [(3, dgram (Some lo) None [])]) = ((4, 0, ()), v3)" (is ?S3)
    and "os_sendmsg os 4 (Some (lo @ pad, 16)) (bvl_as_iovecs (bvl_of_c_string x)) 0 v3 =
      ((8, 0, ()), net_with v [(3, dgram (Some lo) None [(ep, x)]), (4, dgram (Some ep) None [])])" (is ?S4)
    and "os_recvfrom os 3 65536 MSG_TRUNC 128 (net_with v [(3, dgram (Some lo) None [(ep, x)]), (4, dgram (Some ep) None [])]) =
      ((8, 0, x, ep, 16), net_with v [(3, dgram (Some lo) None []), (4, dgram (Some ep) None [])])" (is ?S5)
    and "os_connect os 3 (ep @ pad) 16 (net_with v [(3, dgram (Some lo) None []), (4, dgram (Some ep) None [])]) =
      ((0, 0, ()), net_with v [(3, dgram (Some lo) (Some ep) []), (4, dgram (Some ep) None [])])" (is ?S6)
    and "os_sendmsg os 3 None (bvl_as_iovecs (bvl_of_c_string y)) 0
        (net_with v [(3, dgram (Some lo) (Some ep) []), (4, dgram (Some ep) None [])]) =
      ((11, 0, ()), net_with v [(3, dgram (Some lo) (Some ep) []), (4, dgram (Some ep) None [(lo, y)])])" (is ?S7)
    and "os_recvfrom os 4 65536 MSG_TRUNC 128 (net_with v [(3, dgram (Some lo) (Some ep) []), (4, dgram (Some ep) None [(lo, y)])]) =
      ((11, 0, y, lo, 16), net_with v [(3, dgram (Some lo) (Some ep) []), (4, dgram (Some ep) None [])])" (is ?S8)
    and "snd (os_close os 4 (net_with v [(3, dgram (Some lo) (Some ep) []), (4, dgram (Some ep) None [])])) =
      net_with v [(3, dgram (Some lo) (Some ep) [])]" (is ?S9)
    and "snd (os_close os 3 (net_with v [(3, dgram (Some lo) (Some ep) [])])) = net_with v []" (is ?S10)
proof -
  have len: "length lo = 16" "length ep = 16" by (simp_all add: lo_def ep_def)
  have ne: "lo \<noteq> ep"
    using free_port_unused [of v3] by (auto simp: lo_def ep_def v3_def locals_def)
  have own: "own_address (dgram None None []) v3 = ep" by (simp add: own_address_def ep_def)
  show ?S1 ?S2 ?S3 ?S4 ?S5 ?S6 ?S7 ?S8 ?S9 ?S10
    using own ne
    by (simp_all add: os_def net_simps bound_to_def free_fd_values v3_def len x_def y_def hi_iovecs hi_bytes own_address_def
        net_socket_def net_bind_def net_sendmsg_def deliver_def net_recvfrom_def net_connect_def net_close_def ends_of_def)
qed

lemma runs_udp_talk:
  "runs (H, n, net_with v []) (udp_talk (loopback_os msg) numeric_os p) () (H(n := None, Suc n := None), Suc (Suc n), net_with v [])"
proof -
  define os lo where "os = loopback_os msg" and "lo = loopback_address p"
  define v3 where "v3 = net_with v [(3, dgram (Some lo) None []), (4, dgram None None [])]"
  define ep where "ep = loopback_address (free_port v3)"
  note calls = udp_calls [OF os_def lo_def v3_def ep_def refl refl]
  let ?a = "\<lparr>addr_size = 16, addr_storage = lo @ replicate 112 0\<rparr>" and ?e = "\<lparr>addr_size = 16, addr_storage = ep @ replicate 112 0\<rparr>"
  let ?x = "bytes_of ''hi there''" and ?y = "bytes_of ''hi yourself''"
  let ?H1 = "H(n := Some (3, False, 1))" and ?H2 = "H(n := Some (3, False, 1), Suc n := Some (4, False, 1))"
  let ?v2 = "net_with v [(3, dgram (Some lo) None [])]"
  let ?t = "\<lambda>peer in1 in2. net_with v [(3, dgram (Some lo) peer in1), (4, dgram (Some ep) None in2)]"
  have H: "?H1 n = Some (3, False, 1)" "?H2 n = Some (3, False, 1)" "?H2 (Suc n) = Some (4, False, 1)"
      "(?H2(Suc n := None)) n = Some (3, False, 1)" by simp_all
  have len: "length lo = 16" "length ep = 16" by (simp_all add: lo_def ep_def)
  have addr: "runs c (addr_of_ip numeric_os ''127.0.0.1'' p) ?a c" for c :: "handles \<times> nat \<times> net"
    using runs_localhost [of "fst c" "fst (snd c)" "snd (snd c)" p] by (simp add: lo_def)
  have 1: "runs (H, n, net_with v []) (sock_make os AF_INET SOCK_DGRAM) n (?H1, Suc n, net_with v [(3, dgram None None [])])"
    by (rule runs_sock_make [OF calls(1)]) simp_all
  have 2: "runs (?H1, Suc n, net_with v [(3, dgram None None [])]) (sock_bind os n ?a) () (?H1, Suc n, ?v2)"
    by (rule runs_simple_calls(1) [of ?H1, OF H(1)]) (simp add: calls(2))
  have 3: "runs (?H1, Suc n, ?v2) (sock_make os AF_INET SOCK_DGRAM) (Suc n) (?H2, Suc (Suc n), v3)"
    by (rule runs_sock_make [OF calls(3)]) simp_all
  have 4: "runs (?H2, Suc (Suc n), v3) (udp_sendto os (Suc n) ?a (bvl_of_c_string ?x)) () (?H2, Suc (Suc n), ?t None [(ep, ?x)] [])"
    by (rule runs_udp_send(1) [of ?H2, OF H(3)]) (simp_all add: hi_bytes calls(4))
  have 5: "runs (?H2, Suc (Suc n), ?t None [(ep, ?x)] []) (udp_recv os n 65536) \<lparr>source_address = ?e, payload = ?x\<rparr> (?H2, Suc (Suc n), ?t None [] [])"
    by (rule runs_udp_recv [of ?H2, OF H(2)]) (simp_all add: hi_bytes calls(5) len)
  have 6: "runs (?H2, Suc (Suc n), ?t None [] []) (sock_connect os n ?e) () (?H2, Suc (Suc n), ?t (Some ep) [] [])"
    by (rule runs_simple_calls(2) [of ?H2, OF H(2)]) (simp add: calls(6))
  have 7: "runs (?H2, Suc (Suc n), ?t (Some ep) [] []) (udp_send os n (bvl_of_c_string ?y)) () (?H2, Suc (Suc n), ?t (Some ep) [] [(lo, ?y)])"
    by (rule runs_udp_send(2) [of ?H2, OF H(2)]) (simp_all add: hi_bytes calls(7))
  have 8: "runs (?H2, Suc (Suc n), ?t (Some ep) [] [(lo, ?y)]) (udp_recv os (Suc n) 65536) \<lparr>source_address = ?a, payload = ?y\<rparr>
      (?H2, Suc (Suc n), ?t (Some ep) [] [])"
    by (rule runs_udp_recv [of ?H2, OF H(3)]) (simp_all add: hi_bytes calls(8) len)
  have "runs (H, n, net_with v []) (udp_talk os numeric_os p) () (?H2(Suc n := None, n := None), Suc (Suc n), net_with v [])"
    unfolding udp_talk_def udp_make_def
    by (rule runs_bindM, rule 1, rule runs_scoped_open, rule runs_bindM, rule addr, rule runs_seqM, rule 2, rule runs_bindM, rule 3,
        rule runs_scoped_open, rule runs_bindM, rule addr, rule runs_seqM, rule 4, rule runs_bindM, rule 5, rule runs_seqM,
        simp only: received_datagram.simps, rule 6, rule runs_seqM, rule 7, rule runs_bindM, rule 8,
        simp only: received_datagram.simps simp_thms if_False, rule runs_returnM,
        rule H(3), rule calls(9), rule H(4), rule calls(10))
  then show ?thesis by (simp add: fun_upd_twist os_def)
qed

section \<open>Connections\<close>

text \<open>The network with one connection more than \<open>v\<close>: what waits at its two ends, and which of them have
  hung up.\<close>

definition conn_net :: "net \<Rightarrow> (int \<times> sock) list \<Rightarrow> byte list \<Rightarrow> byte list \<Rightarrow> bool \<Rightarrow> bool \<Rightarrow> net" where
  "conn_net v t a b c d = \<lparr>socks = t, arrived = (arrived v)((next_conn v, False) := a, (next_conn v, True) := b),
     hung_up = (hung_up v)((next_conn v, False) := c, (next_conn v, True) := d), next_conn = Suc (next_conn v)\<rparr>"

lemma conn_net_simps [simp]:
  "socks (conn_net v t a b c d) = t" "(conn_net v t a b c d)\<lparr>socks := t'\<rparr> = conn_net v t' a b c d"
  by (simp_all add: conn_net_def)

lemma conn_net_new: "idle v \<Longrightarrow> v\<lparr>socks := t, next_conn := Suc (next_conn v)\<rparr> = conn_net v t [] [] False False"
  by (cases v) (simp add: idle_def conn_net_def fun_upd_idem)

lemma idle_conn_net: "idle v \<Longrightarrow> idle (conn_net v [] a b c d)"
  by (auto simp: idle_def conn_net_def)

lemma conn_net_write:
  assumes "map_of t fd = Some sk"
  shows "sk_end sk = Some (next_conn v, False) \<Longrightarrow> \<not> d \<Longrightarrow>
      net_writev fd iov (conn_net v t a b c d) = ((int (length (iovecs_bytes iov)), 0, ()), conn_net v t a (b @ iovecs_bytes iov) c d)"
    and "sk_end sk = Some (next_conn v, True) \<Longrightarrow> \<not> c \<Longrightarrow>
      net_writev fd iov (conn_net v t a b c d) = ((int (length (iovecs_bytes iov)), 0, ()), conn_net v t (a @ iovecs_bytes iov) b c d)"
  using assms by (simp_all add: net_writev_def on_sock_def) (simp_all add: conn_net_def Let_def fun_upd_twist)

lemma conn_net_read:
  assumes "map_of t fd = Some sk"
  shows "sk_end sk = Some (next_conn v, False) \<Longrightarrow> a \<noteq> [] \<Longrightarrow> length a \<le> n \<Longrightarrow>
      net_read fd n (conn_net v t a b c d) = ((int (length a), 0, a), conn_net v t [] b c d)"
    and "sk_end sk = Some (next_conn v, True) \<Longrightarrow> b \<noteq> [] \<Longrightarrow> length b \<le> n \<Longrightarrow>
      net_read fd n (conn_net v t a b c d) = ((int (length b), 0, b), conn_net v t a [] c d)"
  using assms by (simp_all add: net_read_def on_sock_def) (simp_all add: conn_net_def Let_def fun_upd_twist)

lemma conn_net_close:
  assumes "map_of t fd = Some sk"
  shows "ends_of sk = [] \<Longrightarrow> net_close fd (conn_net v t a b c d) = ((0, 0, ()), conn_net v (AList.delete fd t) a b c d)"
    and "ends_of sk = [(next_conn v, False)] \<Longrightarrow> net_close fd (conn_net v t a b c d) = ((0, 0, ()), conn_net v (AList.delete fd t) a b True d)"
    and "ends_of sk = [(next_conn v, True)] \<Longrightarrow> net_close fd (conn_net v t a b c d) = ((0, 0, ()), conn_net v (AList.delete fd t) a b c True)"
  using assms by (simp_all add: net_close_def on_sock_def) (auto simp add: conn_net_def fun_eq_iff)

abbreviation stream :: "int \<Rightarrow> byte list option \<Rightarrow> byte list option \<Rightarrow> (nat \<times> bool) option \<Rightarrow> (nat \<times> byte list) list option \<Rightarrow> sock" where
  "stream domain own peer en queue \<equiv> \<lparr>sk_domain = domain, sk_type = SOCK_STREAM, sk_local = own, sk_peer = peer, sk_inbox = [],
     sk_end = en, sk_queue = queue\<rparr>"

lemma conn_net_sockopt:
  assumes "map_of (socks v) fd = Some (stream domain own peer en queue)"
  shows "net_getsockopt fd SOL_SOCKET SO_DOMAIN 4 v = ((0, 0, (domain, 4)), v)"
    "net_getsockopt fd SOL_SOCKET SO_TYPE 4 v = ((0, 0, (SOCK_STREAM, 4)), v)"
  using assms by (simp_all add: net_getsockopt_def on_sock_def SO_TYPE_def SO_DOMAIN_def)

lemma loopback_os_calls:
  "os_close (loopback_os msg) = net_close" "os_read (loopback_os msg) = net_read" "os_writev (loopback_os msg) = net_writev"
  "os_getsockopt (loopback_os msg) = net_getsockopt" "os_shutdown (loopback_os msg) = net_shutdown"
  by (simp_all add: loopback_os_def)

lemma tcp_calls:
  assumes os_def: "os = loopback_os msg" and lo_def: "lo = loopback_address p" and idle: "idle v" and i_def: "i = next_conn v"
    and v4_def: "v4 = net_with v [(3, stream AF_INET (Some lo) None None (Some [])), (4, stream AF_INET None None None None)]"
    and ep_def: "ep = loopback_address (free_port v4)"
  shows "os_socket os AF_INET SOCK_STREAM 0 (net_with v []) = ((3, 0, ()), net_with v [(3, stream AF_INET None None None None)])" (is ?S1)
    and "os_bind os 3 (lo @ pad) 16 (net_with v [(3, stream AF_INET None None None None)]) =
      ((0, 0, ()), net_with v [(3, stream AF_INET (Some lo) None None None)])" (is ?S2)
    and "os_listen os 3 1 (net_with v [(3, stream AF_INET (Some lo) None None None)]) =
      ((0, 0, ()), net_with v [(3, stream AF_INET (Some lo) None None (Some []))])" (is ?S3)
    and "os_socket os AF_INET SOCK_STREAM 0 (net_with v [(3, stream AF_INET (Some lo) None None (Some []))]) = ((4, 0, ()), v4)" (is ?S4)
    and "os_connect os 4 (lo @ pad) 16 v4 = ((0, 0, ()), conn_net v [(3, stream AF_INET (Some lo) None None (Some [(i, ep)])),
      (4, stream AF_INET (Some ep) (Some lo) (Some (i, False)) None)] [] [] False False)" (is ?S5)
    and "os_accept os 3 (conn_net v [(3, stream AF_INET (Some lo) None None (Some [(i, ep)])),
        (4, stream AF_INET (Some ep) (Some lo) (Some (i, False)) None)] [] [] False False) =
      ((5, 0, ()), conn_net v [(3, stream AF_INET (Some lo) None None (Some [])),
        (4, stream AF_INET (Some ep) (Some lo) (Some (i, False)) None),
        (5, stream AF_INET (Some lo) (Some ep) (Some (i, True)) None)] [] [] False False)" (is ?S6)
proof -
  have len: "length lo = 16" by (simp add: lo_def)
  have own: "own_address (stream AF_INET None None None None) v4 = ep" by (simp add: own_address_def ep_def)
  have dg: "SOCK_STREAM \<noteq> SOCK_DGRAM" by (simp add: SOCK_STREAM_def SOCK_DGRAM_def)
  have five: "free_fd (conn_net v [(3, s), (4, s')] a b c d) = 5" for s s' a b c d
    by (simp add: free_fd_def upt_rec)
  show ?S1 ?S2 ?S3 ?S4
    by (simp_all add: os_def net_simps bound_to_def free_fd_values v4_def len own_address_def net_socket_def net_bind_def net_listen_def)
  show ?S5
    using own dg conn_net_new [OF idle] by (simp add: os_def net_simps bound_to_def v4_def len net_connect_def i_def)
  show ?S6
    by (simp add: os_def net_simps net_accept_def five)
qed

lemma runs_tcp_exchange:
  assumes os_def: "os = loopback_os msg" and i_def: "i = next_conn v"
    and H: "H p = Some (3, False, 1)" "H q = Some (4, False, 1)" "H r = Some (5, False, 1)" "p \<noteq> q" "q \<noteq> r" "p \<noteq> r"
    and c: "c = stream AF_INET (Some ep) (Some lo) (Some (i, False)) None" and s: "s = stream AF_INET (Some lo) (Some ep) (Some (i, True)) None"
  shows "runs (H, m, conn_net v [(3, stream AF_INET (Some lo) None None (Some [])), (4, c), (5, s)] [] [] False False) (tcp_exchange os p q r) ()
    (H(p := Some (3, True, 1), q := Some (4, True, 1)), m, conn_net v [(5, s)] [] [] True True)"
proof -
  note net = loopback_os_calls [of msg, folded os_def]
  let ?x = "bytes_of ''hi there''" and ?y = "bytes_of ''hi yourself''"
  let ?H4 = "H(p := Some (3, True, 1))"
  let ?H5 = "?H4(q := Some (4, True, 1))"
  let ?t = "conn_net v [(3, stream AF_INET (Some lo) None None (Some [])), (4, c), (5, s)]"
  have H4: "?H4 q = Some (4, False, 1)" and H5: "?H5 r = Some (5, False, 1)" using H by auto
  have 1: "runs (H, m, ?t [] [] False False) (fd_write_c_string os r ?x True) (size_of ?x) (H, m, ?t ?x [] False False)"
    by (rule runs_fd_write [of H, OF H(3)]) (simp_all add: net hi_bytes hi_iovecs conn_net_write i_def s)
  have 2: "runs (H, m, ?t ?x [] False False) (fd_read os q read_default) ?x (H, m, ?t [] [] False False)"
    by (rule runs_fd_read [of H, OF H(2)]) (simp_all add: net hi_bytes conn_net_read i_def c)
  have 3: "runs (H, m, ?t [] [] False False) (fd_write_c_string os q ?y True) (size_of ?y) (H, m, ?t [] ?y False False)"
    by (rule runs_fd_write [of H, OF H(2)]) (simp_all add: net hi_bytes hi_iovecs conn_net_write i_def c)
  have 4: "runs (H, m, ?t [] ?y False False) (fd_read os r read_default) ?y (H, m, ?t [] [] False False)"
    by (rule runs_fd_read [of H, OF H(3)]) (simp_all add: net hi_bytes conn_net_read i_def s)
  have 5: "runs (H, m, ?t [] [] False False) (fd_close os p) () (?H4, m, conn_net v [(4, c), (5, s)] [] [] False False)"
    by (rule runs_fd_close [of H, OF H(1)]) (simp add: net conn_net_close(1) ends_of_def, simp_all)
  have 6: "runs (?H4, m, conn_net v [(4, c), (5, s)] [] [] False False) (fd_close os q) () (?H5, m, conn_net v [(5, s)] [] [] True False)"
    by (rule runs_fd_close [of ?H4, OF H4]) (simp add: net conn_net_close(2) ends_of_def i_def c, simp_all)
  have "net_shutdown 5 2 (conn_net v [(5, s)] [] [] True False) = ((0, 0, ()), conn_net v [(5, s)] [] [] True True)"
    by (simp add: net_simps net_shutdown_def s) (simp add: conn_net_def i_def)
  then have 7: "runs (?H5, m, conn_net v [(5, s)] [] [] True False) (sock_shutdown os r 2) () (?H5, m, conn_net v [(5, s)] [] [] True True)"
    by (intro runs_simple_calls(4) [of ?H5, OF H5]) (simp add: net)
  show ?thesis
    unfolding tcp_exchange_def
    by (rule runs_bindM, rule 1, rule runs_bindM, rule 2, rule runs_bindM, rule 3, rule runs_bindM, rule 4, rule runs_seqM, rule 5,
        rule runs_seqM, rule 6, rule runs_seqM, rule 7, simp only: simp_thms if_False, rule runs_returnM)
qed

lemma runs_tcp_talk:
  assumes "idle v"
  shows "runs (H, n, net_with v []) (tcp_talk (loopback_os msg) numeric_os p) ()
    (H(n := None, Suc n := None, Suc (Suc n) := None), Suc (Suc (Suc n)), conn_net v [] [] [] True True)"
proof -
  define os lo i where "os = loopback_os msg" and "lo = loopback_address p" and "i = next_conn v"
  define v4 where "v4 = net_with v [(3, stream AF_INET (Some lo) None None (Some [])), (4, stream AF_INET None None None None)]"
  define ep where "ep = loopback_address (free_port v4)"
  define c s where "c = stream AF_INET (Some ep) (Some lo) (Some (i, False)) None" and "s = stream AF_INET (Some lo) (Some ep) (Some (i, True)) None"
  note calls = tcp_calls [OF os_def lo_def assms i_def v4_def ep_def, folded c_def s_def]
  note net = loopback_os_calls [of msg, folded os_def]
  let ?a = "\<lparr>addr_size = 16, addr_storage = lo @ replicate 112 0\<rparr>" and ?l = "stream AF_INET (Some lo) None None (Some [])"
  let ?H1 = "H(n := Some (3, False, 1))" and ?m = "Suc (Suc (Suc n))"
  let ?H2 = "?H1(Suc n := Some (4, False, 1))"
  let ?H3 = "?H2(Suc (Suc n) := Some (5, False, 1))"
  let ?H5 = "?H3(n := Some (3, True, 1), Suc n := Some (4, True, 1))"
  let ?t = "conn_net v [(3, ?l), (4, c), (5, s)] [] [] False False" and ?e = "conn_net v [(5, s)] [] [] True True"
  let ?q = "conn_net v [(3, stream AF_INET (Some lo) None None (Some [(i, ep)])), (4, c)] [] [] False False"
  have H: "?H1 n = Some (3, False, 1)" "?H2 n = Some (3, False, 1)" "?H2 (Suc n) = Some (4, False, 1)" "?H5 (Suc (Suc n)) = Some (5, False, 1)"
      "(?H5(Suc (Suc n) := None)) (Suc n) = Some (4, True, 1)" "(?H5(Suc (Suc n) := None, Suc n := None)) n = Some (3, True, 1)"
    by simp_all
  have addr: "runs c (addr_of_ip numeric_os ''127.0.0.1'' p) ?a c" for c :: "handles \<times> nat \<times> net"
    using runs_localhost [of "fst c" "fst (snd c)" "snd (snd c)" p] by (simp add: lo_def)
  have 1: "runs (H, n, net_with v []) (sock_make os AF_INET SOCK_STREAM) n (?H1, Suc n, net_with v [(3, stream AF_INET None None None None)])"
    by (rule runs_sock_make [OF calls(1)]) simp_all
  have 2: "runs (?H1, Suc n, net_with v [(3, stream AF_INET None None None None)]) (sock_bind os n ?a) ()
      (?H1, Suc n, net_with v [(3, stream AF_INET (Some lo) None None None)])"
    by (rule runs_simple_calls(1) [of ?H1, OF H(1)]) (simp add: calls(2))
  have 3: "runs (?H1, Suc n, net_with v [(3, stream AF_INET (Some lo) None None None)]) (tcp_listen os n 1) () (?H1, Suc n, net_with v [(3, ?l)])"
    by (rule runs_simple_calls(3) [of ?H1, OF H(1)]) (simp add: calls(3))
  have 4: "runs (?H1, Suc n, net_with v [(3, ?l)]) (sock_make os AF_INET SOCK_STREAM) (Suc n) (?H2, Suc (Suc n), v4)"
    by (rule runs_sock_make [OF calls(4)]) simp_all
  have 5: "runs (?H2, Suc (Suc n), v4) (sock_connect os (Suc n) ?a) () (?H2, Suc (Suc n), ?q)"
    by (rule runs_simple_calls(2) [of ?H2, OF H(3)]) (simp add: calls(5))
  have opt: "os_getsockopt os 5 SOL_SOCKET SO_DOMAIN 4 ?t = ((0, 0, (AF_INET, 4)), ?t)"
      "os_getsockopt os 5 SOL_SOCKET SO_TYPE 4 ?t = ((0, 0, (SOCK_STREAM, 4)), ?t)"
    by (simp_all add: net conn_net_sockopt s_def)
  have 6: "runs (?H2, Suc (Suc n), ?q) (tcp_accept os n) (Suc (Suc n)) (?H3, ?m, ?t)"
    by (rule runs_tcp_accept [of ?H2, OF H(2) calls(6) _ _ opt]) simp_all
  have 7: "runs (?H3, ?m, ?t) (tcp_exchange os n (Suc n) (Suc (Suc n))) () (?H5, ?m, ?e)"
    by (rule runs_tcp_exchange [OF os_def i_def _ _ _ _ _ _ c_def s_def]) simp_all
  have 8: "snd (os_close os 5 ?e) = conn_net v [] [] [] True True"
    by (simp add: net conn_net_close(3) ends_of_def i_def s_def)
  have "runs (H, n, net_with v []) (tcp_talk os numeric_os p) ()
      (?H5(Suc (Suc n) := None, Suc n := None, n := None), ?m, conn_net v [] [] [] True True)"
    unfolding tcp_talk_def tcp_make_def
    by (rule runs_bindM, rule 1, rule runs_scoped_closed, rule runs_bindM, rule addr, rule runs_seqM, rule 2, rule runs_seqM, rule 3,
        rule runs_bindM, rule 4, rule runs_scoped_closed, rule runs_bindM, rule addr, rule runs_seqM, rule 5, rule runs_bindM, rule 6,
        rule runs_scoped_open, rule 7, rule H(4), rule 8, rule H(5), rule H(6))
  then show ?thesis by (simp add: fun_upd_twist os_def)
qed

lemma runs_socket_example_3:
  assumes "idle v"
  shows "runs (H, n, net_with v []) (socket_example_3 (loopback_os msg)) ()
    (H(n := None, Suc n := None), Suc (Suc n), conn_net v [] [] [] True True)"
proof -
  define os i where "os = loopback_os msg" and "i = next_conn v"
  define a b where "a = stream AF_UNIX None None (Some (i, False)) None" and "b = stream AF_UNIX None None (Some (i, True)) None"
  note net = loopback_os_calls [of msg, folded os_def]
  let ?x = "bytes_of ''hi there''" and ?y = "bytes_of ''hi yourself''" and ?m = "Suc (Suc n)"
  let ?H1 = "H(n := Some (3, False, 1))"
  let ?H2 = "?H1(Suc n := Some (4, False, 1))"
  let ?t = "conn_net v [(3, a), (4, b)]"
  have H: "?H2 n = Some (3, False, 1)" "?H2 (Suc n) = Some (4, False, 1)" "(?H2(Suc n := None)) n = Some (3, False, 1)" by simp_all
  have four: "free_fd (v\<lparr>socks := [(3, s)]\<rparr>) = 4" for s by (simp add: free_fd_def upt_rec)
  have "os_socketpair os AF_UNIX SOCK_STREAM 0 (net_with v []) = ((0, 0, (3, 4)), ?t [] [] False False)"
    using conn_net_new [OF assms] by (simp add: os_def net_simps net_socketpair_def free_fd_values a_def b_def i_def four)
  then have 1: "runs (H, n, net_with v []) (sys_call ''socketpair'' (os_socketpair os AF_UNIX SOCK_STREAM 0)) (0, 3, 4) (H, n, ?t [] [] False False)"
    by (rule runs_sys_call) simp_all
  have opt: "net_getsockopt 3 SOL_SOCKET SO_DOMAIN 4 (?t x y c d) = ((0, 0, (AF_UNIX, 4)), ?t x y c d)"
      "net_getsockopt 3 SOL_SOCKET SO_TYPE 4 (?t x y c d) = ((0, 0, (SOCK_STREAM, 4)), ?t x y c d)"
      "net_getsockopt 4 SOL_SOCKET SO_DOMAIN 4 (?t x y c d) = ((0, 0, (AF_UNIX, 4)), ?t x y c d)"
      "net_getsockopt 4 SOL_SOCKET SO_TYPE 4 (?t x y c d) = ((0, 0, (SOCK_STREAM, 4)), ?t x y c d)" for x y c d
    by (simp_all add: conn_net_sockopt a_def b_def)
  note opt = opt [folded net]
  have 2: "runs (H, n, ?t [] [] False False) (bindM (fd_make 3) (local_stream_of_fd os)) n (?H1, Suc n, ?t [] [] False False)"
    by (rule runs_local_stream [OF _ opt(1,2)]) simp
  have 3: "runs (?H1, Suc n, ?t [] [] False False) (bindM (fd_make 4) (local_stream_of_fd os)) (Suc n) (?H2, ?m, ?t [] [] False False)"
    by (rule runs_local_stream [OF _ opt(3,4)]) simp
  have 4: "runs (?H2, ?m, ?t [] [] False False) (fd_write_c_string os n ?x True) (size_of ?x) (?H2, ?m, ?t [] ?x False False)"
    by (rule runs_fd_write [of ?H2, OF H(1)]) (simp_all add: net hi_bytes hi_iovecs conn_net_write i_def a_def)
  have 5: "runs (?H2, ?m, ?t [] ?x False False) (fd_read os (Suc n) read_default) ?x (?H2, ?m, ?t [] [] False False)"
    by (rule runs_fd_read [of ?H2, OF H(2)]) (simp_all add: net hi_bytes conn_net_read i_def b_def)
  have 6: "runs (?H2, ?m, ?t [] [] False False) (fd_write_c_string os (Suc n) ?y True) (size_of ?y) (?H2, ?m, ?t ?y [] False False)"
    by (rule runs_fd_write [of ?H2, OF H(2)]) (simp_all add: net hi_bytes hi_iovecs conn_net_write i_def b_def)
  have 7: "runs (?H2, ?m, ?t ?y [] False False) (fd_read os n read_default) ?y (?H2, ?m, ?t [] [] False False)"
    by (rule runs_fd_read [of ?H2, OF H(1)]) (simp_all add: net hi_bytes conn_net_read i_def a_def)
  have 8: "snd (os_close os 4 (?t [] [] False False)) = conn_net v [(3, a)] [] [] False True"
      "snd (os_close os 3 (conn_net v [(3, a)] [] [] False True)) = conn_net v [] [] [] True True"
    by (simp_all add: net conn_net_close ends_of_def i_def a_def b_def)
  have "runs (H, n, net_with v []) (socket_example_3 os) () (?H2(Suc n := None, n := None), ?m, conn_net v [] [] [] True True)"
    unfolding socket_example_3_def pair_talk_def
    by (rule runs_bindM, rule 1, simp only: prod.case, rule runs_bindM, rule 2, rule runs_scoped_open, rule runs_bindM, rule 3,
        rule runs_scoped_open, rule runs_bindM, rule 4, rule runs_bindM, rule 5, rule runs_bindM, rule 6, rule runs_bindM, rule 7,
        simp only: simp_thms if_False, rule runs_returnM, rule H(2), rule 8(1), rule H(3), rule 8(2))
  then show ?thesis by (simp add: fun_upd_twist os_def)
qed

section \<open>The whole program\<close>

lemma agrees_talks:
  assumes "doc_refines f os ref" and "quiet_resolver f aos"
  shows "agrees (view f) (udp_talk os aos p) (udp_talk ref numeric_os p)" "agrees (view f) (tcp_talk os aos p) (tcp_talk ref numeric_os p)"
    "agrees (view f) (socket_example_3 os) (socket_example_3 ref)"
  unfolding udp_talk_def tcp_talk_def tcp_exchange_def socket_example_3_def pair_talk_def
  by (intro agrees_intro agrees_localhost [OF assms(2)] doc_refinesD [OF assms(1)])+

text \<open>A run over the reference, carried over to a kernel that refines it.\<close>

lemma agrees_runs:
  "agrees (view f) m M \<Longrightarrow> runs c M x c' \<Longrightarrow> config (view f s) = c \<Longrightarrow> \<exists>s'. m s = (Inr x, s') \<and> config (view f s') = c'"
  by (cases "m s") (fastforce simp: runs_def agrees_def)

lemma random_port_runs:
  "(\<And>k. f (snd (rd k)) = f k) \<Longrightarrow> \<exists>p s'. bindM (random_port rd) m s = m p s' \<and> config (view f s') = config (view f s)"
  by (cases "rd (kern s)") (auto simp: random_port_def bindM_apply config_def intro!: exI, metis snd_conv)

text \<open>Over a kernel that has, seen through \<open>f\<close>, the sockets of the loopback kernel, \<open>main\<close> of \<open>socket_dt\<close> returns
  \<open>EXIT_SUCCESS\<close>.\<close>

lemma socket_examples_succeed:
  fixes s :: "'k world"
  assumes "doc_refines f os (loopback_os msg)" and "quiet_resolver f aos" and rd: "\<And>k. f (snd (rd k)) = f k"
    and "idle (f (kern s))"
  shows "\<exists>s'. socket_dt_main os aos rd s = (Inr 0, s') \<and> socks (f (kern s')) = []"
proof -
  note agrees = agrees_talks [OF assms(1,2)]
  have idle_with: "net_with v [] = v" if "idle v" for v
    using that by (cases v) (simp add: idle_def)
  obtain H n v where s: "config (view f s) = (H, n, v)" "idle v"
    using assms(4) by (simp add: config_def)
  obtain p1 s1 where 1: "socket_example_1 os aos rd s = udp_talk os aos p1 s1" "config (view f s1) = (H, n, v)"
    unfolding socket_example_1_def using random_port_runs [of f rd "udp_talk os aos" s, OF rd] s(1) by auto
  obtain H2 n2 s2 where 2: "socket_example_1 os aos rd s = (Inr (), s2)" "config (view f s2) = (H2, n2, v)"
    using agrees_runs [OF agrees(1) [where p = p1] runs_udp_talk [where H = H and n = n and v = v], of s1] 1 idle_with [OF s(2)] by auto
  obtain p3 s3 where 3: "socket_example_2 os aos rd s2 = tcp_talk os aos p3 s3" "config (view f s3) = (H2, n2, v)"
    unfolding socket_example_2_def using random_port_runs [of f rd "tcp_talk os aos" s2, OF rd] 2(2) by auto
  let ?v = "conn_net v [] [] [] True True"
  obtain H4 n4 s4 where 4: "socket_example_2 os aos rd s2 = (Inr (), s4)" "config (view f s4) = (H4, n4, ?v)"
    using agrees_runs [OF agrees(2) [where p = p3] runs_tcp_talk [OF s(2), where H = H2 and n = n2], of s3] 3 idle_with [OF s(2)] by auto
  have v: "idle ?v" using idle_conn_net [OF s(2)] .
  obtain s5 where "socket_example_3 os s4 = (Inr (), s5)" "f (kern s5) = conn_net ?v [] [] [] True True"
    using agrees_runs [OF agrees(3) runs_socket_example_3 [OF v, where H = H4 and n = n4], of s4] 4(2) idle_with [OF v] by (auto simp: config_def)
  with 2(1) 4(1) show ?thesis
    by (auto simp: socket_dt_main_def em_simps)
qed

lemma same_call_hist [simp]: "same_call fst (beside c) c" "same_call fst (noting g c) c"
  by (auto simp: same_call_def beside_def noting_def split: prod.splits)

lemma hist_os_refines: "doc_refines fst (hist_os os) os"
  by (simp add: doc_refines_def sock_refines_def fd_refines_def hist_os_def)

lemma beside_run: "\<exists>k'. c (fst k) = (out, k') \<Longrightarrow> \<exists>k'. beside c k = (out, k')"
  by (auto simp: beside_def split_beta)

lemma hist_aos_quiet: "quiet_resolver fst (hist_aos numeric_os)"
proof -
  have "numeric_resolver (hist_aos numeric_os :: ('a \<times> io list) addr_os)"
    using numeric_os_resolves [where 'a = 'a] unfolding numeric_resolver_def hist_aos_def addr_os.simps
    by (intro conjI allI impI beside_run) blast+
  then show ?thesis
    by (auto simp: quiet_resolver_def hist_aos_def beside_def numeric_os_def split: prod.splits)
qed

section \<open>Properties\<close>

text \<open>C7. The socket program of the documentation reports success only when its conversations took place. Whatever
  the kernel answers, when \<open>main\<close> of \<open>socket_dt\<close> returns \<open>EXIT_SUCCESS\<close>, the kernel has seen exactly these: two
  datagram sockets, "hi there" sent whole on the second and received on the first, "hi yourself"
  sent whole on the first and received on the second; then two TCP sockets and an accepted one, "hi
  there" written on the accepted one, in as many pieces as \<open>writev\<close> needed, and read on the
  connecting one, "hi yourself" back the same way; and the same exchange between the two ends of
  a local pair. Nothing else was sent or received.\<close>

theorem socket_examples_converse:
  fixes s :: "('k \<times> io list, 'z) world_scheme"
  assumes "fd_wf s" and "socket_dt_main (hist_os os) (hist_aos aos) (beside rd) s = (Inr 0, s')"
  shows "\<exists>c1 c2 c3. snd (kern s') = snd (kern s) @ c1 @ c2 @ c3 \<and> udp_conversation c1 \<and> tcp_conversation c2 \<and> pair_conversation c3"
proof -
  let ?e1 = "socket_example_1 (hist_os os) (hist_aos aos) (beside rd)"
    and ?e2 = "socket_example_2 (hist_os os) (hist_aos aos) (beside rd)" and ?e3 = "socket_example_3 (hist_os os)"
  obtain s1 s2 s3 where run: "?e1 s = (Inr (), s1)" "?e2 s1 = (Inr (), s2)" "?e3 s2 = (Inr (), s3)" "s' = s3"
    using assms(2) by (auto simp: socket_dt_main_def em_simps split: prod.splits sum.splits if_splits)
  have 1: "returns (told Map.empty h) ?e1 (\<lambda>_ s. \<exists>c. (\<exists>d. c = h @ d \<and> udp_conversation d) \<and> told Map.empty c s)"
    and 2: "returns (told Map.empty h) ?e2 (\<lambda>_ s. \<exists>c. (\<exists>d. c = h @ d \<and> tcp_conversation d) \<and> told Map.empty c s)" for h
    unfolding socket_example_1_def socket_example_2_def
    by (rule told_skip(2) [OF told_random udp_talk_history] told_skip(2) [OF told_random tcp_talk_history])+
  have "told Map.empty (snd (kern s)) s" using assms(1) by (simp add: told_def)
  then obtain c1 where c1: "udp_conversation c1" "told Map.empty (snd (kern s) @ c1) s1"
    using returnsD [OF 1 _ run(1)] by blast
  obtain c2 where c2: "tcp_conversation c2" "told Map.empty ((snd (kern s) @ c1) @ c2) s2"
    using returnsD [OF 2 c1(2) run(2)] by blast
  obtain c3 where c3: "pair_conversation c3" "told Map.empty (((snd (kern s) @ c1) @ c2) @ c3) s3"
    using returnsD [OF example_3_history c2(2) run(3)] by blast
  have "snd (kern s') = snd (kern s) @ c1 @ c2 @ c3" using c3(2) run(4) by (simp add: told_def)
  with c1(1) c2(1) c3(1) show ?thesis by blast
qed

text \<open>The loopback kernel with its history, which is empty at first.\<close>

definition demo_net_world :: "(net \<times> io list) world" where
  "demo_net_world = \<lparr>kern = (\<lparr>socks = [], arrived = (\<lambda>_. []), hung_up = (\<lambda>_. False), next_conn = 0\<rparr>, []), errno = 0, cerr = [],
     fd_heap = Map.empty, fd_next = 0\<rparr>"

lemma socket_examples_converse_witness:
  "\<exists>s' c1 c2 c3. socket_dt_main (hist_os (loopback_os (\<lambda>_ _. ''error''))) (hist_aos numeric_os) (beside (\<lambda>v. (77, v))) demo_net_world =
     (Inr 0, s') \<and> snd (kern s') = c1 @ c2 @ c3 \<and> udp_conversation c1 \<and> tcp_conversation c2 \<and> pair_conversation c3"
proof -
  have wf: "fd_wf demo_net_world" by (simp add: demo_net_world_def fd_wf_def)
  have rd: "fst (snd (beside (\<lambda>v. (77 :: uint32, v)) k)) = fst k" for k :: "net \<times> io list"
    by (simp add: beside_def split: prod.splits)
  have "idle (fst (kern demo_net_world))" by (simp add: demo_net_world_def idle_def)
  then obtain s' where "socket_dt_main (hist_os (loopback_os (\<lambda>_ _. ''error''))) (hist_aos numeric_os) (beside (\<lambda>v. (77, v))) demo_net_world =
      (Inr 0, s')"
    using socket_examples_succeed [OF hist_os_refines hist_aos_quiet rd] by blast
  with socket_examples_converse [OF wf this] show ?thesis by (auto simp: demo_net_world_def)
qed

end
