(* ===== verification/Hexdump.thy ===== *)
theory Hexdump
  imports Sys_Util
begin

text \<open>
  \<open>hexdump\<close> of \<open>libsponge/util/util.cc\<close>, with the formatted output of the standard library it
  uses: the base, fill character and width of \<open>cout\<close>, and a \<open>stringstream\<close> with its put
  position. The dump is proved equal to a definition that cuts the data into rows.
\<close>

section \<open>Streams\<close>

datatype number_base = Dec | Hex | Oct

record fmtflags =
  base :: number_base
  showbase :: bool
  uppercase :: bool
  adjust_left :: bool

record ostream =
  written :: string
  flags :: fmtflags
  fill :: char
  width :: nat

text \<open>A \<open>stringstream\<close> for output: its buffer and the put position, which starts at 0 even when the
  buffer does not.\<close>

record sstream =
  ss_str :: string
  ss_pos :: nat

definition ss_make :: "string \<Rightarrow> sstream" where
  "ss_make s = \<lparr>ss_str = s, ss_pos = 0\<rparr>"

definition ss_put :: "char \<Rightarrow> sstream \<Rightarrow> sstream" where
  "ss_put c ss = \<lparr>ss_str = take (ss_pos ss) (ss_str ss) @ [c] @ drop (Suc (ss_pos ss)) (ss_str ss),
     ss_pos = Suc (ss_pos ss)\<rparr>"

text \<open>Formatted output of a string or character: padded to the width, which is then reset.\<close>

definition put_string :: "string \<Rightarrow> ostream \<Rightarrow> ostream" where
  "put_string s out =
     (let pad = replicate (width out - length s) (fill out)
      in out\<lparr>written := written out @ (if adjust_left (flags out) then s @ pad else pad @ s), width := 0\<rparr>)"

definition digit_of :: "bool \<Rightarrow> nat \<Rightarrow> char" where
  "digit_of upper d = (if d < 10 then digit_char d else char_of ((if upper then 55 else 87) + d))"

fun digits :: "nat \<Rightarrow> bool \<Rightarrow> nat \<Rightarrow> string" where
  "digits b upper n = (if b < 2 \<or> n < b then [digit_of upper n]
     else digits b upper (n div b) @ [digit_of upper (n mod b)])"

declare digits.simps [simp del]

definition base_value :: "number_base \<Rightarrow> nat" where
  "base_value b = (case b of Dec \<Rightarrow> 10 | Hex \<Rightarrow> 16 | Oct \<Rightarrow> 8)"

definition base_prefix :: "fmtflags \<Rightarrow> nat \<Rightarrow> string" where
  "base_prefix f n = (if \<not> showbase f \<or> n = 0 then [] else case base f of
       Dec \<Rightarrow> [] | Hex \<Rightarrow> (if uppercase f then ''0X'' else ''0x'') | Oct \<Rightarrow> ''0'')"

text \<open>Output of a non-negative \<open>int\<close>.\<close>

definition put_int :: "int \<Rightarrow> ostream \<Rightarrow> ostream" where
  "put_int n out = put_string (base_prefix (flags out) (nat n) @
     digits (base_value (base (flags out))) (uppercase (flags out)) (nat n)) out"

definition setw :: "nat \<Rightarrow> ostream \<Rightarrow> ostream" where
  "setw n out = out\<lparr>width := n\<rparr>"

definition is_print :: "byte \<Rightarrow> bool" where
  "is_print b \<longleftrightarrow> 32 \<le> unat b \<and> unat b \<le> 126"

section \<open>\<open>hexdump\<close>\<close>

definition show_char :: "byte \<Rightarrow> char" where
  "show_char b = (if is_print b then char_of (unat b) else CHR ''.'')"

text \<open>The body of the loop.\<close>

definition hexdump_byte :: "string \<Rightarrow> byte \<Rightarrow> int \<Rightarrow> sstream \<Rightarrow> ostream \<Rightarrow> sstream \<times> ostream" where
  "hexdump_byte indent_string b printed pchars out =
     (let (pchars, out) =
        (if printed AND 15 = 0 then
           (let (pchars, out) = (if printed \<noteq> 0
                then (ss_make '' '', put_string [char_of (10 :: nat)] (put_string (ss_str pchars) (put_string ''    '' out)))
                else (pchars, out))
            in (pchars, put_string '':    '' (put_int printed (setw 8 (put_string indent_string out)))))
         else if printed AND 1 = 0 then (pchars, put_string '' '' out)
         else (pchars, out))
      in (ss_put (show_char b) pchars, put_int (int (unat b)) (setw 2 out)))"

text \<open>\<open>i\<close> is \<open>unsigned\<close> and wraps; \<open>printed\<close> is an \<open>int\<close>, whose overflow is undefined, so the loop cannot
  run for ever.\<close>

function hexdump_loop :: "byte list \<Rightarrow> size_t \<Rightarrow> string \<Rightarrow> uint32 \<Rightarrow> int \<Rightarrow> sstream \<Rightarrow> ostream \<Rightarrow>
    (int \<times> sstream) result \<times> ostream" where
  "hexdump_loop data len indent_string i printed pchars out =
     (if ucast i < len then
        if length data \<le> unat i then (Inl (Undefined_behaviour ''data[i] out of range''), out)
        else (case hexdump_byte indent_string (data ! unat i) printed pchars out of (pchars, out) \<Rightarrow>
          if printed \<ge> INT_MAX then (Inl (Undefined_behaviour ''int overflow''), out)
          else hexdump_loop data len indent_string (i + 1) (printed + 1) pchars out)
      else (Inr (printed, pchars), out))"
  by pat_completeness auto
termination
  by (relation "measure (\<lambda>(d, l, ind, i, p, ss, out). nat (INT_MAX - p))") auto

declare hexdump_loop.simps [simp del]

definition hexdump :: "byte list \<Rightarrow> size_t \<Rightarrow> size_t \<Rightarrow> ostream \<Rightarrow> unit result \<times> ostream" where
  "hexdump data len indent cout =
     (let saved = flags cout;
          indent_string = replicate (unat indent) CHR '' '';
          out = cout\<lparr>flags := (flags cout)\<lparr>base := Hex\<rparr>, fill := CHR ''0''\<rparr>
      in case hexdump_loop data len indent_string 0 0 (ss_make '' '') out of
           (Inl e, out) \<Rightarrow> (Inl e, out)
         | (Inr (printed, pchars), out) \<Rightarrow>
             (let print_rem = nat ((16 - (printed AND 15)) mod 16);
                  out = put_string (ss_str pchars)
                          (put_string (replicate (2 * print_rem + print_rem div 2 + 4) CHR '' '') out);
                  out = put_string [char_of (10 :: nat)] out;
                  out = out\<lparr>written := written out @ [char_of (10 :: nat)]\<rparr>
              in (Inr (), out\<lparr>flags := saved\<rparr>)))"

text \<open>The overload for \<open>char\<close> data reads the same bytes.\<close>

definition hexdump_char :: "byte list \<Rightarrow> size_t \<Rightarrow> size_t \<Rightarrow> ostream \<Rightarrow> unit result \<times> ostream" where
  "hexdump_char data len indent cout = hexdump data len indent cout"

section \<open>Reference\<close>

definition hex :: "nat \<Rightarrow> nat \<Rightarrow> string" where
  "hex w n = (let d = digits 16 False n in replicate (w - length d) CHR ''0'' @ d)"

text \<open>The bytes of a row, two by two.\<close>

fun pairs :: "byte list \<Rightarrow> string" where
  "pairs [] = []"
| "pairs [a] = hex 2 (unat a)"
| "pairs [a, b] = hex 2 (unat a) @ hex 2 (unat b)"
| "pairs (a # b # bs) = hex 2 (unat a) @ hex 2 (unat b) @ '' '' @ pairs bs"

definition spaces :: "nat \<Rightarrow> string" where
  "spaces n = replicate n CHR '' ''"

text \<open>A row: offset, bytes in a column of 39 characters, and the bytes as text.\<close>

definition row :: "nat \<Rightarrow> nat \<Rightarrow> byte list \<Rightarrow> string" where
  "row indent offset bs = spaces indent @ hex 8 offset @ '':    '' @ pairs bs @ spaces (39 - length (pairs bs)) @
     spaces 4 @ map show_char bs @ [char_of (10 :: nat)]"

function rows :: "nat \<Rightarrow> nat \<Rightarrow> byte list \<Rightarrow> string" where
  "rows indent offset bs = (if bs = [] then [] else row indent offset (take 16 bs) @ rows indent (offset + 16) (drop 16 bs))"
  by pat_completeness auto
termination
  by (relation "measure (\<lambda>(i, off, bs). length bs)") (auto simp: length_greater_0_conv)

declare rows.simps [simp del]

section \<open>Lemmas\<close>

definition newline :: char where
  "newline = char_of (10 :: nat)"

text \<open>What one pass over the bytes writes, starting \<open>p\<close> bytes into the dump with the text \<open>cs\<close> of the
  row so far, and the text of the last row.\<close>

definition shown :: "string \<Rightarrow> string" where
  "shown cs = (if cs = [] then '' '' else cs)"

definition row_start :: "string \<Rightarrow> nat \<Rightarrow> string \<Rightarrow> string" where
  "row_start ind p cs = (if p \<noteq> 0 then ''    '' @ shown cs @ [newline] else []) @ ind @ hex 8 p @ '':    ''"

fun emit :: "string \<Rightarrow> nat \<Rightarrow> string \<Rightarrow> byte list \<Rightarrow> string \<times> string" where
  "emit ind p cs [] = ([], cs)"
| "emit ind p cs (b # bs) =
     (let pre = (if p mod 16 = 0 then row_start ind p cs else if even p then '' '' else []);
          (tx, rest) = emit ind (Suc p) ((if p mod 16 = 0 then [] else cs) @ [show_char b]) bs
      in (pre @ hex 2 (unat b) @ tx, rest))"

definition ss_of :: "string \<Rightarrow> sstream" where
  "ss_of cs = \<lparr>ss_str = shown cs, ss_pos = length cs\<rparr>"

definition plain :: "ostream \<Rightarrow> bool" where
  "plain out \<longleftrightarrow> base (flags out) = Hex \<and> \<not> showbase (flags out) \<and> \<not> uppercase (flags out) \<and>
     \<not> adjust_left (flags out) \<and> fill out = CHR ''0'' \<and> width out = 0"

definition wrote :: "string \<Rightarrow> ostream \<Rightarrow> ostream" where
  "wrote s out = out\<lparr>written := written out @ s\<rparr>"

lemma plain_wrote [simp]: "plain (wrote s out) = plain out"
  by (simp add: plain_def wrote_def)

lemma wrote_wrote [simp]: "wrote t (wrote s out) = wrote (s @ t) out"
  by (simp add: wrote_def)

lemma wrote_Nil [simp]: "wrote [] out = out"
  by (simp add: wrote_def)

lemma put_string_plain [simp]: "plain out \<Longrightarrow> put_string s out = wrote s out"
  by (simp add: put_string_def plain_def wrote_def)

lemma put_int_plain [simp]: "plain out \<Longrightarrow> put_int n (setw w out) = wrote (hex w (nat n)) out"
  by (simp add: put_int_def setw_def put_string_def plain_def wrote_def base_prefix_def base_value_def hex_def Let_def)

lemma ss_of_put: "ss_put c (ss_of cs) = ss_of (cs @ [c])"
  by (simp add: ss_put_def ss_of_def shown_def)

lemma ss_of_Nil: "ss_make '' '' = ss_of []"
  by (simp add: ss_make_def ss_of_def shown_def)

lemma int_and_mask: "int p AND 15 = int (p mod 16)" "int p AND 1 = int (p mod 2)"
proof -
  have "int p AND mask 4 = int (p mod 16)"
    by (simp add: take_bit_eq_mod zmod_int flip: take_bit_eq_mask)
  then show "int p AND 15 = int (p mod 16)"
    by (simp add: mask_eq_exp_minus_1)
  show "int p AND 1 = int (p mod 2)"
    by (simp add: and_one_eq zmod_int)
qed

lemma hexdump_byte_plain:
  assumes "plain out" and "p = 0 \<Longrightarrow> cs = []"
  shows "hexdump_byte ind b (int p) (ss_of cs) out =
    (ss_of ((if p mod 16 = 0 then [] else cs) @ [show_char b]),
     wrote ((if p mod 16 = 0 then row_start ind p cs else if even p then '' '' else []) @ hex 2 (unat b)) out)"
proof -
  have "ss_str (ss_of cs) = shown cs" by (simp add: ss_of_def)
  then show ?thesis
    using assms
    by (auto simp: hexdump_byte_def int_and_mask ss_of_Nil ss_of_put row_start_def newline_def Let_def
        even_iff_mod_2_eq_zero)
qed

lemma hexdump_loop_plain:
  assumes "plain out" and "unat len \<le> length data" and "unat len < 2 ^ 31" and "p \<le> unat len" and "p = 0 \<Longrightarrow> cs = []"
    and "emit ind p cs (take (unat len - p) (drop p data)) = (tx, rest)"
  shows "hexdump_loop data len ind (of_nat p) (int p) (ss_of cs) out = (Inr (int (unat len), ss_of rest), wrote tx out)"
  using assms(1) assms(4) assms(5) assms(6)
proof (induction "unat len - p" arbitrary: p cs out tx)
  case 0
  have "\<not> ucast (of_nat p :: uint32) < len"
    using 0 assms(3) by (simp add: word_less_nat_alt unsigned_ucast_eq unat_of_nat take_bit_nat_eq_self)
  with 0 show ?case
    by (simp add: hexdump_loop.simps [of data len ind "of_nat p"])
next
  case (Suc n)
  then have p: "p < unat len" "p < length data" "Suc p \<le> unat len" "n = unat len - Suc p"
    using assms(2) by auto
  have u: "unat (of_nat p :: uint32) = p" "ucast (of_nat p :: uint32) < len" "(of_nat p :: uint32) + 1 = of_nat (Suc p)"
    using p(1) assms(3) by (simp_all add: word_less_nat_alt unsigned_ucast_eq unat_of_nat take_bit_nat_eq_self)
  let ?b = "data ! p"
  let ?pre = "if p mod 16 = 0 then row_start ind p cs else if even p then '' '' else []"
  let ?cs = "(if p mod 16 = 0 then [] else cs) @ [show_char ?b]"
  have bs: "take (unat len - p) (drop p data) = ?b # take (unat len - Suc p) (drop (Suc p) data)"
    using p(1,2) by (simp add: take_Suc_conv_app_nth Suc_diff_Suc flip: Cons_nth_drop_Suc take_Suc_Cons)
  obtain tx' where e: "emit ind (Suc p) ?cs (take (unat len - Suc p) (drop (Suc p) data)) = (tx', rest)"
      "tx = ?pre @ hex 2 (unat ?b) @ tx'"
    using Suc.prems(4) by (auto simp: bs Let_def split: prod.splits)
  have "hexdump_loop data len ind (of_nat p) (int p) (ss_of cs) out =
      hexdump_loop data len ind (of_nat (Suc p)) (int (Suc p)) (ss_of ?cs) (wrote (?pre @ hex 2 (unat ?b)) out)"
    using u p assms(3) hexdump_byte_plain [OF Suc.prems(1,3), where ind = ind and b = ?b]
    by (simp add: hexdump_loop.simps [of data len ind "of_nat p"] INT_MAX_def add.commute)
  also have "\<dots> = (Inr (int (unat len), ss_of rest), wrote tx' (wrote (?pre @ hex 2 (unat ?b)) out))"
    using Suc.hyps(1) [OF p(4) _ p(3) _ e(1)] Suc.prems(1) by simp
  finally show ?case by (simp add: e(2))
qed

text \<open>The bytes of one row, after its start.\<close>

lemma emit_append:
  "emit ind p cs (xs @ ys) = (let (t1, c1) = emit ind p cs xs; (t2, c2) = emit ind (p + length xs) c1 ys in (t1 @ t2, c2))"
  by (induction xs arbitrary: p cs) (auto simp: Let_def split: prod.splits)

lemmas emit_Cons = emit.simps(2)

declare emit.simps(2) [simp del]

lemma emit_in_row:
  "even p \<Longrightarrow> p mod 16 \<noteq> 0 \<Longrightarrow> p mod 16 + length bs \<le> 16 \<Longrightarrow>
     emit ind p cs bs = ((if bs = [] then [] else '' '' @ pairs bs), cs @ map show_char bs)"
proof (induction bs arbitrary: p cs rule: pairs.induct)
  case 1
  then show ?case by simp
next
  case (2 a)
  then show ?case by (simp add: emit_Cons)
next
  case (3 a b)
  then have "Suc p mod 16 \<noteq> 0" by (simp add: mod_Suc)
  with 3 show ?case by (simp add: emit_Cons)
next
  case (4 a b c bs)
  have m: "Suc p mod 16 = Suc (p mod 16)" "Suc (Suc p) mod 16 = Suc (Suc (p mod 16))"
    using 4(4) by (auto simp: mod_Suc)
  then have "emit ind (Suc (Suc p)) (cs @ [show_char a, show_char b]) (c # bs) =
      ('' '' @ pairs (c # bs), cs @ [show_char a, show_char b] @ map show_char (c # bs))"
    using 4(1) [of "Suc (Suc p)" "cs @ [show_char a, show_char b]"] 4(2-4) by simp
  with 4(2,3) m(1) show ?case
    by (simp add: emit_Cons [of ind p] emit_Cons [of ind "Suc p"])
qed

lemma emit_row:
  assumes "p mod 16 = 0" and "bs \<noteq> []" and "length bs \<le> 16"
  shows "emit ind p cs bs = (row_start ind p cs @ pairs bs, map show_char bs)"
proof -
  have ev: "even p" using assms(1) by presburger
  have m: "Suc p mod 16 = 1" "Suc (Suc p) mod 16 = 2"
    using assms(1) by (simp_all add: mod_Suc)
  consider a where "bs = [a]" | a b where "bs = [a, b]" | a b c cs where "bs = a # b # c # cs"
    using assms(2) by (metis neq_Nil_conv)
  then show ?thesis
  proof cases
    case (3 a b c bs')
    have "emit ind (Suc (Suc p)) [show_char a, show_char b] (c # bs') =
        ('' '' @ pairs (c # bs'), [show_char a, show_char b] @ map show_char (c # bs'))"
      using emit_in_row [of "Suc (Suc p)" "c # bs'" ind] ev m(2) assms(3) 3 by simp
    with 3 assms(1) m(1) ev show ?thesis
      by (simp add: emit_Cons [of ind p] emit_Cons [of ind "Suc p"])
  qed (use assms(1) m(1) ev in \<open>simp_all add: emit_Cons\<close>)
qed

lemma length_hex2: "length (hex 2 (unat (b :: byte))) = 2"
proof -
  have "length (digits 16 False n) \<le> 2" if "n \<le> 255" for n
  proof -
    have "n div 16 < 16" using that by linarith
    then show ?thesis
      by (cases "n < 16") (simp_all add: digits.simps [of 16 False n] digits.simps [of 16 False "n div 16"])
  qed
  then show ?thesis
    using byte_le [of b] by (simp add: hex_def Let_def)
qed

lemma length_pairs: "length (pairs bs) = 2 * length bs + (length bs - 1) div 2"
  by (induction bs rule: pairs.induct) (simp_all add: length_hex2)

lemma row_width:
  assumes "bs \<noteq> []" and "length bs \<le> 16" and "p mod 16 = 0"
  shows "(16 - (p + length bs) mod 16) mod 16 * 2 + (16 - (p + length bs) mod 16) mod 16 div 2 = 39 - length (pairs bs)"
proof -
  have "(p + length bs) mod 16 = length bs mod 16"
    using assms(3) by (metis add_0 mod_add_left_eq)
  moreover have "(16 - c mod 16) mod 16 * 2 + (16 - c mod 16) mod 16 div 2 = 39 - (2 * c + (c - 1) div 2)"
    if c: "c \<noteq> 0" "c \<le> 16" for c :: nat
  proof (cases "c = 16")
    case False
    define q r where "q = (c - 1) div 2" and "r = (16 - c) div 2"
    have "2 * q \<le> c - 1" "c - 1 < 2 * q + 2" "2 * r \<le> 16 - c" "16 - c < 2 * r + 2"
      by (simp_all add: q_def r_def)
    then have "q + r = 7" using c by linarith
    moreover have "c mod 16 = c" "(16 - c) mod 16 = 16 - c" using c False by simp_all
    moreover have "39 - (2 * c + q) = (16 - c) * 2 + r"
      using \<open>q + r = 7\<close> c by arith
    ultimately show ?thesis
      unfolding q_def r_def by argo
  qed simp
  ultimately show ?thesis
    unfolding length_pairs using assms(1,2) by simp
qed

lemma emit_rows:
  assumes "p mod 16 = 0" and "bs \<noteq> []" and "emit (spaces n) p cs bs = (tx, rest)"
    and "k = (16 - (p + length bs) mod 16) mod 16"
  shows "tx @ spaces (2 * k + k div 2 + 4) @ shown rest @ [newline] =
    (if p \<noteq> 0 then ''    '' @ shown cs @ [newline] else []) @ rows n p bs"
  using assms
proof (induction n p bs arbitrary: cs tx rule: rows.induct)
  case (1 n p bs)
  let ?flush = "if p \<noteq> 0 then ''    '' @ shown cs @ [newline] else []"
  show ?case
  proof (cases "length bs \<le> 16")
    case True
    have e: "tx = row_start (spaces n) p cs @ pairs bs" "rest = map show_char bs"
      using emit_row [OF 1(2,3) True, of "spaces n" cs] 1(4) by simp_all
    have k: "2 * k + k div 2 = 39 - length (pairs bs)"
      using row_width [OF 1(3) True 1(2)] 1(5) by (simp add: mult.commute)
    show ?thesis
      using 1(3) True
      by (simp add: rows.simps [of n p bs] rows.simps [of n _ "[]"] e k row_def row_start_def shown_def newline_def
          spaces_def replicate_add)
  next
    case False
    let ?a = "take 16 bs" and ?b = "drop 16 bs"
    have a: "?a \<noteq> []" "length ?a = 16" using False by auto
    obtain t2 where e2: "emit (spaces n) (p + 16) (map show_char ?a) ?b = (t2, rest)"
        "tx = row_start (spaces n) p cs @ pairs ?a @ t2"
      using emit_append [of "spaces n" p cs ?a ?b] emit_row [OF 1(2) a(1), of "spaces n" cs] a(2) 1(4)
      by (auto simp: Let_def split: prod.splits)
    have "k = (16 - (p + 16 + length ?b) mod 16) mod 16"
      using 1(5) False by simp
    moreover have "(p + 16) mod 16 = 0" "?b \<noteq> []"
      using 1(2) False by simp_all
    ultimately have "t2 @ spaces (2 * k + k div 2 + 4) @ shown rest @ [newline] =
        (''    '' @ shown (map show_char ?a) @ [newline]) @ rows n (p + 16) ?b"
      using 1(1) [OF 1(3) _ _ e2(1)] by simp
    moreover have "length (pairs ?a) = 39"
      using a(2) by (simp add: length_pairs)
    ultimately show ?thesis
      using 1(3) a(1)
      by (simp add: rows.simps [of n p bs] e2(2) row_def row_start_def shown_def newline_def spaces_def)
        (simp add: numeral_eq_Suc)
  qed
qed

lemma nat_rem: "m < 16 \<Longrightarrow> nat ((16 - int m) mod 16) = (16 - m) mod 16"
proof -
  assume "m < 16"
  then have "16 - int m = int (16 - m)" by simp
  then have "(16 - int m) mod 16 = int ((16 - m) mod 16)"
    by (simp only: zmod_int of_nat_numeral)
  then show ?thesis by simp
qed

section \<open>Properties\<close>

text \<open>C29. On a stream with plain formatting, \<open>hexdump\<close> of fewer than 2 to the 31 bytes writes the rows
  of 16 bytes of the reference, offset in eight hexadecimal digits, the bytes two by two, and
  the text of every row, also a short last one, in the same column, followed by an empty line.
  The row text starts right after four spaces: the blank that the \<open>stringstream\<close> is constructed
  with is overwritten (it shows only when there is no data). The formatting flags of the
  stream are restored, but its fill character is left as 0.\<close>

theorem hexdump_correct:
  assumes "\<not> showbase (flags cout)" and "\<not> uppercase (flags cout)" and "\<not> adjust_left (flags cout)" and "width cout = 0"
    and "unat len \<le> length data" and "unat len < 2 ^ 31"
  shows "hexdump data len indent cout =
    (Inr (), cout\<lparr>written := written cout @
       (if len = 0 then spaces 5 @ [newline] else rows (unat indent) 0 (take (unat len) data)) @ [newline],
     fill := CHR ''0''\<rparr>)"
proof -
  let ?n = "unat len" and ?ind = "spaces (unat indent)"
  let ?out = "cout\<lparr>flags := (flags cout)\<lparr>base := Hex\<rparr>, fill := CHR ''0''\<rparr>"
  obtain tx rest where e: "emit ?ind 0 [] (take ?n data) = (tx, rest)" by force
  define k where "k = (16 - ?n mod 16) mod 16"
  have pl: "plain ?out" using assms(1-4) by (simp add: plain_def)
  have loop: "hexdump_loop data len ?ind 0 0 (ss_make '' '') ?out = (Inr (int ?n, ss_of rest), wrote tx ?out)"
    using hexdump_loop_plain [OF pl assms(5,6), of 0 "[]" ?ind tx rest] e by (simp add: ss_of_Nil)
  have rem: "nat ((16 - (int ?n AND 15)) mod 16) = k"
    unfolding k_def int_and_mask by (rule nat_rem) simp
  have tail: "tx @ spaces (2 * k + k div 2 + 4) @ shown rest @ [newline] =
      (if len = 0 then spaces 5 @ [newline] else rows (unat indent) 0 (take ?n data))"
  proof (cases "len = 0")
    case True
    then have "tx = []" "rest = []" "k = 0"
      using e by (simp_all add: k_def)
    then show ?thesis
      using True by (simp add: shown_def spaces_def numeral_eq_Suc)
  next
    case False
    then have "take ?n data \<noteq> []" "length (take ?n data) = ?n"
      using assms(5) by (auto simp: unat_eq_zero)
    then show ?thesis
      using False emit_rows [OF _ _ e, of k] by (simp add: k_def)
  qed
  have "hexdump data len indent cout =
      (Inr (), (wrote (tx @ spaces (2 * k + k div 2 + 4) @ shown rest @ [newline] @ [newline]) ?out)\<lparr>flags := flags cout\<rparr>)"
    using loop pl rem
    by (simp add: hexdump_def Let_def ss_of_def newline_def flip: spaces_def) (simp add: wrote_def)
  also have "tx @ spaces (2 * k + k div 2 + 4) @ shown rest @ [newline] @ [newline] =
      (if len = 0 then spaces 5 @ [newline] else rows (unat indent) 0 (take ?n data)) @ [newline]"
    using arg_cong [OF tail, of "\<lambda>x. x @ [newline]"] by simp
  finally show ?thesis
    by (simp add: wrote_def)
qed

theorem hexdump_correct_witness:
  "\<exists>out. hexdump [72, 105, 0] 3 2 \<lparr>written = [], flags = \<lparr>base = Dec, showbase = False, uppercase = False, adjust_left = False\<rparr>,
      fill = CHR '' '', width = 0\<rparr> = (Inr (), out) \<and>
    written out = ''  00000000:    4869 00'' @ spaces 36 @ ''Hi.'' @ [newline, newline] \<and> fill out = CHR ''0''"
proof -
  let ?c = "\<lparr>written = [], flags = \<lparr>base = Dec, showbase = False, uppercase = False, adjust_left = False\<rparr>,
      fill = CHR '' '', width = 0\<rparr>"
  have r: "rows 2 0 [72, 105, 0] = ''  00000000:    4869 00'' @ spaces 36 @ ''Hi.'' @ [newline]"
    by code_simp
  show ?thesis
    using hexdump_correct [of ?c 3 "[72, 105, 0]" 2] by (simp add: r)
qed

end
