(* ===== verification/Webget.thy ===== *)
theory Webget
  imports Sys_Util
begin

text \<open>
  \<open>apps/webget.cc\<close>: the command-line program. The state is that of the process, with the standard
  error stream; \<open>get_URL\<close> is the placeholder the repository contains.
\<close>

section \<open>The program\<close>

datatype exit_status = Exited int | Aborted

definition EXIT_SUCCESS :: int where
  "EXIT_SUCCESS = 0"

definition EXIT_FAILURE :: int where
  "EXIT_FAILURE = 1"

definition print_err :: "string \<Rightarrow> (('k, 'z) sys_scheme, unit) em" where
  "print_err s = modifyM (\<lambda>st. st\<lparr>cerr := cerr st @ [s]\<rparr>)"

definition get_URL :: "string \<Rightarrow> string \<Rightarrow> (('k, 'z) sys_scheme, unit) em" where
  "get_URL host path =
     seqM (print_err (''Function called: get_URL('' @ host @ '', '' @ path @ '').'' @ [CHR 0x0A]))
       (print_err (''Warning: get_URL() has not been implemented yet.'' @ [CHR 0x0A]))"

text \<open>The \<open>try\<close> block and its handler.\<close>

definition webget_body :: "string list \<Rightarrow> (('k, 'z) sys_scheme, int) em" where
  "webget_body argv =
     (if length argv \<noteq> 3 then
        seqM (print_err (''Usage: '' @ argv ! 0 @ '' HOST PATH'' @ [CHR 0x0A]))
        (seqM (print_err ([CHR 0x09] @ ''Example: '' @ argv ! 0 @ '' stanford.edu /class/cs144'' @ [CHR 0x0A]))
        (returnM EXIT_FAILURE))
      else seqM (get_URL (argv ! 1) (argv ! 2)) (returnM EXIT_SUCCESS))"

definition webget_main :: "(error_category \<Rightarrow> int \<Rightarrow> string) \<Rightarrow> string list \<Rightarrow> ('k, 'z) sys_scheme \<Rightarrow>
    exit_status \<times> ('k, 'z) sys_scheme" where
  "webget_main message argv s =
     (if argv = [] then (Aborted, s)
      else case catchM (webget_body argv)
          (\<lambda>e. if is_exception e
               then seqM (print_err (tagged_error_what message e @ [CHR 0x0A])) (returnM EXIT_FAILURE)
               else throwM e) s of
        (Inr n, s') \<Rightarrow> (Exited n, s')
      | (Inl _, s') \<Rightarrow> (Aborted, s'))"

section \<open>Properties\<close>

text \<open>\<open>webget\<close> never talks to the network: whatever its arguments, it only writes to the standard
  error stream and leaves the kernel alone. With a host and a path it reports success all the
  same; with any other number of arguments it prints the usage message and fails, and with not
  even a program name it aborts.\<close>

lemma webget_fetches_nothing:
  "kern (snd (webget_main message argv s)) = kern s \<and>
   fst (webget_main message argv s) = (if argv = [] then Aborted else if length argv = 3 then Exited 0 else Exited 1) \<and>
   length (cerr (snd (webget_main message argv s))) = length (cerr s) + (if argv = [] then 0 else 2)"
  by (auto simp: webget_main_def webget_body_def get_URL_def print_err_def em_simps EXIT_SUCCESS_def EXIT_FAILURE_def)

end
