(* ===== verification/Spec2Isabelle.thy ===== *)
theory Spec2Isabelle
  imports Shared_Buffer Checksum Byte_Stream Event_Drain Fd_Variables Example_Runs Tun Hexdump Webget
begin

text \<open>
  \<^bold>\<open>Sponge\<close>, the library of \<open>libsponge/\<close> with its command-line program \<open>apps/webget.cc\<close> and the example
  programs of \<open>doctests/\<close>, translated from the sources at one commit. The library has two layers.
  The lower one wraps the kernel: system calls with errors as exceptions, file descriptors,
  addresses, sockets, TUN devices and a \<open>poll\<close> loop. The upper one is data: byte containers,
  integers in network order, the Internet checksum, and the in-memory byte stream that the
  course builds on.

  \<^bold>\<open>Parts, theories and sources.\<close>

  \<^item> \<open>Sponge_Prelude\<close>: machine types (\<open>byte\<close>, \<open>size_t\<close>, \<open>uint16\<close> ... as words; a C \<open>int\<close> as an
    \<open>int\<close> with its conversions), exceptions (\<open>exn\<close>), the effect type \<open>em\<close> (a function from the
    state to a result and the state that is left, also after a throw), the predicate \<open>keeps\<close>
    (an operation preserves a predicate on every outcome) with its introduction rules, and the
    contracts \<open>op_system\<close> and \<open>total_system\<close> for sequences of calls.
  \<^item> \<open>Byte_Queue\<close>: the locale \<open>byte_queue\<close>, what the three containers promise their clients.
  \<^item> \<open>Buffer\<close>: \<open>Buffer\<close>, \<open>BufferList\<close>, \<open>BufferViewList\<close> (\<open>util/buffer.hh\<close>, \<open>buffer.cc\<close>). Each interprets
    \<open>byte_queue\<close>; dropping from the views of a list simulates dropping from the list.
  \<^item> \<open>Shared_Buffer\<close>: the same \<open>Buffer\<close> with its \<open>shared_ptr\<close>: strings in a store with use counts, objects
    that are copied, moved, assigned and destroyed, and a refinement to the values of \<open>Buffer\<close>.
  \<^item> \<open>Net_Parser\<close>: \<open>ParseResult\<close>, \<open>NetParser\<close>, \<open>NetUnparser\<close> (\<open>util/parser.*\<close>) and \<open>doctests/parser_*\<close>. The
    locale \<open>int_codec\<close> is interpreted for 8, 16 and 32 bits, and carries the round trip of
    arbitrary field sequences.
  \<^item> \<open>Checksum\<close>: \<open>InternetChecksum\<close> (\<open>util/util.*\<close>) against a direct definition of RFC 1071.
  \<^item> \<open>Byte_Stream\<close>: \<open>ByteStream\<close> (\<open>byte_stream.hh\<close>, \<open>byte_stream.cc\<close>) as it stands, with its unfinished parts.
  \<^item> \<open>Sys_Util\<close>: \<open>tagged_error\<close>, \<open>unix_error\<close>, \<open>SystemCall\<close>, \<open>timestamp_ms\<close>, \<open>get_random_generator\<close>
    (\<open>util/util.*\<close>); the record \<open>sys\<close> is the process state every kernel client extends.
  \<^item> \<open>Hexdump\<close>: \<open>hexdump\<close> (\<open>util/util.cc\<close>) with the formatting state of \<open>cout\<close>.
  \<^item> \<open>File_Descriptor\<close>: \<open>FDWrapper\<close> and \<open>FileDescriptor\<close> (\<open>util/file_descriptor.*\<close>). Wrappers live in
    the store \<open>fd_heap\<close> of the record \<open>world\<close>; a handle is an address, copies share the wrapper, and
    \<open>fdw_uses\<close> is the use count of the \<open>shared_ptr\<close>. A handle without a wrapper is a null pointer:
    copying and destroying it do nothing, every other member is undefined.
  \<^item> \<open>Address\<close>: \<open>Address\<close> (\<open>util/address.*\<close>); a \<open>sockaddr_storage\<close> is its 128 bytes.
  \<^item> \<open>Socket\<close>: \<open>Socket\<close>, \<open>UDPSocket\<close>, \<open>TCPSocket\<close>, \<open>LocalStreamSocket\<close> (\<open>util/socket.*\<close>).
  \<^item> \<open>Tun\<close>: \<open>TunFD\<close> (\<open>util/tun.*\<close>).
  \<^item> \<open>Event_Loop\<close>: \<open>EventLoop\<close> (\<open>util/eventloop.*\<close>). The state \<open>loop_world\<close> adds the rules to the store;
    \<open>wait_next_event\<close> is the composition of its two loops and the call of \<open>poll\<close>.
  \<^item> \<open>Event_Drain\<close>: programs that read several descriptors through one loop until it has nothing left to do.
  \<^item> \<open>Ownership\<close>: blocks with local descriptors and the constructors that make them.
  \<^item> \<open>Defined_Calls\<close>: the members of descriptors and sockets never run into undefined behaviour while
    their wrapper is alive.
  \<^item> \<open>Fd_Variables\<close>: variables of type \<open>FileDescriptor\<close> and \<open>Socket\<close> with their lifetimes: move construction, move
    assignment, \<open>duplicate\<close>, \<open>Socket(FileDescriptor &&, ...)\<close>, \<open>accept\<close> and destruction, with an analysis
    of scopes and moves (\<open>flow\<close>) for straight-line programs.
  \<^item> \<open>Kernel_View\<close>: two kernels of which one is a view of the other (\<open>sock_refines\<close>), under which the
    operations of the library agree.
  \<^item> \<open>Doc_Examples\<close>: \<open>doctests/socket_*\<close> and \<open>doctests/address_*\<close>, whole programs over the components above.
  \<^item> \<open>Socket_History\<close>: a kernel with a history beside its state (\<open>hist_os\<close>: descriptors opened, bytes sent and
    received), and one rule per operation for what a program that returns has added to it.
  \<^item> \<open>Socket_Runs\<close>, \<open>Loopback\<close>, \<open>Example_Runs\<close>: rules for successful runs of the operations (\<open>runs\<close>), a
    kernel with UDP, TCP and local sockets of one host (\<open>loopback_os\<close>) over which the socket examples are
    run step by step, which serves as a witness only, and what their success means over any kernel.
  \<^item> \<open>Webget\<close>: \<open>apps/webget.cc\<close>.

  \<^bold>\<open>What is shown.\<close> For the data layer: exact functional behaviour of the containers on every
  branch, shared strings that no program can tell from copied ones and that are freed when every
  copy has discarded them, big-endian parsing and its round trip, a parser that never throws and whose errors
  stick, the checksum equal to RFC 1071 for every way of cutting the data into pieces, with the
  length from which its 32-bit sum overflows. For the byte stream: that writes append
  to the ring wherever it wraps and never index out of bounds, and precisely how the class
  falls short of its documentation (nothing can be read back, no flow control, end of file
  from index equality, counters that start undefined, narrowed capacities). For the kernel
  layer: a store invariant kept by every sequence of descriptor and socket calls, use counts
  that are exactly the numbers of variables holding a wrapper however descriptors are moved
  and shared, programs with well-ordered lifetimes free of undefined behaviour, a
  descriptor closed exactly once, writes that deliver exactly the reported prefix, end after
  a bounded number of system calls whatever the kernel does, and complete when it makes
  progress; reads, datagrams, accepted connections and TUN devices on success and on every error; the
  outcomes of \<open>wait_next_event\<close> and which rules remain, and that a loop of readers ends having read
  everything, or cut short by the kernel having lost nothing. For the programs: the socket examples
  leak nothing whatever happens and report success only after the conversations they document,
  the address example succeeds exactly when the lookup answers as expected, and
  \<open>webget\<close> only prints.

  \<^bold>\<open>Interfaces.\<close> \<open>byte_queue\<close> (interpreted by the three containers, used by the parser and by \<open>write\<close>),
  \<open>int_codec\<close> (three widths), \<open>op_system\<close> and \<open>total_system\<close> (parser, byte stream, descriptors, sockets,
  descriptor variables), \<open>viewed_system\<close> (objects that refine an abstract one through a view, interpreted by shared
  buffers),
  \<open>loop_client\<close> (closures that leave the rules of the loop alone, interpreted by closures over
  descriptors), \<open>fd_allocator\<close> (constructors that own what they return, interpreted for plain
  descriptors, TUN devices, UDP, TCP, accepted and local stream sockets).

  \<^bold>\<open>Conventions and bounds.\<close> LP64 and little-endian: \<open>size_t\<close> has 64 bits, \<open>int\<close> and \<open>unsigned\<close> 32,
  \<open>sockaddr_storage\<close> 128 bytes. Undefined behaviour (null dereference, index or copy out of range,
  signed overflow) is the value \<open>Undefined_behaviour\<close>, which no handler catches, so its absence is
  provable. The kernel, the resolver, the clock, \<open>random_device\<close>, the Mersenne Twister and
  the closures of an event loop are parameters; what a theorem needs of them is a named
  hypothesis (\<open>writev_contract\<close>, \<open>read_contract\<close>, \<open>recvfrom_contract\<close>, \<open>sendmsg_contract\<close>, \<open>numeric_resolver\<close>,
  \<open>stream_kernel\<close>, \<open>steady\<close>) that states the behaviour its manual page documents; \<open>stream_kernel\<close> leaves out that
  \<open>poll\<close> fails with another error than \<open>EINTR\<close>, which the loop takes for a success. \<open>count_writev\<close> and \<open>hist_os\<close> put a
  record of the calls beside the state of an arbitrary kernel. Loops are total functions with
  their measures, or \<open>partial_function\<close>s (the first loop of \<open>wait_next_event\<close>) that are proved to
  return; no fuel is used in the model of the code (\<open>serve\<close>, the program around the loop in \<open>Event_Drain\<close>, has
  a bound on its calls, and the theorem gives one that is enough). The standard error stream is the list of the texts written to it.

  \<^bold>\<open>Not modelled.\<close> Failure of memory allocation. The storage of \<open>ByteStream::m_buf\<close> is never freed by
  the class; no heap is modelled for it. A callback that calls \<open>wait_next_event\<close> of the loop it runs
  in. Stream adjustment \<open>internal\<close> in \<open>hexdump\<close>. \<open>tests/\<close>, most of which drive later parts of the
  course (TCP sender, receiver, reassembler) that are not in the repository, the build files
  and the generated documentation.
  Everything else of \<open>libsponge/\<close>, \<open>apps/\<close> and \<open>doctests/\<close> has a definition; what the definitions do not translate
  there are declarations, comments and include directives.
\<close>

end
